theory Spec2Isabelle
  imports Main
begin

section \<open>Python values of the demo\<close>

text \<open>
  What \<^verbatim>\<open>json.loads\<close> can return: \<^verbatim>\<open>None\<close>, a bool, an int, a float, a
  string, a list or a dict with string keys.  The program never computes with a float, so
  its type is a parameter.  A dict is the list of its items (keys distinct, as Python
  dicts have them).
\<close>

datatype 'f json =
    JNull
  | JBool bool
  | JInt int
  | JFloat 'f
  | JStr string
  | JArr "'f json list"
  | JObj "(string \<times> 'f json) list"

text \<open>The exceptions the program can meet.\<close>

datatype 'f error =
    JSONDecodeError
  | KeyError string
  | TypeError
  | AttributeError
  | ValueError_unknown_message_type "'f json"
  | ValueError_empty_set

text \<open>
  \<^verbatim>\<open>d[k]\<close> for a string \<open>k\<close>: a dict answers or raises KeyError, every other
  JSON value raises TypeError (not subscriptable, or indices must be integers).
\<close>

definition getitem :: "'f json \<Rightarrow> string \<Rightarrow> 'f error + 'f json" where
  "getitem d k =
     (case d of
        JObj kvs \<Rightarrow> (case map_of kvs k of None \<Rightarrow> Inl (KeyError k) | Some v \<Rightarrow> Inr v)
      | _ \<Rightarrow> Inl TypeError)"

section \<open>The shared state and its conditions\<close>

text \<open>
  An \<^verbatim>\<open>asyncio.Condition\<close>: its lock, and the futures of the coroutines suspended in
  \<^verbatim>\<open>wait()\<close>, in arrival order.  A future is named by the task that awaits it.
\<close>

record condition =
  locked :: bool
  waiters :: "nat list"

definition new_condition :: condition where
  "new_condition = \<lparr>locked = False, waiters = []\<rparr>"

definition acquire :: "condition \<Rightarrow> condition" where
  "acquire c = c\<lparr>locked := True\<rparr>"

definition release :: "condition \<Rightarrow> condition" where
  "release c = c\<lparr>locked := False\<rparr>"

text \<open>A value of the dict \<^verbatim>\<open>state\<close>: a payload (or \<^verbatim>\<open>None\<close>), or a condition.\<close>

datatype 'f obj = Val "'f json" | Cond condition

text \<open>The module-level dict \<^verbatim>\<open>state\<close> as the file defines it.\<close>

definition initial_state :: "string \<rightharpoonup> 'f obj" where
  "initial_state =
     [''a_event'' \<mapsto> Val JNull,
      ''a'' \<mapsto> Val (JObj [(''1'', JInt 0), (''2'', JInt 0)]),
      ''b_event'' \<mapsto> Val JNull,
      ''b'' \<mapsto> Val (JObj [(''3'', JInt 0), (''4'', JInt 0)]),
      ''c_event'' \<mapsto> Val JNull,
      ''c'' \<mapsto> Val (JObj [(''5'', JInt 0), (''6'', JInt 0)])]"

definition create_conditions :: "(string \<rightharpoonup> 'f obj) \<Rightarrow> (string \<rightharpoonup> 'f obj)" where
  "create_conditions st =
     st(''a_event'' \<mapsto> Cond new_condition,
        ''b_event'' \<mapsto> Cond new_condition,
        ''c_event'' \<mapsto> Cond new_condition)"

section \<open>Tasks and the event loop\<close>

text \<open>
  The coroutines of the program that a task can run.  The argument of the decoder is the
  text of the datagram, named by what \<^verbatim>\<open>json.loads\<close> does on it: \<open>Inl e\<close> when it
  raises \<open>e\<close>, \<open>Inr data\<close> when it returns \<open>data\<close>.
\<close>

datatype 'f call =
    Protocol_x_decoder "'f error + 'f json"
  | Await_message string
  | Await_all_messages "string list"
  | Await_any_messages "string list"

datatype result = RNone | RStr string | RList "string list"

text \<open>
  Where a task stands between two steps of the loop.
  \<^item> \<open>Created\<close>: made by \<^verbatim>\<open>create_task\<close> / \<^verbatim>\<open>ensure_future\<close>, first step pending;
  \<^item> \<open>In_wait m done\<close>: \<^verbatim>\<open>await_message(m)\<close> suspended in \<^verbatim>\<open>cond.wait()\<close>;
    \<open>done\<close> tells whether its future has its result;
  \<^item> \<open>In_gather ms cs n exc\<close>: \<^verbatim>\<open>await_all_messages\<close> suspended on the future of
    \<^verbatim>\<open>gather\<close> over the children \<open>cs\<close>; \<open>n\<close> children have reported, \<open>exc\<close> is the
    exception that future holds;
  \<^item> \<open>In_asyncio_wait cs woken\<close>: \<^verbatim>\<open>await_any_messages\<close> suspended in
    \<^verbatim>\<open>asyncio.wait\<close> over \<open>cs\<close>; \<open>woken\<close> tells whether its waiter future is set;
  \<^item> \<open>Blocked\<close>: suspended in \<^verbatim>\<open>acquire()\<close> of a lock that is held;
  \<^item> \<open>Returned\<close>, \<open>Raised\<close>: finished.
\<close>

datatype 'f coro =
    Created "'f call"
  | In_wait string bool
  | In_gather "string list" "nat list" nat "'f error option"
  | In_asyncio_wait "nat list" bool
  | Blocked
  | Returned result
  | Raised "'f error"

text \<open>
  What \<^verbatim>\<open>loop.call_soon\<close> queues: a step of a task (its first step or its wakeup), or
  the done-callback that parent \<open>p\<close> attached to child \<open>c\<close>.
\<close>

datatype handle = Step nat | Done_callback nat nat

record 'f world =
  state :: "string \<rightharpoonup> 'f obj"
  tasks :: "'f coro list"
  ready :: "handle list"
  done_callbacks :: "nat \<Rightarrow> nat list"

definition world0 :: "'f world" where
  "world0 = \<lparr>state = create_conditions initial_state, tasks = [], ready = [],
             done_callbacks = (\<lambda>c. [])\<rparr>"

text \<open>A task finishes: its state is final and its done-callbacks are queued.\<close>

definition finish :: "nat \<Rightarrow> 'f coro \<Rightarrow> 'f world \<Rightarrow> 'f world" where
  "finish t c w =
     w\<lparr>tasks := (tasks w)[t := c],
       ready := ready w @ map (\<lambda>p. Done_callback p t) (done_callbacks w t)\<rparr>"

text \<open>\<^verbatim>\<open>fut.set_result\<close> unless the future is done: the waiting task is queued.\<close>

definition set_result :: "'f world \<Rightarrow> nat \<Rightarrow> 'f world" where
  "set_result w t =
     (if t < length (tasks w) then
        (case tasks w ! t of
           In_wait m False \<Rightarrow> w\<lparr>tasks := (tasks w)[t := In_wait m True], ready := ready w @ [Step t]\<rparr>
         | _ \<Rightarrow> w)
      else w)"

definition notify_all :: "condition \<Rightarrow> 'f world \<Rightarrow> 'f world" where
  "notify_all c w = foldl set_result w (waiters c)"

subsection \<open>The decoder\<close>

text \<open>How far a coroutine got when it gives the control back.\<close>

datatype 'f status = Return result | Raise "'f error" | Suspend

text \<open>
  The body shared by \<^verbatim>\<open>decode_a\<close>, \<^verbatim>\<open>decode_b\<close> and \<^verbatim>\<open>decode_c\<close>: store the
  payload, then \<^verbatim>\<open>async with cond: cond.notify_all()\<close>.  Entering the block acquires
  the lock, which suspends the coroutine when the lock is held; leaving it releases the lock.
\<close>

definition decode :: "string \<Rightarrow> string \<Rightarrow> 'f json \<Rightarrow> 'f world \<Rightarrow> 'f world \<times> 'f status" where
  "decode topic event data w =
     (let w1 = w\<lparr>state := (state w)(topic \<mapsto> Val data)\<rparr> in
      case state w1 event of
        None \<Rightarrow> (w1, Raise (KeyError event))
      | Some (Val v) \<Rightarrow> (w1, Raise AttributeError)
      | Some (Cond c) \<Rightarrow>
          if locked c then (w1, Suspend)
          else
            (let w2 = notify_all (acquire c) (w1\<lparr>state := (state w1)(event \<mapsto> Cond (acquire c))\<rparr>)
             in (w2\<lparr>state := (state w2)(event \<mapsto> Cond (release (acquire c)))\<rparr>, Return RNone)))"

definition decode_a :: "'f json \<Rightarrow> 'f world \<Rightarrow> 'f world \<times> 'f status" where
  "decode_a = decode ''a'' ''a_event''"

definition decode_b :: "'f json \<Rightarrow> 'f world \<Rightarrow> 'f world \<times> 'f status" where
  "decode_b = decode ''b'' ''b_event''"

definition decode_c :: "'f json \<Rightarrow> 'f world \<Rightarrow> 'f world \<times> 'f status" where
  "decode_c = decode ''c'' ''c_event''"

definition decoders :: "string \<rightharpoonup> ('f json \<Rightarrow> 'f world \<Rightarrow> 'f world \<times> 'f status)" where
  "decoders = [''a'' \<mapsto> decode_a, ''b'' \<mapsto> decode_b, ''c'' \<mapsto> decode_c]"

text \<open>
  \<^verbatim>\<open>decoders.get(type_)\<close>: a list or a dict is unhashable (TypeError); any other
  value that is not one of the three keys gives \<^verbatim>\<open>None\<close>.
\<close>

definition decoders_get ::
  "'f json \<Rightarrow> 'f error + ('f json \<Rightarrow> 'f world \<Rightarrow> 'f world \<times> 'f status) option" where
  "decoders_get msg_type =
     (case msg_type of
        JStr s \<Rightarrow> Inr (decoders s)
      | JArr xs \<Rightarrow> Inl TypeError
      | JObj kvs \<Rightarrow> Inl TypeError
      | _ \<Rightarrow> Inr None)"

definition protocol_x_decoder :: "'f error + 'f json \<Rightarrow> 'f world \<Rightarrow> 'f world \<times> 'f status" where
  "protocol_x_decoder message w =
     (case message of
        Inl e \<Rightarrow> (w, Raise e)
      | Inr data \<Rightarrow>
          (case getitem data ''type'' of
             Inl e \<Rightarrow> (w, Raise e)
           | Inr msg_type \<Rightarrow>
               (case getitem data ''payload'' of
                  Inl e \<Rightarrow> (w, Raise e)
                | Inr payload \<Rightarrow>
                    (case decoders_get msg_type of
                       Inl e \<Rightarrow> (w, Raise e)
                     | Inr None \<Rightarrow> (w, Raise (ValueError_unknown_message_type msg_type))
                     | Inr (Some decoder) \<Rightarrow> decoder payload w))))"

subsection \<open>Waiting for one message\<close>

text \<open>
  \<^verbatim>\<open>await_message\<close>, first step, run by task \<open>t\<close>: look the condition up, enter
  \<^verbatim>\<open>async with cond\<close> (acquire), then \<^verbatim>\<open>cond.wait()\<close>, which releases the lock,
  appends a new future to the waiters and suspends on it.
\<close>

definition await_message :: "nat \<Rightarrow> string \<Rightarrow> 'f world \<Rightarrow> 'f world" where
  "await_message t message w =
     (let event = message @ ''_event'' in
      case state w event of
        None \<Rightarrow> finish t (Raised (KeyError event)) w
      | Some (Val v) \<Rightarrow> finish t (Raised AttributeError) w
      | Some (Cond c) \<Rightarrow>
          if locked c then w\<lparr>tasks := (tasks w)[t := Blocked]\<rparr>
          else
            w\<lparr>state := (state w)(event \<mapsto> Cond ((release (acquire c))\<lparr>waiters := waiters c @ [t]\<rparr>)),
              tasks := (tasks w)[t := In_wait message False]\<rparr>)"

text \<open>
  The wakeup of \<^verbatim>\<open>await_message\<close>, once its future has its result: \<^verbatim>\<open>wait()\<close>
  removes the future from the waiters and takes the lock again; the block is left (release)
  and the name is returned.  The condition is the object the first step found: the entries
  \<^verbatim>\<open>*_event\<close> of \<^verbatim>\<open>state\<close> are assigned by \<^verbatim>\<open>create_conditions\<close> only, so the
  dict still holds it.
\<close>

definition await_message_wakeup :: "nat \<Rightarrow> string \<Rightarrow> 'f world \<Rightarrow> 'f world" where
  "await_message_wakeup t message w =
     (let event = message @ ''_event'' in
      case state w event of
        Some (Cond c) \<Rightarrow>
          (let c1 = c\<lparr>waiters := remove1 t (waiters c)\<rparr> in
           if locked c1 then w\<lparr>state := (state w)(event \<mapsto> Cond c1), tasks := (tasks w)[t := Blocked]\<rparr>
           else finish t (Returned (RStr message))
                  (w\<lparr>state := (state w)(event \<mapsto> Cond (release (acquire c1)))\<rparr>))
      | _ \<Rightarrow> w)"

subsection \<open>Waiting for all, waiting for any\<close>

text \<open>
  Both build one \<^verbatim>\<open>await_message\<close> coroutine per name; \<^verbatim>\<open>gather\<close> and
  \<^verbatim>\<open>asyncio.wait\<close> wrap each in a new task (queued for its first step) and attach a
  done-callback to it.  The new tasks take the next free task numbers.
\<close>

definition spawn_children :: "nat \<Rightarrow> string list \<Rightarrow> 'f coro \<Rightarrow> 'f world \<Rightarrow> 'f world" where
  "spawn_children t messages c w =
     (let cs = [length (tasks w) ..< length (tasks w) + length messages] in
      w\<lparr>tasks := (tasks w)[t := c] @ map (\<lambda>m. Created (Await_message m)) messages,
        ready := ready w @ map Step cs,
        done_callbacks := (\<lambda>x. if x \<in> set cs then [t] else done_callbacks w x)\<rparr>)"

definition children_of :: "'f world \<Rightarrow> string list \<Rightarrow> nat list" where
  "children_of w messages = [length (tasks w) ..< length (tasks w) + length messages]"

text \<open>
  \<^verbatim>\<open>await_all_messages\<close>, first step.  \<^verbatim>\<open>gather()\<close> of no coroutine is a future that
  is done already, so the call returns at once.
\<close>

definition await_all_messages :: "nat \<Rightarrow> string list \<Rightarrow> 'f world \<Rightarrow> 'f world" where
  "await_all_messages t messages w =
     (if messages = [] then finish t (Returned (RList messages)) w
      else spawn_children t messages (In_gather messages (children_of w messages) 0 None) w)"

text \<open>
  The done-callback of \<^verbatim>\<open>gather\<close> for child \<open>c\<close>: count it; unless the outer future is
  done, give it the child's exception, or the results when every child has reported.  Setting
  the outer future queues the wakeup of the parent \<open>p\<close>.
\<close>

definition gather_done_callback ::
  "nat \<Rightarrow> nat \<Rightarrow> string list \<Rightarrow> nat list \<Rightarrow> nat \<Rightarrow> 'f error option \<Rightarrow> 'f world \<Rightarrow> 'f world" where
  "gather_done_callback p c messages cs n exc w =
     (if exc \<noteq> None \<or> n = length cs then w\<lparr>tasks := (tasks w)[p := In_gather messages cs (Suc n) exc]\<rparr>
      else
        (case tasks w ! c of
           Raised e \<Rightarrow>
             w\<lparr>tasks := (tasks w)[p := In_gather messages cs (Suc n) (Some e)],
               ready := ready w @ [Step p]\<rparr>
         | _ \<Rightarrow>
             if Suc n = length cs
             then w\<lparr>tasks := (tasks w)[p := In_gather messages cs (Suc n) None],
                    ready := ready w @ [Step p]\<rparr>
             else w\<lparr>tasks := (tasks w)[p := In_gather messages cs (Suc n) None]\<rparr>))"

text \<open>The wakeup of \<^verbatim>\<open>await_all_messages\<close>: the outer future raises or has the results.\<close>

definition await_all_messages_wakeup ::
  "nat \<Rightarrow> string list \<Rightarrow> nat list \<Rightarrow> nat \<Rightarrow> 'f error option \<Rightarrow> 'f world \<Rightarrow> 'f world" where
  "await_all_messages_wakeup t messages cs n exc w =
     (case exc of
        Some e \<Rightarrow> finish t (Raised e) w
      | None \<Rightarrow> if n = length cs then finish t (Returned (RList messages)) w else w)"

text \<open>
  \<^verbatim>\<open>await_any_messages\<close>, first step.  \<^verbatim>\<open>asyncio.wait\<close> refuses an empty set
  (ValueError).  It creates the tasks while iterating the set of its arguments; here they are
  created in the order of the arguments, which stands for the order of that set.
\<close>

definition await_any_messages :: "nat \<Rightarrow> string list \<Rightarrow> 'f world \<Rightarrow> 'f world" where
  "await_any_messages t messages w =
     (if messages = [] then finish t (Raised ValueError_empty_set) w
      else spawn_children t messages (In_asyncio_wait (children_of w messages) False) w)"

text \<open>
  The done-callback of \<^verbatim>\<open>asyncio.wait\<close> with \<^verbatim>\<open>FIRST_COMPLETED\<close>: the first child
  that finishes sets the waiter future, which queues the wakeup of the parent.
\<close>

definition wait_done_callback :: "nat \<Rightarrow> nat list \<Rightarrow> bool \<Rightarrow> 'f world \<Rightarrow> 'f world" where
  "wait_done_callback p cs woken w =
     (if woken then w
      else w\<lparr>tasks := (tasks w)[p := In_asyncio_wait cs True], ready := ready w @ [Step p]\<rparr>)"

text \<open>
  \<^verbatim>\<open>[task.result() for task in completed]\<close>: the results of the finished tasks; the
  first one that holds an exception raises it.
\<close>

fun task_results :: "'f coro list \<Rightarrow> 'f error + string list" where
  "task_results [] = Inr []"
| "task_results (Raised e # cs) = Inl e"
| "task_results (Returned (RStr m) # cs) =
     (case task_results cs of Inl e \<Rightarrow> Inl e | Inr ms \<Rightarrow> Inr (m # ms))"
| "task_results (c # cs) = task_results cs"

definition is_done :: "'f coro \<Rightarrow> bool" where
  "is_done c = (case c of Returned r \<Rightarrow> True | Raised e \<Rightarrow> True | _ \<Rightarrow> False)"

text \<open>
  The wakeup of \<^verbatim>\<open>await_any_messages\<close>: \<^verbatim>\<open>asyncio.wait\<close> detaches its callback from
  every child and returns the children that are done now, and the pending ones, which the
  program drops.  The done set is listed in the order of the arguments; Python lists it in
  the iteration order of a set.
\<close>

definition await_any_messages_wakeup :: "nat \<Rightarrow> nat list \<Rightarrow> 'f world \<Rightarrow> 'f world" where
  "await_any_messages_wakeup t cs w =
     (let completed = filter (\<lambda>c. is_done (tasks w ! c)) cs;
          w1 = w\<lparr>done_callbacks := (\<lambda>x. if x \<in> set cs then [] else done_callbacks w x)\<rparr>
      in case task_results (map (\<lambda>c. tasks w ! c) completed) of
           Inl e \<Rightarrow> finish t (Raised e) w1
         | Inr completed_messages \<Rightarrow> finish t (Returned (RList completed_messages)) w1)"

subsection \<open>The loop\<close>

text \<open>One step of task \<open>t\<close>: its coroutine runs to its next suspension or to its end.\<close>

definition settle :: "nat \<Rightarrow> 'f world \<times> 'f status \<Rightarrow> 'f world" where
  "settle t ws =
     (case ws of
        (w, Return r) \<Rightarrow> finish t (Returned r) w
      | (w, Raise e) \<Rightarrow> finish t (Raised e) w
      | (w, Suspend) \<Rightarrow> w\<lparr>tasks := (tasks w)[t := Blocked]\<rparr>)"

definition step :: "nat \<Rightarrow> 'f world \<Rightarrow> 'f world" where
  "step t w =
     (if t < length (tasks w) then
        (case tasks w ! t of
           Created (Protocol_x_decoder message) \<Rightarrow> settle t (protocol_x_decoder message w)
         | Created (Await_message message) \<Rightarrow> await_message t message w
         | Created (Await_all_messages messages) \<Rightarrow> await_all_messages t messages w
         | Created (Await_any_messages messages) \<Rightarrow> await_any_messages t messages w
         | In_wait message True \<Rightarrow> await_message_wakeup t message w
         | In_gather messages cs n exc \<Rightarrow> await_all_messages_wakeup t messages cs n exc w
         | In_asyncio_wait cs True \<Rightarrow> await_any_messages_wakeup t cs w
         | _ \<Rightarrow> w)
      else w)"

definition done_callback :: "nat \<Rightarrow> nat \<Rightarrow> 'f world \<Rightarrow> 'f world" where
  "done_callback p c w =
     (if p < length (tasks w) \<and> c < length (tasks w) then
        (case tasks w ! p of
           In_gather messages cs n exc \<Rightarrow> gather_done_callback p c messages cs n exc w
         | In_asyncio_wait cs woken \<Rightarrow> wait_done_callback p cs woken w
         | _ \<Rightarrow> w)
      else w)"

fun run_handle :: "handle \<Rightarrow> 'f world \<Rightarrow> 'f world" where
  "run_handle (Step t) w = step t w"
| "run_handle (Done_callback p c) w = done_callback p c w"

text \<open>
  What happens to the loop: \<open>Loop\<close> runs the handle that was queued first;
  \<open>Create_task\<close> is \<^verbatim>\<open>loop.create_task\<close> called from outside the coroutines above
  (\<^verbatim>\<open>datagram_received\<close> for a decoder, the monitors for a wait).
\<close>

datatype 'f action = Create_task "'f call" | Loop

fun act :: "'f world \<Rightarrow> 'f action \<Rightarrow> 'f world" where
  "act w (Create_task c) =
     w\<lparr>tasks := tasks w @ [Created c], ready := ready w @ [Step (length (tasks w))]\<rparr>"
| "act w Loop = (case ready w of [] \<Rightarrow> w | h # hs \<Rightarrow> run_handle h (w\<lparr>ready := hs\<rparr>))"

definition exec :: "'f action list \<Rightarrow> 'f world \<Rightarrow> 'f world" where
  "exec acts w = foldl act w acts"

section \<open>Notions used by the statements\<close>

text \<open>Whether a task is suspended in \<^verbatim>\<open>cond.wait()\<close>.\<close>

definition is_wait :: "'f coro \<Rightarrow> bool" where
  "is_wait c = (case c of In_wait m f \<Rightarrow> True | _ \<Rightarrow> False)"

text \<open>What holds of the dict and the tasks between two steps of the loop: the three
  conditions exist and their locks are free, the dict has no other key than the six of the
  file, and the waiters of the condition of \<open>m\<close> are exactly the tasks suspended in
  \<^verbatim>\<open>await_message(m)\<close>, each once.\<close>

definition winv :: "(string \<rightharpoonup> 'f obj) \<Rightarrow> 'f coro list \<Rightarrow> bool" where
  "winv st ts \<longleftrightarrow>
     (\<forall>k \<in> {''a_event'', ''b_event'', ''c_event''}. \<exists>c. st k = Some (Cond c) \<and> \<not> locked c) \<and>
     (\<forall>k. st k \<noteq> None \<longrightarrow> k \<in> {''a'', ''b'', ''c'', ''a_event'', ''b_event'', ''c_event''}) \<and>
     (\<forall>k c. st k = Some (Cond c) \<longrightarrow>
        k \<in> {''a_event'', ''b_event'', ''c_event''} \<and> distinct (waiters c) \<and>
        (\<forall>t \<in> set (waiters c). t < length ts \<and> (\<exists>m f. ts ! t = In_wait m f \<and> k = m @ ''_event''))) \<and>
     (\<forall>t m f. t < length ts \<longrightarrow> ts ! t = In_wait m f \<longrightarrow>
        (\<exists>c. st (m @ ''_event'') = Some (Cond c) \<and> t \<in> set (waiters c)))"

definition world_inv :: "'f world \<Rightarrow> bool" where
  "world_inv w = winv (state w) (tasks w)"

text \<open>What \<^verbatim>\<open>set_result\<close> does to the task that awaits the future.\<close>

definition wake :: "'f coro \<Rightarrow> 'f coro" where
  "wake c = (case c of In_wait m False \<Rightarrow> In_wait m True | _ \<Rightarrow> c)"

text \<open>The topic a decoder task is about to dispatch: the message is a dict with a payload and
  a type that is a key of \<^verbatim>\<open>decoders\<close>.\<close>

fun dispatch_type :: "'f call \<Rightarrow> string option" where
  "dispatch_type (Protocol_x_decoder (Inr (JObj kvs))) =
     (case map_of kvs ''type'' of
        Some (JStr m) \<Rightarrow>
          if m \<in> {''a'', ''b'', ''c''} \<and> map_of kvs ''payload'' \<noteq> None then Some m else None
      | _ \<Rightarrow> None)"
| "dispatch_type _ = None"

text \<open>The handle the loop runs next is the first step of a decoder that dispatches a
  message of type \<open>m\<close>.\<close>

definition dispatches :: "string \<Rightarrow> 'f world \<Rightarrow> bool" where
  "dispatches m w =
     (case ready w of
        Step d # hs \<Rightarrow>
          d < length (tasks w) \<and>
          (case tasks w ! d of Created cl \<Rightarrow> dispatch_type cl = Some m | _ \<Rightarrow> False)
      | _ \<Rightarrow> False)"

text \<open>A task that no step changes any more.\<close>

definition is_final :: "'f coro \<Rightarrow> bool" where
  "is_final c = (case c of Returned r \<Rightarrow> True | Raised e \<Rightarrow> True | Blocked \<Rightarrow> True | _ \<Rightarrow> False)"

text \<open>The tasks a suspended \<^verbatim>\<open>gather\<close> or \<^verbatim>\<open>asyncio.wait\<close> is waiting for.\<close>

definition children :: "'f coro \<Rightarrow> nat list" where
  "children c = (case c of In_gather ms cs n e \<Rightarrow> cs | In_asyncio_wait cs b \<Rightarrow> cs | _ \<Rightarrow> [])"

text \<open>
  The done-callbacks and the tasks agree: a task that does not exist has no callback, a
  task has at most one, the children of a suspended parent exist, and as long as they run
  their callback is the one of that parent; a callback belongs to a parent of the task, or to
  a task that has finished.
\<close>

definition finv :: "'f coro list \<Rightarrow> (nat \<Rightarrow> nat list) \<Rightarrow> bool" where
  "finv ts dc \<longleftrightarrow>
     (\<forall>x. length ts \<le> x \<longrightarrow> dc x = []) \<and>
     (\<forall>x. length (dc x) \<le> 1) \<and>
     (\<forall>p x. p < length ts \<longrightarrow> x \<in> set (children (ts ! p)) \<longrightarrow>
        x < length ts \<and> x \<noteq> p \<and> (\<not> is_final (ts ! x) \<longrightarrow> dc x = [p])) \<and>
     (\<forall>x p. p \<in> set (dc x) \<longrightarrow>
        p < length ts \<and> (x \<in> set (children (ts ! p)) \<or> is_final (ts ! p)))"

text \<open>
  The queue and the tasks agree: a queued step belongs to a task that exists; a task that
  has not started is queued exactly once; a task suspended in \<^verbatim>\<open>asyncio.wait\<close> whose
  waiter is not set is not queued; a task whose future is set is queued; a queued
  done-callback belongs to a child that has finished.
\<close>

definition qinv :: "'f coro list \<Rightarrow> handle list \<Rightarrow> bool" where
  "qinv ts q \<longleftrightarrow>
     (\<forall>t. Step t \<in> set q \<longrightarrow> t < length ts) \<and>
     (\<forall>t cl. t < length ts \<longrightarrow> ts ! t = Created cl \<longrightarrow> count_list q (Step t) = 1) \<and>
     (\<forall>t cs. t < length ts \<longrightarrow> ts ! t = In_asyncio_wait cs False \<longrightarrow> Step t \<notin> set q) \<and>
     (\<forall>t m. t < length ts \<longrightarrow> ts ! t = In_wait m True \<longrightarrow> Step t \<in> set q) \<and>
     (\<forall>p c. Done_callback p c \<in> set q \<longrightarrow>
        p < length ts \<and> c < length ts \<and> is_done (ts ! c) \<and>
        (c \<in> set (children (ts ! p)) \<or> is_final (ts ! p)))"

definition sched_inv :: "'f world \<Rightarrow> bool" where
  "sched_inv w \<longleftrightarrow> finv (tasks w) (done_callbacks w) \<and> qinv (tasks w) (ready w)"

text \<open>The same while the step of task \<open>t\<close>, taken from the head of the queue, is running.\<close>

definition sched_inv_at :: "nat \<Rightarrow> 'f world \<Rightarrow> bool" where
  "sched_inv_at t w \<longleftrightarrow> finv (tasks w) (done_callbacks w) \<and> qinv (tasks w) (Step t # ready w)"

text \<open>
  Nothing that a task suspended in \<^verbatim>\<open>asyncio.wait\<close> is waiting for gets lost: once
  woken it is queued; while it is not woken, the done-callback of every finished child is
  queued.
\<close>

definition ainv :: "'f coro list \<Rightarrow> handle list \<Rightarrow> bool" where
  "ainv ts q \<longleftrightarrow>
     (\<forall>p cs. p < length ts \<longrightarrow> ts ! p = In_asyncio_wait cs True \<longrightarrow> Step p \<in> set q) \<and>
     (\<forall>p cs c. p < length ts \<longrightarrow> ts ! p = In_asyncio_wait cs False \<longrightarrow> c \<in> set cs \<longrightarrow>
        is_done (ts ! c) \<longrightarrow> Done_callback p c \<in> set q)"

text \<open>Whether a handle is a done-callback of parent \<open>p\<close>.\<close>

definition is_cb :: "nat \<Rightarrow> handle \<Rightarrow> bool" where
  "is_cb p h = (case h of Done_callback p' c \<Rightarrow> p' = p | Step t \<Rightarrow> False)"

definition is_raised :: "'f coro \<Rightarrow> bool" where
  "is_raised c = (case c of Raised e \<Rightarrow> True | _ \<Rightarrow> False)"

text \<open>
  For a task suspended in \<^verbatim>\<open>gather\<close>: the children are distinct; the callbacks that have
  run and those that are queued count the children that have finished; the task is queued
  once its future holds an exception, and until then the callback of every child that has
  raised is queued.
\<close>

definition ginv :: "'f coro list \<Rightarrow> handle list \<Rightarrow> bool" where
  "ginv ts q \<longleftrightarrow>
     (\<forall>p ms cs n exc. p < length ts \<longrightarrow> ts ! p = In_gather ms cs n exc \<longrightarrow>
        distinct cs \<and>
        n + length (filter (is_cb p) q) = length (filter (\<lambda>c. is_done (ts ! c)) cs) \<and>
        (exc \<noteq> None \<longrightarrow> Step p \<in> set q) \<and>
        (exc = None \<longrightarrow> (\<forall>c \<in> set cs. is_raised (ts ! c) \<longrightarrow> Done_callback p c \<in> set q)))"

text \<open>A task that waits on a condition and has not been notified is not queued.\<close>

definition uinv :: "'f coro list \<Rightarrow> handle list \<Rightarrow> bool" where
  "uinv ts q \<longleftrightarrow> (\<forall>t m. t < length ts \<longrightarrow> ts ! t = In_wait m False \<longrightarrow> Step t \<notin> set q)"

text \<open>The three invariants of the waiting tasks together, and while the step of \<open>t\<close> runs.\<close>

definition wait_inv :: "'f world \<Rightarrow> bool" where
  "wait_inv w \<longleftrightarrow>
     ainv (tasks w) (ready w) \<and> ginv (tasks w) (ready w) \<and> uinv (tasks w) (ready w)"

definition wait_inv_at :: "nat \<Rightarrow> 'f world \<Rightarrow> bool" where
  "wait_inv_at t w \<longleftrightarrow>
     ainv (tasks w) (Step t # ready w) \<and> ginv (tasks w) (Step t # ready w) \<and>
     uinv (tasks w) (Step t # ready w)"

text \<open>
  The states a call of \<^verbatim>\<open>await_message(m)\<close> goes through: not started; for a name of the
  dict, registered, notified, returned; for any other name, failed with the
  \<^verbatim>\<open>KeyError\<close> of the lookup.
\<close>

definition awaits :: "string \<Rightarrow> 'f coro \<Rightarrow> bool" where
  "awaits m c \<longleftrightarrow>
     c = Created (Await_message m)
     \<or> (m \<in> {''a'', ''b'', ''c''} \<and> (c = In_wait m False \<or> c = In_wait m True \<or> c = Returned (RStr m)))
     \<or> (m \<notin> {''a'', ''b'', ''c''} \<and> c = Raised (KeyError (m @ ''_event'')))"

text \<open>The \<^verbatim>\<open>KeyError\<close> of the lookup of the condition of a name, among \<open>ms\<close>, that the
  dict does not have.\<close>

definition unknown_topic :: "string list \<Rightarrow> 'f error \<Rightarrow> bool" where
  "unknown_topic ms e \<longleftrightarrow>
     (\<exists>m. m \<in> set ms \<and> m \<notin> {''a'', ''b'', ''c''} \<and> e = KeyError (m @ ''_event''))"

text \<open>The tasks \<open>cs\<close> are the calls of \<^verbatim>\<open>await_message\<close> for the names \<open>ms\<close>, in order.\<close>

definition sub_waits :: "string list \<Rightarrow> nat list \<Rightarrow> 'f coro list \<Rightarrow> bool" where
  "sub_waits ms cs ts \<longleftrightarrow>
     length cs = length ms \<and> (\<forall>i<length ms. cs ! i < length ts \<and> awaits (ms ! i) (ts ! (cs ! i)))"

text \<open>
  An \<^verbatim>\<open>asyncio.wait\<close> of task \<open>p\<close> whose \<open>i\<close>-th name the dict does not have: either
  that sub-wait has raised already, or it has not started and is queued before any callback
  that could wake \<open>p\<close>; or \<open>p\<close> has raised the \<^verbatim>\<open>KeyError\<close> of such a name.
\<close>

definition fails_first :: "nat \<Rightarrow> nat list \<Rightarrow> string list \<Rightarrow> nat \<Rightarrow> 'f world \<Rightarrow> bool" where
  "fails_first p cs ms i v \<longleftrightarrow>
     ((\<exists>b. tasks v ! p = In_asyncio_wait cs b) \<and>
        (tasks v ! (cs ! i) = Raised (KeyError (ms ! i @ ''_event''))
         \<or> (tasks v ! p = In_asyncio_wait cs False \<and>
             tasks v ! (cs ! i) = Created (Await_message (ms ! i)) \<and>
             (\<exists>pre post. ready v = pre @ Step (cs ! i) # post \<and> (\<forall>c. Done_callback p c \<notin> set pre)))))
     \<or> (\<exists>e. tasks v ! p = Raised e \<and> unknown_topic ms e)"

text \<open>The future of a call of \<^verbatim>\<open>await_message(m)\<close> has been set by a notification of
  \<open>m\<close>: the call is woken, or it has returned.\<close>

definition notified :: "string \<Rightarrow> 'f coro \<Rightarrow> bool" where
  "notified m c \<longleftrightarrow> c = In_wait m True \<or> c = Returned (RStr m)"

text \<open>The names, among \<open>ms\<close>, whose sub-wait among \<open>cs\<close> has been notified.\<close>

definition notified_names :: "nat list \<Rightarrow> string list \<Rightarrow> 'f coro list \<Rightarrow> string list" where
  "notified_names cs ms ts = map snd (filter (\<lambda>(c, m). notified m (ts ! c)) (zip cs ms))"

text \<open>
  While the woken task \<open>p\<close> waits for its step: a sub-wait \<open>c\<close> that was notified when
  \<open>p\<close> was woken has returned or is queued before the step of \<open>p\<close>; one that was not has
  not returned, and if it has been notified since, it is not queued before the step of \<open>p\<close>.
\<close>

definition in_time :: "nat \<Rightarrow> nat \<Rightarrow> string \<Rightarrow> bool \<Rightarrow> 'f world \<Rightarrow> bool" where
  "in_time p c m n v \<longleftrightarrow>
     (\<exists>pre post. ready v = pre @ Step p # post \<and> Step p \<notin> set pre \<and>
        (if n then tasks v ! c = Returned (RStr m) \<or> (tasks v ! c = In_wait m True \<and> Step c \<in> set pre)
         else tasks v ! c = Created (Await_message m) \<or> tasks v ! c = In_wait m False
              \<or> (tasks v ! c = In_wait m True \<and> Step c \<notin> set pre) \<or> is_raised (tasks v ! c)))"

section \<open>The decoder: what a dispatch writes\<close>

lemma state_set_result [simp]: "state (set_result w t) = state w"
  by (simp add: set_result_def split: coro.splits bool.splits)

lemma state_foldl_set_result [simp]: "state (foldl set_result w ts) = state w"
  by (induction ts arbitrary: w) simp_all

lemma state_notify_all [simp]: "state (notify_all c w) = state w"
  by (simp add: notify_all_def)

lemma release_acquire_unlocked: "\<not> locked c \<Longrightarrow> release (acquire c) = c"
  by (simp add: release_def acquire_def)

lemma decoders_eq_Some:
  "decoders T = Some d \<Longrightarrow> T \<in> {''a'', ''b'', ''c''} \<and> d = decode T (T @ ''_event'')"
  by (auto simp: decoders_def decode_a_def decode_b_def decode_c_def split: if_splits)

lemma decode_Return_state:
  assumes "decode T (T @ ''_event'') P w = (w', Return r)"
  shows "state w' = (state w)(T \<mapsto> Val P)"
proof -
  from assms obtain c where c: "state w (T @ ''_event'') = Some (Cond c)" "\<not> locked c"
    and w': "state w' = ((state w)(T \<mapsto> Val P))(T @ ''_event'' \<mapsto> Cond (release (acquire c)))"
    by (auto simp: decode_def Let_def split: option.splits obj.splits if_splits)
  from c w' show ?thesis
    by (auto simp: release_acquire_unlocked fun_eq_iff)
qed

lemmas run_decoder_simps =
  protocol_x_decoder_def getitem_def decoders_get_def decoders_def decode_a_def decode_b_def
  decode_c_def decode_def world0_def create_conditions_def initial_state_def new_condition_def
  notify_all_def acquire_def release_def

text \<open>
  C5.  A message that decodes to a dict with a payload and a string type other than
  \<^verbatim>\<open>'a'\<close>, \<^verbatim>\<open>'b'\<close>, \<^verbatim>\<open>'c'\<close> (the keys of \<^verbatim>\<open>decoders\<close>) makes the decoder raise
  the ValueError for an unknown message type, and the world it leaves is the world it found:
  no payload is written, no future is set, nothing is queued.
\<close>

theorem C5_unknown_type_rejected:
  assumes "map_of kvs ''type'' = Some (JStr T)"
    and "map_of kvs ''payload'' = Some P"
    and "T \<notin> {''a'', ''b'', ''c''}"
  shows "protocol_x_decoder (Inr (JObj kvs)) w =
           (w, Raise (ValueError_unknown_message_type (JStr T)))"
  using assms
  by (simp add: protocol_x_decoder_def getitem_def decoders_get_def decoders_def)

theorem C5_unknown_type_rejected_witness:
  "protocol_x_decoder (Inr (JObj [(''type'', JStr ''x''), (''payload'', JObj [(''1'', JInt 1)])]))
     (world0 :: unit world) = (world0, Raise (ValueError_unknown_message_type (JStr ''x'')))"
  using C5_unknown_type_rejected
    [of "[(''type'', JStr ''x''), (''payload'', JObj [(''1'', JInt 1)])]" "''x''"
        "JObj [(''1'', JInt 1)]" "world0 :: unit world"]
  by simp




text \<open>
  C10.  A dispatch that succeeds on a message of type \<open>T\<close> and payload \<open>P\<close> leaves the
  dict \<^verbatim>\<open>state\<close> equal to the old one with \<open>P\<close> under the key \<open>T\<close>: the entry of \<open>T\<close>
  is \<open>P\<close> itself, whatever it held before, and every other entry is as it was.
\<close>

theorem C10_payload_replaced:
  assumes "map_of kvs ''type'' = Some (JStr T)"
    and "map_of kvs ''payload'' = Some P"
    and "protocol_x_decoder (Inr (JObj kvs)) w = (w', Return r)"
  shows "T \<in> {''a'', ''b'', ''c''} \<and> state w' = (state w)(T \<mapsto> Val P)"
proof -
  from assms obtain d where d: "decoders T = Some d" and run: "d P w = (w', Return r)"
    by (auto simp: protocol_x_decoder_def getitem_def decoders_get_def split: option.splits)
  from decoders_eq_Some [OF d] run decode_Return_state show ?thesis
    by blast
qed

theorem C10_payload_replaced_witness:
  "state (fst (protocol_x_decoder
                 (Inr (JObj [(''type'', JStr ''a''), (''payload'', JObj [(''1'', JInt 1)])]))
                 (world0 :: unit world)))
     = (state world0)(''a'' \<mapsto> Val (JObj [(''1'', JInt 1)]))"
proof -
  let ?kvs = "[(''type'', JStr ''a''), (''payload'', JObj [(''1'', JInt 1)])]
                :: (string \<times> unit json) list"
  have run: "protocol_x_decoder (Inr (JObj ?kvs)) (world0 :: unit world)
               = (fst (protocol_x_decoder (Inr (JObj ?kvs)) world0), Return RNone)"
    by (simp add: run_decoder_simps)
  show ?thesis
    using C10_payload_replaced [of ?kvs "''a''" "JObj [(''1'', JInt 1)]", OF _ _ run] by simp
qed

section \<open>The invariant of the loop\<close>

lemma is_wait_simps [simp]:
  "is_wait (In_wait m f)" "\<not> is_wait (Created c)" "\<not> is_wait (In_gather ms cs n e)"
  "\<not> is_wait (In_asyncio_wait cs b)" "\<not> is_wait Blocked" "\<not> is_wait (Returned r)" "\<not> is_wait (Raised e2)"
  by (simp_all add: is_wait_def)

lemma winv_world0: "winv (create_conditions initial_state) []"
  by (simp add: winv_def create_conditions_def initial_state_def new_condition_def)

lemma winv_update_other:
  assumes "winv st ts" "t < length ts \<longrightarrow> \<not> is_wait (ts ! t)" "\<not> is_wait c"
  shows "winv st (ts[t := c])"
  unfolding winv_def
proof (intro conjI allI impI ballI)
  fix k show "k \<in> {''a_event'', ''b_event'', ''c_event''} \<Longrightarrow> \<exists>c. st k = Some (Cond c) \<and> \<not> locked c"
    using assms(1) unfolding winv_def by blast
next
  fix k show "st k \<noteq> None \<Longrightarrow> k \<in> {''a'', ''b'', ''c'', ''a_event'', ''b_event'', ''c_event''}"
    using assms(1) unfolding winv_def by blast
next
  fix k c' assume "st k = Some (Cond c')"
  then show "k \<in> {''a_event'', ''b_event'', ''c_event''}" "distinct (waiters c')"
    using assms(1) unfolding winv_def by blast+
next
  fix k c' t' assume k: "st k = Some (Cond c')" and t': "t' \<in> set (waiters c')"
  with assms(1) have lt: "t' < length ts" and "\<exists>m f. ts ! t' = In_wait m f \<and> k = m @ ''_event''"
    unfolding winv_def by blast+
  then obtain m f where mf: "ts ! t' = In_wait m f" "k = m @ ''_event''" by blast
  with lt assms(2) have "t' \<noteq> t" by auto
  with lt mf show "t' < length (ts[t := c])" "\<exists>m f. ts[t := c] ! t' = In_wait m f \<and> k = m @ ''_event''"
    by auto
next
  fix t' m f assume lt: "t' < length (ts[t := c])" and w: "ts[t := c] ! t' = In_wait m f"
  with assms(3) have "t' \<noteq> t" by (cases "t' = t") auto
  with lt w assms(1) show "\<exists>c. st (m @ ''_event'') = Some (Cond c) \<and> t' \<in> set (waiters c)"
    unfolding winv_def by auto
qed

lemma event_key_simps [simp]:
  "(m @ ''_event'' = ''a_event'') = (m = ''a'')"
  "(m @ ''_event'' = ''b_event'') = (m = ''b'')"
  "(m @ ''_event'' = ''c_event'') = (m = ''c'')"
  "m @ ''_event'' \<noteq> ''a''" "m @ ''_event'' \<noteq> ''b''" "m @ ''_event'' \<noteq> ''c''"
proof -
  have a: "''a_event'' = ''a'' @ ''_event''" and b: "''b_event'' = ''b'' @ ''_event''"
    and c: "''c_event'' = ''c'' @ ''_event''" by simp_all
  show "(m @ ''_event'' = ''a_event'') = (m = ''a'')" unfolding a by (rule append_same_eq)
  show "(m @ ''_event'' = ''b_event'') = (m = ''b'')" unfolding b by (rule append_same_eq)
  show "(m @ ''_event'' = ''c_event'') = (m = ''c'')" unfolding c by (rule append_same_eq)
  have "length (m @ ''_event'') \<noteq> 1" by simp
  then show "m @ ''_event'' \<noteq> ''a''" "m @ ''_event'' \<noteq> ''b''" "m @ ''_event'' \<noteq> ''c''"
    by (metis length_Cons list.size(3) One_nat_def)+
qed

lemma event_in_iff [simp]:
  "(m @ ''_event'' \<in> {''a_event'', ''b_event'', ''c_event''}) = (m \<in> {''a'', ''b'', ''c''})"
  by simp

lemma event_in_six [simp]:
  "(m @ ''_event'' \<in> {''a'', ''b'', ''c'', ''a_event'', ''b_event'', ''c_event''})
     = (m \<in> {''a'', ''b'', ''c''})"
  by simp

lemma winvD_cond:
  assumes "winv st ts" "m \<in> {''a'', ''b'', ''c''}"
  shows "\<exists>c. st (m @ ''_event'') = Some (Cond c) \<and> \<not> locked c"
proof -
  from assms(2) have "m @ ''_event'' \<in> {''a_event'', ''b_event'', ''c_event''}"
    by (simp only: event_in_iff)
  with assms(1) show ?thesis unfolding winv_def by blast
qed

lemma winvD_dom:
  assumes "winv st ts" "m \<notin> {''a'', ''b'', ''c''}"
  shows "st (m @ ''_event'') = None"
proof (rule ccontr)
  assume "st (m @ ''_event'') \<noteq> None"
  with assms(1) have "m @ ''_event'' \<in> {''a'', ''b'', ''c'', ''a_event'', ''b_event'', ''c_event''}"
    unfolding winv_def by blast
  with assms(2) show False by (simp only: event_in_six)
qed

lemma winvD_key:
  "winv st ts \<Longrightarrow> st k = Some (Cond c) \<Longrightarrow> k \<in> {''a_event'', ''b_event'', ''c_event''}"
  unfolding winv_def by blast

lemma winvD_unlocked:
  assumes "winv st ts" "st k = Some (Cond c)"
  shows "\<not> locked c"
proof -
  from winvD_key [OF assms] assms(1) obtain c' where "st k = Some (Cond c')" "\<not> locked c'"
    unfolding winv_def by blast
  with assms(2) show ?thesis by simp
qed

lemma winvD_waiter:
  "winv st ts \<Longrightarrow> st k = Some (Cond c) \<Longrightarrow> t \<in> set (waiters c) \<Longrightarrow>
     t < length ts \<and> (\<exists>m f. ts ! t = In_wait m f \<and> k = m @ ''_event'')"
  unfolding winv_def by blast

lemma winvD_distinct: "winv st ts \<Longrightarrow> st k = Some (Cond c) \<Longrightarrow> distinct (waiters c)"
  unfolding winv_def by blast

lemma winvD_registered:
  "winv st ts \<Longrightarrow> t < length ts \<Longrightarrow> ts ! t = In_wait m f \<Longrightarrow>
     \<exists>c. st (m @ ''_event'') = Some (Cond c) \<and> t \<in> set (waiters c)"
  unfolding winv_def by blast

lemma winv_append:
  assumes "winv st ts" "\<forall>c \<in> set cs. \<not> is_wait c"
  shows "winv st (ts @ cs)"
proof -
  have nw: "\<And>t m f. t < length (ts @ cs) \<Longrightarrow> (ts @ cs) ! t = In_wait m f \<Longrightarrow> t < length ts"
  proof (rule ccontr)
    fix t m f assume "t < length (ts @ cs)" "(ts @ cs) ! t = In_wait m f" "\<not> t < length ts"
    then have "cs ! (t - length ts) = In_wait m f" "t - length ts < length cs"
      by (auto simp: nth_append)
    with assms(2) show False by (metis is_wait_simps(1) nth_mem)
  qed
  show ?thesis
    unfolding winv_def
  proof (intro conjI allI impI ballI)
    fix k show "k \<in> {''a_event'', ''b_event'', ''c_event''} \<Longrightarrow> \<exists>c. st k = Some (Cond c) \<and> \<not> locked c"
      using assms(1) unfolding winv_def by blast
  next
    fix k show "st k \<noteq> None \<Longrightarrow> k \<in> {''a'', ''b'', ''c'', ''a_event'', ''b_event'', ''c_event''}"
      using assms(1) unfolding winv_def by blast
  next
    fix k c' assume "st k = Some (Cond c')"
    then show "k \<in> {''a_event'', ''b_event'', ''c_event''}" "distinct (waiters c')"
      using assms(1) unfolding winv_def by blast+
  next
    fix k c' t' assume k: "st k = Some (Cond c')" and t': "t' \<in> set (waiters c')"
    from winvD_waiter [OF assms(1) k t']
    show "t' < length (ts @ cs)" "\<exists>m f. (ts @ cs) ! t' = In_wait m f \<and> k = m @ ''_event''"
      by (auto simp: nth_append)
  next
    fix t' m f assume lt: "t' < length (ts @ cs)" and w: "(ts @ cs) ! t' = In_wait m f"
    from nw [OF lt w] have "t' < length ts" .
    with w winvD_registered [OF assms(1), of t' m f]
    show "\<exists>c. st (m @ ''_event'') = Some (Cond c) \<and> t' \<in> set (waiters c)"
      by (simp add: nth_append)
  qed
qed

lemma winv_flag:
  assumes "winv st ts" "t < length ts" "ts ! t = In_wait m f"
  shows "winv st (ts[t := In_wait m f'])"
  unfolding winv_def
proof (intro conjI allI impI ballI)
  fix k show "k \<in> {''a_event'', ''b_event'', ''c_event''} \<Longrightarrow> \<exists>c. st k = Some (Cond c) \<and> \<not> locked c"
    using assms(1) unfolding winv_def by blast
next
  fix k show "st k \<noteq> None \<Longrightarrow> k \<in> {''a'', ''b'', ''c'', ''a_event'', ''b_event'', ''c_event''}"
    using assms(1) unfolding winv_def by blast
next
  fix k c' assume "st k = Some (Cond c')"
  then show "k \<in> {''a_event'', ''b_event'', ''c_event''}" "distinct (waiters c')"
    using assms(1) unfolding winv_def by blast+
next
  fix k c' t' assume k: "st k = Some (Cond c')" and t': "t' \<in> set (waiters c')"
  from winvD_waiter [OF assms(1) k t'] assms(2,3)
  show "t' < length (ts[t := In_wait m f'])"
    "\<exists>m' f''. ts[t := In_wait m f'] ! t' = In_wait m' f'' \<and> k = m' @ ''_event''"
    by (auto simp: nth_list_update)
next
  fix t' m' f'' assume lt: "t' < length (ts[t := In_wait m f'])"
    and w: "ts[t := In_wait m f'] ! t' = In_wait m' f''"
  show "\<exists>c. st (m' @ ''_event'') = Some (Cond c) \<and> t' \<in> set (waiters c)"
  proof (cases "t' = t")
    case True
    with w lt have "m' = m" by simp
    with True winvD_registered [OF assms] show ?thesis by simp
  next
    case False
    with lt w winvD_registered [OF assms(1), of t' m' f''] show ?thesis by simp
  qed
qed

lemma winv_payload:
  assumes "winv st ts" "k \<in> {''a'', ''b'', ''c''}"
  shows "winv (st(k \<mapsto> Val v)) ts"
proof -
  have ne: "\<And>m. m @ ''_event'' \<noteq> k" using assms(2) by auto
  have ne3: "k \<notin> {''a_event'', ''b_event'', ''c_event''}" using assms(2) by auto
  show ?thesis
    unfolding winv_def
  proof (intro conjI allI impI ballI)
    fix k' assume "k' \<in> {''a_event'', ''b_event'', ''c_event''}"
    with assms(1) ne3 show "\<exists>c. (st(k \<mapsto> Val v)) k' = Some (Cond c) \<and> \<not> locked c"
      unfolding winv_def by (auto simp del: insert_iff)
  next
    fix k' assume "(st(k \<mapsto> Val v)) k' \<noteq> None"
    with assms show "k' \<in> {''a'', ''b'', ''c'', ''a_event'', ''b_event'', ''c_event''}"
      unfolding winv_def by (cases "k' = k") auto
  next
    fix k' c' assume h: "(st(k \<mapsto> Val v)) k' = Some (Cond c')"
    then have "st k' = Some (Cond c')" by (cases "k' = k") auto
    then show "k' \<in> {''a_event'', ''b_event'', ''c_event''}" "distinct (waiters c')"
      using assms(1) unfolding winv_def by blast+
  next
    fix k' c' t' assume h: "(st(k \<mapsto> Val v)) k' = Some (Cond c')" and t': "t' \<in> set (waiters c')"
    then have "st k' = Some (Cond c')" by (cases "k' = k") auto
    from winvD_waiter [OF assms(1) this t']
    show "t' < length ts" "\<exists>m f. ts ! t' = In_wait m f \<and> k' = m @ ''_event''" by auto
  next
    fix t' m f assume "t' < length ts" "ts ! t' = In_wait m f"
    from winvD_registered [OF assms(1) this] ne [of m]
    show "\<exists>c. (st(k \<mapsto> Val v)) (m @ ''_event'') = Some (Cond c) \<and> t' \<in> set (waiters c)"
      by auto
  qed
qed

lemma winv_register:
  assumes "winv st ts" "t < length ts" "\<not> is_wait (ts ! t)" "st (m @ ''_event'') = Some (Cond c)"
    and c': "\<not> locked c'" "waiters c' = waiters c @ [t]"
  shows "winv (st(m @ ''_event'' \<mapsto> Cond c')) (ts[t := In_wait m False])"
proof -
  have notin: "t \<notin> set (waiters c)"
    using winvD_waiter [OF assms(1,4), of t] assms(3) by auto
  have key: "m @ ''_event'' \<in> {''a_event'', ''b_event'', ''c_event''}"
    using winvD_key [OF assms(1,4)] .
  show ?thesis
    unfolding winv_def
  proof (intro conjI allI impI ballI)
    fix k assume "k \<in> {''a_event'', ''b_event'', ''c_event''}"
    with assms(1) c' show "\<exists>c. (st(m @ ''_event'' \<mapsto> Cond c')) k = Some (Cond c) \<and> \<not> locked c"
      unfolding winv_def by (cases "k = m @ ''_event''") (simp, simp, blast)
  next
    fix k assume "(st(m @ ''_event'' \<mapsto> Cond c')) k \<noteq> None"
    then have "k = m @ ''_event'' \<or> st k \<noteq> None" by (simp split: if_splits)
    with assms(1) key show "k \<in> {''a'', ''b'', ''c'', ''a_event'', ''b_event'', ''c_event''}"
      unfolding winv_def by blast
  next
    fix k d assume h: "(st(m @ ''_event'' \<mapsto> Cond c')) k = Some (Cond d)"
    show "k \<in> {''a_event'', ''b_event'', ''c_event''}"
      using h key winvD_key [OF assms(1), of k d] by (cases "k = m @ ''_event''") simp_all
    show "distinct (waiters d)"
      using h c' notin winvD_distinct [OF assms(1,4)] winvD_distinct [OF assms(1), of k d]
      by (cases "k = m @ ''_event''") simp_all
  next
    fix k d t' assume h: "(st(m @ ''_event'' \<mapsto> Cond c')) k = Some (Cond d)"
      and t': "t' \<in> set (waiters d)"
    show "t' < length (ts[t := In_wait m False])"
      using h t' c' assms(2) winvD_waiter [OF assms(1,4), of t'] winvD_waiter [OF assms(1), of k d t']
      by (cases "k = m @ ''_event''") auto
    show "\<exists>m' f. ts[t := In_wait m False] ! t' = In_wait m' f \<and> k = m' @ ''_event''"
    proof (cases "t' = t")
      case True
      have "k = m @ ''_event''"
      proof (rule ccontr)
        assume ne: "k \<noteq> m @ ''_event''"
        with h have "st k = Some (Cond d)" by simp
        from winvD_waiter [OF assms(1) this t'] True assms(3) show False by auto
      qed
      with True assms(2) show ?thesis by (intro exI [of _ m] exI [of _ False]) simp
    next
      case False
      have "t' < length ts \<and> (\<exists>m' f. ts ! t' = In_wait m' f \<and> k = m' @ ''_event'')"
        using h t' c' False winvD_waiter [OF assms(1,4), of t'] winvD_waiter [OF assms(1), of k d t']
        by (cases "k = m @ ''_event''") auto
      with False show ?thesis by simp
    qed
  next
    fix t' m' f assume lt: "t' < length (ts[t := In_wait m False])"
      and w: "ts[t := In_wait m False] ! t' = In_wait m' f"
    show "\<exists>c. (st(m @ ''_event'' \<mapsto> Cond c')) (m' @ ''_event'') = Some (Cond c) \<and> t' \<in> set (waiters c)"
    proof (cases "t' = t")
      case True
      with w lt c' show ?thesis by simp
    next
      case False
      with lt w have "t' < length ts" "ts ! t' = In_wait m' f" by simp_all
      from winvD_registered [OF assms(1) this] assms(4) c' show ?thesis
        by (cases "m' = m") auto
    qed
  qed
qed

lemma winv_deregister:
  assumes "winv st ts" "t < length ts" "ts ! t = In_wait m f" "st (m @ ''_event'') = Some (Cond c)"
    and x: "\<not> is_wait x"
    and c': "\<not> locked c'" "waiters c' = remove1 t (waiters c)"
  shows "winv (st(m @ ''_event'' \<mapsto> Cond c')) (ts[t := x])"
proof -
  have dist: "distinct (waiters c)" using winvD_distinct [OF assms(1,4)] .
  have key: "m @ ''_event'' \<in> {''a_event'', ''b_event'', ''c_event''}"
    using winvD_key [OF assms(1,4)] .
  have other: "\<And>k d. k \<noteq> m @ ''_event'' \<Longrightarrow> st k = Some (Cond d) \<Longrightarrow> t \<notin> set (waiters d)"
    using winvD_waiter [OF assms(1)] assms(3) by fastforce
  show ?thesis
    unfolding winv_def
  proof (intro conjI allI impI ballI)
    fix k assume "k \<in> {''a_event'', ''b_event'', ''c_event''}"
    with assms(1) c' show "\<exists>c. (st(m @ ''_event'' \<mapsto> Cond c')) k = Some (Cond c) \<and> \<not> locked c"
      unfolding winv_def by (cases "k = m @ ''_event''") (simp, simp, blast)
  next
    fix k assume "(st(m @ ''_event'' \<mapsto> Cond c')) k \<noteq> None"
    then have "k = m @ ''_event'' \<or> st k \<noteq> None" by (simp split: if_splits)
    with assms(1) key show "k \<in> {''a'', ''b'', ''c'', ''a_event'', ''b_event'', ''c_event''}"
      unfolding winv_def by blast
  next
    fix k d assume h: "(st(m @ ''_event'' \<mapsto> Cond c')) k = Some (Cond d)"
    show "k \<in> {''a_event'', ''b_event'', ''c_event''}"
      using h key winvD_key [OF assms(1), of k d] by (cases "k = m @ ''_event''") simp_all
    show "distinct (waiters d)"
      using h c' dist winvD_distinct [OF assms(1), of k d]
      by (cases "k = m @ ''_event''") simp_all
  next
    fix k d t' assume h: "(st(m @ ''_event'' \<mapsto> Cond c')) k = Some (Cond d)"
      and t': "t' \<in> set (waiters d)"
    have ne: "t' \<noteq> t"
      using h t' c' dist other [of k d] by (cases "k = m @ ''_event''") auto
    have "t' < length ts \<and> (\<exists>m' f. ts ! t' = In_wait m' f \<and> k = m' @ ''_event'')"
      using h t' c' dist winvD_waiter [OF assms(1,4), of t'] winvD_waiter [OF assms(1), of k d t']
      by (cases "k = m @ ''_event''") auto
    with ne show "t' < length (ts[t := x])"
      "\<exists>m' f. ts[t := x] ! t' = In_wait m' f \<and> k = m' @ ''_event''" by simp_all
  next
    fix t' m' f' assume lt: "t' < length (ts[t := x])" and w: "ts[t := x] ! t' = In_wait m' f'"
    with x have ne: "t' \<noteq> t" by (cases "t' = t") auto
    with lt w have "t' < length ts" "ts ! t' = In_wait m' f'" by simp_all
    from winvD_registered [OF assms(1) this] assms(4) c' ne dist
    show "\<exists>c. (st(m @ ''_event'' \<mapsto> Cond c')) (m' @ ''_event'') = Some (Cond c) \<and> t' \<in> set (waiters c)"
      by (cases "m' = m") auto
  qed
qed

lemma wake_simps [simp]:
  "wake (In_wait m f) = In_wait m True" "wake (Created cl) = Created cl"
  "wake (In_gather ms cs n e) = In_gather ms cs n e" "wake (In_asyncio_wait cs b) = In_asyncio_wait cs b"
  "wake Blocked = Blocked" "wake (Returned r) = Returned r" "wake (Raised e2) = Raised e2"
  by (simp_all add: wake_def split: bool.splits)

lemma wake_wake [simp]: "wake (wake c) = wake c"
  by (cases c) simp_all

lemma is_wait_wake [simp]: "is_wait (wake c) = is_wait c"
  by (cases c) simp_all

lemma upd_same: "xs ! t = v \<Longrightarrow> xs[t := v] = xs"
  using list_update_id [of xs t] by simp

lemma upd_beyond: "\<not> t < length xs \<Longrightarrow> xs[t := v] = xs"
  by (simp add: list_update_beyond)

lemma wake_not_pending [simp]: "wake c \<noteq> In_wait m False"
  by (cases c) simp_all

lemma wake_id: "\<not> is_wait c \<Longrightarrow> wake c = c"
  by (cases c) simp_all

lemma tasks_set_result: "tasks (set_result w t) = (tasks w)[t := wake (tasks w ! t)]"
proof (cases "t < length (tasks w) \<and> (\<exists>m. tasks w ! t = In_wait m False)")
  case True
  then show ?thesis by (auto simp: set_result_def)
next
  case False
  then have "set_result w t = w"
    by (auto simp: set_result_def split: coro.splits bool.splits)
  moreover from False have "wake (tasks w ! t) = tasks w ! t \<or> \<not> t < length (tasks w)"
    by (auto simp: wake_def split: coro.splits bool.splits)
  then have "(tasks w)[t := wake (tasks w ! t)] = tasks w"
    by (auto simp: upd_same upd_beyond)
  ultimately show ?thesis by simp
qed

lemma done_callbacks_set_result [simp]: "done_callbacks (set_result w t) = done_callbacks w"
  by (simp add: set_result_def split: coro.splits bool.splits)

lemma length_tasks_set_result [simp]: "length (tasks (set_result w t)) = length (tasks w)"
  by (simp add: tasks_set_result)

lemma ready_set_result:
  "ready (set_result w t) =
     ready w @ (if t < length (tasks w) \<and> (\<exists>m. tasks w ! t = In_wait m False) then [Step t] else [])"
  by (auto simp: set_result_def split: coro.splits bool.splits)

lemma length_tasks_foldl_set_result [simp]:
  "length (tasks (foldl set_result w ts)) = length (tasks w)"
  by (induction ts arbitrary: w) simp_all

lemma done_callbacks_foldl_set_result [simp]:
  "done_callbacks (foldl set_result w ts) = done_callbacks w"
  by (induction ts arbitrary: w) simp_all

lemma tasks_foldl_set_result:
  "x < length (tasks w) \<Longrightarrow>
     tasks (foldl set_result w ts) ! x = (if x \<in> set ts then wake (tasks w ! x) else tasks w ! x)"
proof (induction ts arbitrary: w)
  case Nil
  then show ?case by simp
next
  case (Cons t ts)
  have "tasks (foldl set_result (set_result w t) ts) ! x =
          (if x \<in> set ts then wake (tasks (set_result w t) ! x) else tasks (set_result w t) ! x)"
    using Cons.prems by (intro Cons.IH) simp
  with Cons.prems show ?case
    by (cases "x = t") (auto simp: tasks_set_result)
qed

lemma pending_set_result:
  "x < length (tasks w) \<Longrightarrow>
     (\<exists>m. tasks (set_result w t) ! x = In_wait m False) = (x \<noteq> t \<and> (\<exists>m. tasks w ! x = In_wait m False))"
  by (cases "x = t") (simp_all add: tasks_set_result)

lemma ready_foldl_set_result:
  "\<exists>q. ready (foldl set_result w ts) = ready w @ q \<and>
       set q = Step ` {t \<in> set ts. t < length (tasks w) \<and> (\<exists>m. tasks w ! t = In_wait m False)}"
proof (induction ts arbitrary: w)
  case Nil
  then show ?case by simp
next
  case (Cons t ts)
  let ?w = "set_result w t"
  from Cons.IH [of ?w] obtain q where q: "ready (foldl set_result ?w ts) = ready ?w @ q"
    "set q = Step ` {x \<in> set ts. x < length (tasks ?w) \<and> (\<exists>m. tasks ?w ! x = In_wait m False)}"
    by blast
  let ?q0 = "if t < length (tasks w) \<and> (\<exists>m. tasks w ! t = In_wait m False) then [Step t] else []"
  have r: "ready (foldl set_result w (t # ts)) = ready w @ (?q0 @ q)"
    using q(1) by (simp add: ready_set_result)
  have A: "{x \<in> set ts. x < length (tasks ?w) \<and> (\<exists>m. tasks ?w ! x = In_wait m False)}
      = {x \<in> set ts. x < length (tasks w) \<and> (\<exists>m. tasks w ! x = In_wait m False)} - {t}"
    by (auto simp: pending_set_result cong: conj_cong)
  have "set (?q0 @ q) = Step ` {x \<in> set (t # ts). x < length (tasks w) \<and> (\<exists>m. tasks w ! x = In_wait m False)}"
    unfolding set_append q(2) A by auto
  with r show ?case by blast
qed

lemma winv_wake:
  assumes "winv st ts"
  shows "winv st (ts[t := wake (ts ! t)])"
proof (cases "t < length ts \<and> is_wait (ts ! t)")
  case True
  then obtain m f where "ts ! t = In_wait m f" by (cases "ts ! t") simp_all
  with True winv_flag [OF assms, of t m f True] show ?thesis by simp
next
  case False
  then have "ts[t := wake (ts ! t)] = ts"
    by (auto simp: wake_id upd_same upd_beyond)
  with assms show ?thesis by simp
qed

lemma world_inv_set_result: "world_inv w \<Longrightarrow> world_inv (set_result w t)"
  by (simp add: world_inv_def tasks_set_result winv_wake)

lemma world_inv_foldl_set_result: "world_inv w \<Longrightarrow> world_inv (foldl set_result w ts)"
  by (induction ts arbitrary: w) (simp_all add: world_inv_set_result)

lemma world_inv_ready [simp]: "world_inv (w\<lparr>ready := q\<rparr>) = world_inv w"
  by (simp add: world_inv_def)

lemma world_inv_done_callbacks [simp]: "world_inv (w\<lparr>done_callbacks := q\<rparr>) = world_inv w"
  by (simp add: world_inv_def)

lemma world_inv_finish:
  "world_inv w \<Longrightarrow> t < length (tasks w) \<longrightarrow> \<not> is_wait (tasks w ! t) \<Longrightarrow> \<not> is_wait c \<Longrightarrow> world_inv (finish t c w)"
  by (simp add: world_inv_def finish_def winv_update_other)

lemma finish_simps [simp]:
  "state (finish t c w) = state w"
  "tasks (finish t c w) = (tasks w)[t := c]"
  "done_callbacks (finish t c w) = done_callbacks w"
  "ready (finish t c w) = ready w @ map (\<lambda>p. Done_callback p t) (done_callbacks w t)"
  by (simp_all add: finish_def)

lemma set_result_state_upd: "set_result (w\<lparr>state := s\<rparr>) t = (set_result w t)\<lparr>state := s\<rparr>"
  by (simp add: set_result_def split: coro.splits bool.splits)

lemma foldl_set_result_state_upd:
  "foldl set_result (w\<lparr>state := s\<rparr>) ts = (foldl set_result w ts)\<lparr>state := s\<rparr>"
  by (induction ts arbitrary: w) (simp_all add: set_result_state_upd)

lemma event_neq_self [simp]: "m @ ''_event'' \<noteq> m"
  using arg_cong [of "m @ ''_event''" m length] by auto

lemma waiters_acquire [simp]: "waiters (acquire c) = waiters c"
  by (simp add: acquire_def)

lemma decode_inv:
  assumes "world_inv w" "m \<in> {''a'', ''b'', ''c''}"
  shows "\<exists>c. state w (m @ ''_event'') = Some (Cond c) \<and> \<not> locked c \<and>
             decode m (m @ ''_event'') P w =
               ((foldl set_result w (waiters c))\<lparr>state := (state w)(m \<mapsto> Val P)\<rparr>, Return RNone)"
proof -
  from winvD_cond [OF assms(1) [unfolded world_inv_def] assms(2)]
  obtain c where c: "state w (m @ ''_event'') = Some (Cond c)" "\<not> locked c" by blast
  let ?st1 = "(state w)(m \<mapsto> Val P)"
  have st1: "?st1 (m @ ''_event'') = Some (Cond c)" using c by simp
  have same: "?st1(m @ ''_event'' \<mapsto> Cond c) = ?st1"
    using st1 by (rule map_upd_triv)
  have "decode m (m @ ''_event'') P w =
          ((foldl set_result w (waiters c))\<lparr>state := ?st1(m @ ''_event'' \<mapsto> Cond c)\<rparr>, Return RNone)"
    using c
    by (simp add: decode_def Let_def notify_all_def foldl_set_result_state_upd
        release_acquire_unlocked)
  with same c show ?thesis by simp
qed

lemma protocol_x_decoder_cases:
  "(dispatch_type (Protocol_x_decoder message) = None \<and> (\<exists>e. protocol_x_decoder message w = (w, Raise e)))
   \<or> (\<exists>kvs m P. message = Inr (JObj kvs) \<and> map_of kvs ''type'' = Some (JStr m) \<and>
         map_of kvs ''payload'' = Some P \<and> m \<in> {''a'', ''b'', ''c''} \<and>
         dispatch_type (Protocol_x_decoder message) = Some m \<and>
         protocol_x_decoder message w = decode m (m @ ''_event'') P w)"
proof (cases "\<exists>kvs m P. message = Inr (JObj kvs) \<and> map_of kvs ''type'' = Some (JStr m) \<and>
         map_of kvs ''payload'' = Some P \<and> m \<in> {''a'', ''b'', ''c''}")
  case True
  then obtain kvs m P where h: "message = Inr (JObj kvs)" "map_of kvs ''type'' = Some (JStr m)"
    "map_of kvs ''payload'' = Some P" "m \<in> {''a'', ''b'', ''c''}" by blast
  then have "protocol_x_decoder message w = decode m (m @ ''_event'') P w"
    by (auto simp: protocol_x_decoder_def getitem_def decoders_get_def decoders_def
        decode_a_def decode_b_def decode_c_def)
  with h show ?thesis by auto
next
  case False
  then have "dispatch_type (Protocol_x_decoder message) = None"
    by (cases "Protocol_x_decoder message" rule: dispatch_type.cases)
       (auto split: option.splits json.splits)
  moreover from False have "\<exists>e. protocol_x_decoder message w = (w, Raise e)"
    by (auto simp: protocol_x_decoder_def getitem_def decoders_get_def decoders_def
           split: sum.splits json.splits option.splits)
  ultimately show ?thesis by blast
qed

lemma step_decoder:
  assumes "world_inv w" "t < length (tasks w)" "tasks w ! t = Created (Protocol_x_decoder message)"
  shows "(dispatch_type (Protocol_x_decoder message) = None \<and> (\<exists>e. step t w = finish t (Raised e) w))
       \<or> (\<exists>m c kvs P. dispatch_type (Protocol_x_decoder message) = Some m \<and> m \<in> {''a'', ''b'', ''c''} \<and>
             message = Inr (JObj kvs) \<and> map_of kvs ''type'' = Some (JStr m) \<and>
             map_of kvs ''payload'' = Some P \<and>
             state w (m @ ''_event'') = Some (Cond c) \<and>
             step t w = finish t (Returned RNone)
                          ((foldl set_result w (waiters c))\<lparr>state := (state w)(m \<mapsto> Val P)\<rparr>))"
proof -
  have st: "step t w = settle t (protocol_x_decoder message w)"
    using assms(2,3) by (simp add: step_def)
  from protocol_x_decoder_cases [of message w] show ?thesis
  proof (elim disjE conjE exE)
    fix e assume "dispatch_type (Protocol_x_decoder message) = None"
      "protocol_x_decoder message w = (w, Raise e)"
    with st show ?thesis by (auto simp: settle_def)
  next
    fix kvs m P
    assume h: "message = Inr (JObj kvs)" "map_of kvs ''type'' = Some (JStr m)"
      "map_of kvs ''payload'' = Some P" "m \<in> {''a'', ''b'', ''c''}"
      "dispatch_type (Protocol_x_decoder message) = Some m"
      "protocol_x_decoder message w = decode m (m @ ''_event'') P w"
    from decode_inv [OF assms(1) h(4), of P] obtain c where
      c: "state w (m @ ''_event'') = Some (Cond c)"
      "decode m (m @ ''_event'') P w =
         ((foldl set_result w (waiters c))\<lparr>state := (state w)(m \<mapsto> Val P)\<rparr>, Return RNone)"
      by blast
    from st h(6) c(2) have "step t w = finish t (Returned RNone)
        ((foldl set_result w (waiters c))\<lparr>state := (state w)(m \<mapsto> Val P)\<rparr>)"
      by (simp add: settle_def)
    with h c(1) show ?thesis by blast
  qed
qed

lemma step_await_message:
  assumes "world_inv w" "t < length (tasks w)" "tasks w ! t = Created (Await_message m)"
  shows "(m \<notin> {''a'', ''b'', ''c''} \<and> step t w = finish t (Raised (KeyError (m @ ''_event''))) w)
       \<or> (m \<in> {''a'', ''b'', ''c''} \<and>
           (\<exists>c. state w (m @ ''_event'') = Some (Cond c) \<and>
                step t w = w\<lparr>state := (state w)(m @ ''_event'' \<mapsto> Cond (c\<lparr>waiters := waiters c @ [t]\<rparr>)),
                             tasks := (tasks w)[t := In_wait m False]\<rparr>))"
proof -
  have st: "step t w = await_message t m w"
    using assms(2,3) by (simp add: step_def)
  show ?thesis
  proof (cases "m \<in> {''a'', ''b'', ''c''}")
    case True
    from winvD_cond [OF assms(1) [unfolded world_inv_def] True]
    obtain c where c: "state w (m @ ''_event'') = Some (Cond c)" "\<not> locked c" by blast
    then have "await_message t m w =
        w\<lparr>state := (state w)(m @ ''_event'' \<mapsto> Cond (c\<lparr>waiters := waiters c @ [t]\<rparr>)),
          tasks := (tasks w)[t := In_wait m False]\<rparr>"
      by (simp add: await_message_def Let_def release_acquire_unlocked)
    with st c True show ?thesis by auto
  next
    case False
    from winvD_dom [OF assms(1) [unfolded world_inv_def] False]
    have "await_message t m w = finish t (Raised (KeyError (m @ ''_event''))) w"
      by (simp add: await_message_def Let_def)
    with st False show ?thesis by auto
  qed
qed

lemma step_wakeup:
  assumes "world_inv w" "t < length (tasks w)" "tasks w ! t = In_wait m True"
  shows "\<exists>c. state w (m @ ''_event'') = Some (Cond c) \<and> t \<in> set (waiters c) \<and>
            step t w = finish t (Returned (RStr m))
               (w\<lparr>state := (state w)(m @ ''_event'' \<mapsto> Cond (c\<lparr>waiters := remove1 t (waiters c)\<rparr>))\<rparr>)"
proof -
  have st: "step t w = await_message_wakeup t m w"
    using assms(2,3) by (simp add: step_def)
  from winvD_registered [OF assms(1) [unfolded world_inv_def] assms(2,3)]
  obtain c where c: "state w (m @ ''_event'') = Some (Cond c)" "t \<in> set (waiters c)" by blast
  from winvD_unlocked [OF assms(1) [unfolded world_inv_def] c(1)] have u: "\<not> locked c" .
  then have u': "\<not> locked (c\<lparr>waiters := remove1 t (waiters c)\<rparr>)" by simp
  have "await_message_wakeup t m w = finish t (Returned (RStr m))
               (w\<lparr>state := (state w)(m @ ''_event'' \<mapsto> Cond (c\<lparr>waiters := remove1 t (waiters c)\<rparr>))\<rparr>)"
    using c(1) u' by (simp add: await_message_wakeup_def Let_def release_acquire_unlocked)
  with st c show ?thesis by auto
qed

lemma step_idle:
  "\<not> t < length (tasks w) \<Longrightarrow> step t w = w"
  "tasks w ! t = In_wait m False \<Longrightarrow> step t w = w"
  "tasks w ! t = Blocked \<Longrightarrow> step t w = w"
  "tasks w ! t = Returned r \<Longrightarrow> step t w = w"
  "tasks w ! t = Raised e \<Longrightarrow> step t w = w"
  "tasks w ! t = In_asyncio_wait cs False \<Longrightarrow> step t w = w"
  by (auto simp: step_def)

lemma world_inv_state_tasks: "world_inv (w\<lparr>state := s, tasks := ts\<rparr>) = winv s ts"
  by (simp add: world_inv_def)

lemma world_inv_state: "world_inv (w\<lparr>state := s\<rparr>) = winv s (tasks w)"
  by (simp add: world_inv_def)

lemma world_inv_spawn_children:
  assumes "world_inv w" "t < length (tasks w) \<longrightarrow> \<not> is_wait (tasks w ! t)" "\<not> is_wait c"
  shows "world_inv (spawn_children t ms c w)"
proof -
  have "winv (state w) ((tasks w)[t := c])"
    using assms by (simp add: world_inv_def winv_update_other)
  then have "winv (state w) ((tasks w)[t := c] @ map (\<lambda>m. Created (Await_message m)) ms)"
    by (rule winv_append) auto
  then show ?thesis by (simp add: spawn_children_def world_inv_def Let_def)
qed

lemma world_inv_step:
  assumes "world_inv w"
  shows "world_inv (step t w)"
proof (cases "t < length (tasks w)")
  case False
  then show ?thesis using assms by (simp add: step_idle)
next
  case lt: True
  show ?thesis
  proof (cases "tasks w ! t")
    case (Created cl)
    show ?thesis
    proof (cases cl)
      case (Protocol_x_decoder message)
      from step_decoder [OF assms lt Created [unfolded Protocol_x_decoder]]
      show ?thesis
      proof (elim disjE conjE exE)
        fix e assume "step t w = finish t (Raised e) w"
        with assms Created show ?thesis by (simp add: world_inv_finish)
      next
        fix m c kvs P
        assume h: "m \<in> {''a'', ''b'', ''c''}"
          "step t w = finish t (Returned RNone)
                          ((foldl set_result w (waiters c))\<lparr>state := (state w)(m \<mapsto> Val P)\<rparr>)"
        let ?w1 = "foldl set_result w (waiters c)"
        have "world_inv ?w1" using assms by (rule world_inv_foldl_set_result)
        then have "world_inv (?w1\<lparr>state := (state w)(m \<mapsto> Val P)\<rparr>)"
          using winv_payload [of "state ?w1" "tasks ?w1" m P] h(1) by (simp add: world_inv_def)
        moreover have "\<not> is_wait (tasks (?w1\<lparr>state := (state w)(m \<mapsto> Val P)\<rparr>) ! t)"
          using lt Created by (simp add: tasks_foldl_set_result)
        ultimately show ?thesis unfolding h(2) by (intro world_inv_finish) simp_all
      qed
    next
      case (Await_message m)
      from step_await_message [OF assms lt Created [unfolded Await_message]]
      show ?thesis
      proof (elim disjE conjE exE)
        assume "step t w = finish t (Raised (KeyError (m @ ''_event''))) w"
        with assms Created show ?thesis by (simp add: world_inv_finish)
      next
        fix c assume c: "state w (m @ ''_event'') = Some (Cond c)"
          and st: "step t w = w\<lparr>state := (state w)(m @ ''_event'' \<mapsto> Cond (c\<lparr>waiters := waiters c @ [t]\<rparr>)),
                             tasks := (tasks w)[t := In_wait m False]\<rparr>"
        have u: "\<not> locked c" using winvD_unlocked [OF assms [unfolded world_inv_def] c] .
        have "winv ((state w)(m @ ''_event'' \<mapsto> Cond (c\<lparr>waiters := waiters c @ [t]\<rparr>)))
                ((tasks w)[t := In_wait m False])"
          using assms [unfolded world_inv_def] lt _ c
          by (rule winv_register) (use Created u in simp_all)
        then show ?thesis unfolding st by (simp add: world_inv_def)
      qed
    next
      case (Await_all_messages ms)
      then have "step t w = await_all_messages t ms w"
        using lt Created by (simp add: step_def)
      then show ?thesis using assms Created
        by (simp add: await_all_messages_def world_inv_finish world_inv_spawn_children)
    next
      case (Await_any_messages ms)
      then have "step t w = await_any_messages t ms w"
        using lt Created by (simp add: step_def)
      then show ?thesis using assms Created
        by (simp add: await_any_messages_def world_inv_finish world_inv_spawn_children)
    qed
  next
    case (In_wait m f)
    show ?thesis
    proof (cases f)
      case True
      from In_wait True have "tasks w ! t = In_wait m True" by simp
      from step_wakeup [OF assms lt this]
      obtain c where c: "state w (m @ ''_event'') = Some (Cond c)"
        and st: "step t w = finish t (Returned (RStr m))
               (w\<lparr>state := (state w)(m @ ''_event'' \<mapsto> Cond (c\<lparr>waiters := remove1 t (waiters c)\<rparr>))\<rparr>)"
        by blast
      have u: "\<not> locked c" using winvD_unlocked [OF assms [unfolded world_inv_def] c] .
      have "winv ((state w)(m @ ''_event'' \<mapsto> Cond (c\<lparr>waiters := remove1 t (waiters c)\<rparr>)))
                ((tasks w)[t := Returned (RStr m)])"
        using assms [unfolded world_inv_def] lt In_wait c
        by (rule winv_deregister) (use u in simp_all)
      then show ?thesis unfolding st by (simp add: world_inv_def finish_def)
    next
      case False
      with In_wait assms show ?thesis by (simp add: step_idle)
    qed
  next
    case (In_gather ms cs n exc)
    then have "step t w = await_all_messages_wakeup t ms cs n exc w"
      using lt by (simp add: step_def)
    then show ?thesis using assms In_gather
      by (auto simp: await_all_messages_wakeup_def world_inv_finish split: option.splits)
  next
    case (In_asyncio_wait cs woken)
    show ?thesis
    proof (cases woken)
      case True
      then have "step t w = await_any_messages_wakeup t cs w"
        using lt In_asyncio_wait by (simp add: step_def)
      then show ?thesis using assms In_asyncio_wait
        by (auto simp: await_any_messages_wakeup_def Let_def world_inv_finish split: sum.splits)
    next
      case False
      with In_asyncio_wait assms show ?thesis by (simp add: step_idle)
    qed
  next
    case Blocked
    with assms show ?thesis by (simp add: step_idle)
  next
    case (Returned r)
    with assms show ?thesis by (simp add: step_idle)
  next
    case (Raised e)
    with assms show ?thesis by (simp add: step_idle)
  qed
qed

lemma world_inv_done_callback:
  assumes "world_inv w"
  shows "world_inv (done_callback p c w)"
proof (cases "p < length (tasks w) \<and> c < length (tasks w)")
  case False
  then show ?thesis using assms by (auto simp: done_callback_def)
next
  case True
  show ?thesis
  proof (cases "tasks w ! p")
    case (In_gather ms cs n exc)
    have "\<And>x. \<not> is_wait x \<Longrightarrow> world_inv (w\<lparr>tasks := (tasks w)[p := x]\<rparr>)"
      using assms In_gather by (simp add: world_inv_def winv_update_other)
    then show ?thesis using True In_gather
      by (auto simp: done_callback_def gather_done_callback_def split: coro.splits)
  next
    case (In_asyncio_wait cs woken)
    have "\<And>x. \<not> is_wait x \<Longrightarrow> world_inv (w\<lparr>tasks := (tasks w)[p := x]\<rparr>)"
      using assms In_asyncio_wait by (simp add: world_inv_def winv_update_other)
    then show ?thesis using True In_asyncio_wait assms
      by (auto simp: done_callback_def wait_done_callback_def)
  qed (use assms True in \<open>simp_all add: done_callback_def\<close>)
qed

lemma world_inv_act: "world_inv w \<Longrightarrow> world_inv (act w a)"
proof (cases a)
  case (Create_task cl)
  assume "world_inv w"
  then have "winv (state w) (tasks w @ [Created cl])"
    unfolding world_inv_def by (rule winv_append) simp
  with Create_task show ?thesis by (simp add: world_inv_def)
next
  case Loop
  assume i: "world_inv w"
  show ?thesis
  proof (cases "ready w")
    case Nil
    with Loop i show ?thesis by simp
  next
    case (Cons h hs)
    have "world_inv (w\<lparr>ready := hs\<rparr>)" using i by simp
    then have "world_inv (run_handle h (w\<lparr>ready := hs\<rparr>))"
      by (cases h) (simp_all add: world_inv_step world_inv_done_callback)
    with Loop Cons show ?thesis by simp
  qed
qed

lemma world_inv_exec: "world_inv w \<Longrightarrow> world_inv (exec acts w)"
  unfolding exec_def by (induction acts arbitrary: w) (simp_all add: world_inv_act)

lemma world_inv_world0: "world_inv world0"
  by (simp add: world_inv_def world0_def winv_world0)

lemma spawn_children_simps [simp]:
  "state (spawn_children t ms c w) = state w"
  "tasks (spawn_children t ms c w) = (tasks w)[t := c] @ map (\<lambda>m. Created (Await_message m)) ms"
  "ready (spawn_children t ms c w) = ready w @ map Step (children_of w ms)"
  "done_callbacks (spawn_children t ms c w) =
     (\<lambda>x. if x \<in> set (children_of w ms) then [t] else done_callbacks w x)"
  by (simp_all add: spawn_children_def children_of_def Let_def)

lemma tasks_await_message:
  "\<exists>X. tasks (await_message t m w) = (tasks w)[t := X]"
  by (auto simp: await_message_def Let_def split: option.splits obj.splits)

lemma tasks_await_message_wakeup:
  "\<exists>X. tasks (await_message_wakeup t m w) = (tasks w)[t := X]"
  by (auto simp: await_message_wakeup_def Let_def upd_same split: option.splits obj.splits
      intro: exI [of _ "tasks w ! t"])

lemma tasks_await_all_messages:
  "\<exists>X new. tasks (await_all_messages t ms w) = (tasks w)[t := X] @ new"
  by (auto simp: await_all_messages_def intro: exI [of _ "[]"])

lemma tasks_await_any_messages:
  "\<exists>X new. tasks (await_any_messages t ms w) = (tasks w)[t := X] @ new"
  by (auto simp: await_any_messages_def intro: exI [of _ "[]"])

lemma tasks_await_all_messages_wakeup:
  "\<exists>X. tasks (await_all_messages_wakeup t ms cs n exc w) = (tasks w)[t := X]"
  by (auto simp: await_all_messages_wakeup_def upd_same split: option.splits
      intro: exI [of _ "tasks w ! t"])

lemma tasks_await_any_messages_wakeup:
  "\<exists>X. tasks (await_any_messages_wakeup t cs w) = (tasks w)[t := X]"
  by (auto simp: await_any_messages_wakeup_def Let_def split: sum.splits)

lemma tasks_step_shape:
  assumes "world_inv w"
  shows "\<exists>X new. tasks (step t w) = (tasks w)[t := X] @ new
       \<or> (\<exists>m cl c. t < length (tasks w) \<and> tasks w ! t = Created cl \<and> dispatch_type cl = Some m \<and>
             state w (m @ ''_event'') = Some (Cond c) \<and>
             tasks (step t w) = (tasks (foldl set_result w (waiters c)))[t := Returned RNone])"
proof -
  have triv: "\<And>w'. tasks w' = tasks w \<Longrightarrow> \<exists>X new. tasks w' = (tasks w)[t := X] @ new"
    by (metis append_Nil2 list_update_id)
  have one: "\<And>w'. \<exists>X. tasks w' = (tasks w)[t := X] \<Longrightarrow> \<exists>X new. tasks w' = (tasks w)[t := X] @ new"
    by (metis append_Nil2)
  show ?thesis
  proof (cases "t < length (tasks w)")
    case False
    then show ?thesis using triv [of "step t w"] by (simp add: step_idle)
  next
    case lt: True
    show ?thesis
    proof (cases "tasks w ! t")
      case (Created cl)
      show ?thesis
      proof (cases cl)
        case (Protocol_x_decoder message)
        from step_decoder [OF assms lt Created [unfolded Protocol_x_decoder]]
        show ?thesis
        proof (elim disjE conjE exE)
          fix e assume "step t w = finish t (Raised e) w"
          then show ?thesis using one [of "step t w"] by auto
        next
          fix m c kvs P
          assume "dispatch_type (Protocol_x_decoder message) = Some m"
            "state w (m @ ''_event'') = Some (Cond c)"
            "step t w = finish t (Returned RNone)
                          ((foldl set_result w (waiters c))\<lparr>state := (state w)(m \<mapsto> Val P)\<rparr>)"
          with lt Created Protocol_x_decoder show ?thesis by auto
        qed
      next
        case (Await_message m)
        then have "step t w = await_message t m w" using lt Created by (simp add: step_def)
        with tasks_await_message [of t m w] one [of "step t w"] show ?thesis by auto
      next
        case (Await_all_messages ms)
        then have "step t w = await_all_messages t ms w" using lt Created by (simp add: step_def)
        with tasks_await_all_messages [of t ms w] show ?thesis by auto
      next
        case (Await_any_messages ms)
        then have "step t w = await_any_messages t ms w" using lt Created by (simp add: step_def)
        with tasks_await_any_messages [of t ms w] show ?thesis by auto
      qed
    next
      case (In_wait m f)
      show ?thesis
      proof (cases f)
        case True
        with In_wait lt have "step t w = await_message_wakeup t m w" by (simp add: step_def)
        with tasks_await_message_wakeup [of t m w] one [of "step t w"] show ?thesis by auto
      next
        case False
        with In_wait show ?thesis using triv [of "step t w"] by (simp add: step_idle)
      qed
    next
      case (In_gather ms cs n exc)
      then have "step t w = await_all_messages_wakeup t ms cs n exc w" using lt by (simp add: step_def)
      with tasks_await_all_messages_wakeup [of t ms cs n exc w] one [of "step t w"]
      show ?thesis by auto
    next
      case (In_asyncio_wait cs woken)
      show ?thesis
      proof (cases woken)
        case True
        with In_asyncio_wait lt have "step t w = await_any_messages_wakeup t cs w"
          by (simp add: step_def)
        with tasks_await_any_messages_wakeup [of t cs w] one [of "step t w"] show ?thesis by auto
      next
        case False
        with In_asyncio_wait show ?thesis using triv [of "step t w"] by (simp add: step_idle)
      qed
    next
      case Blocked
      then show ?thesis using triv [of "step t w"] by (simp add: step_idle)
    next
      case (Returned r)
      then show ?thesis using triv [of "step t w"] by (simp add: step_idle)
    next
      case (Raised e)
      then show ?thesis using triv [of "step t w"] by (simp add: step_idle)
    qed
  qed
qed

lemma step_other:
  assumes "world_inv w" "x < length (tasks w)" "x \<noteq> t"
  shows "tasks (step t w) ! x = tasks w ! x
       \<or> (\<exists>m cl. tasks w ! x = In_wait m False \<and> tasks (step t w) ! x = In_wait m True \<and>
             t < length (tasks w) \<and> tasks w ! t = Created cl \<and> dispatch_type cl = Some m)"
proof -
  from tasks_step_shape [OF assms(1), of t] show ?thesis
  proof (elim exE disjE conjE)
    fix X new assume "tasks (step t w) = (tasks w)[t := X] @ new"
    with assms(2,3) show ?thesis by (simp add: nth_append)
  next
    fix X new m cl c
    assume h: "t < length (tasks w)" "tasks w ! t = Created cl" "dispatch_type cl = Some m"
      "state w (m @ ''_event'') = Some (Cond c)"
      "tasks (step t w) = (tasks (foldl set_result w (waiters c)))[t := Returned RNone]"
    have eq: "tasks (step t w) ! x = (if x \<in> set (waiters c) then wake (tasks w ! x) else tasks w ! x)"
      using h(5) assms(2,3) by (simp add: tasks_foldl_set_result)
    show ?thesis
    proof (cases "x \<in> set (waiters c)")
      case False
      with eq show ?thesis by simp
    next
      case True
      from winvD_waiter [OF assms(1) [unfolded world_inv_def] h(4) True]
      obtain f where f: "tasks w ! x = In_wait m f" by auto
      with eq True h show ?thesis by (cases f) auto
    qed
  qed
qed

lemma length_tasks_step: "world_inv w \<Longrightarrow> length (tasks w) \<le> length (tasks (step t w))"
  using tasks_step_shape [of w t] by auto

lemma tasks_done_callback:
  "tasks (done_callback p c w) = tasks w
   \<or> (\<exists>ms cs n exc n' exc'. tasks w ! p = In_gather ms cs n exc \<and>
         tasks (done_callback p c w) = (tasks w)[p := In_gather ms cs n' exc'])
   \<or> (\<exists>cs. tasks w ! p = In_asyncio_wait cs False \<and>
         tasks (done_callback p c w) = (tasks w)[p := In_asyncio_wait cs True])"
  by (auto simp: done_callback_def gather_done_callback_def wait_done_callback_def
           split: coro.splits)

lemma done_callback_other:
  "x \<noteq> p \<Longrightarrow> tasks (done_callback p c w) ! x = tasks w ! x"
  using tasks_done_callback [of p c w] by auto

lemma length_tasks_done_callback [simp]: "length (tasks (done_callback p c w)) = length (tasks w)"
  using tasks_done_callback [of p c w] by auto

lemma length_tasks_act:
  assumes "world_inv w"
  shows "length (tasks w) \<le> length (tasks (act w a))"
proof (cases a)
  case (Create_task cl)
  then show ?thesis by simp
next
  case Loop
  show ?thesis
  proof (cases "ready w")
    case Nil
    with Loop show ?thesis by simp
  next
    case (Cons h hs)
    have "world_inv (w\<lparr>ready := hs\<rparr>)" using assms by simp
    from length_tasks_step [OF this] Loop Cons show ?thesis
      by (cases h) simp_all
  qed
qed

lemma act_pending:
  assumes "world_inv w" "x < length (tasks w)" "tasks w ! x = In_wait m False"
  shows "tasks (act w a) ! x = In_wait m False
       \<or> (tasks (act w a) ! x = In_wait m True \<and> a = Loop \<and> dispatches m w)"
proof (cases a)
  case (Create_task cl)
  with assms show ?thesis by (simp add: nth_append)
next
  case Loop
  show ?thesis
  proof (cases "ready w")
    case Nil
    with Loop assms show ?thesis by simp
  next
    case (Cons h hs)
    let ?w = "w\<lparr>ready := hs\<rparr>"
    have i: "world_inv ?w" using assms by simp
    show ?thesis
    proof (cases h)
      case (Step t)
      show ?thesis
      proof (cases "t = x")
        case True
        with Loop Cons Step assms show ?thesis by (simp add: step_idle)
      next
        case False
        then have "x \<noteq> t" by simp
        from step_other [OF i _ this] assms(2,3) Loop Cons Step show ?thesis
          by (auto simp: dispatches_def)
      qed
    next
      case (Done_callback p c)
      show ?thesis
      proof (cases "p = x")
        case True
        with Loop Cons Done_callback assms show ?thesis by (simp add: done_callback_def)
      next
        case False
        with Loop Cons Done_callback assms show ?thesis by (simp add: done_callback_other)
      qed
    qed
  qed
qed

lemma act_woken:
  assumes "world_inv w" "x < length (tasks w)" "tasks w ! x = In_wait m True"
  shows "tasks (act w a) ! x = In_wait m True
       \<or> (tasks (act w a) ! x = Returned (RStr m) \<and> a = Loop \<and> (\<exists>hs. ready w = Step x # hs))"
proof (cases a)
  case (Create_task cl)
  with assms show ?thesis by (simp add: nth_append)
next
  case Loop
  show ?thesis
  proof (cases "ready w")
    case Nil
    with Loop assms show ?thesis by simp
  next
    case (Cons h hs)
    let ?w = "w\<lparr>ready := hs\<rparr>"
    have i: "world_inv ?w" using assms by simp
    show ?thesis
    proof (cases h)
      case (Step t)
      show ?thesis
      proof (cases "t = x")
        case True
        from step_wakeup [OF i, of x m] assms(2,3)
        have "tasks (step x ?w) ! x = Returned (RStr m)" by auto
        with True Loop Cons Step show ?thesis by simp
      next
        case False
        then have "x \<noteq> t" by simp
        from step_other [OF i _ this] assms(2,3) Loop Cons Step show ?thesis by auto
      qed
    next
      case (Done_callback p c)
      show ?thesis
      proof (cases "p = x")
        case True
        with Loop Cons Done_callback assms show ?thesis by (simp add: done_callback_def)
      next
        case False
        with Loop Cons Done_callback assms show ?thesis by (simp add: done_callback_other)
      qed
    qed
  qed
qed

lemma act_final:
  assumes "world_inv w" "x < length (tasks w)" "is_final (tasks w ! x)"
  shows "tasks (act w a) ! x = tasks w ! x"
proof (cases a)
  case (Create_task cl)
  with assms show ?thesis by (simp add: nth_append)
next
  case Loop
  show ?thesis
  proof (cases "ready w")
    case Nil
    with Loop assms show ?thesis by simp
  next
    case (Cons h hs)
    let ?w = "w\<lparr>ready := hs\<rparr>"
    have i: "world_inv ?w" using assms by simp
    show ?thesis
    proof (cases h)
      case (Step t)
      show ?thesis
      proof (cases "t = x")
        case True
        with assms(3) have "step t ?w = ?w"
          by (cases "tasks w ! x") (simp_all add: is_final_def step_idle)
        with Loop Cons Step show ?thesis by simp
      next
        case False
        then have "x \<noteq> t" by simp
        from step_other [OF i _ this] assms(2,3) Loop Cons Step show ?thesis
          by (auto simp: is_final_def)
      qed
    next
      case (Done_callback p c)
      show ?thesis
      proof (cases "p = x")
        case True
        with Loop Cons Done_callback assms show ?thesis
          by (cases "tasks w ! x") (simp_all add: done_callback_def is_final_def)
      next
        case False
        with Loop Cons Done_callback assms show ?thesis by (simp add: done_callback_other)
      qed
    qed
  qed
qed

lemma act_created_await_message:
  assumes "world_inv w" "x < length (tasks w)" "tasks w ! x = Created (Await_message m)"
  shows "tasks (act w a) ! x = Created (Await_message m) \<or> tasks (act w a) ! x = In_wait m False
       \<or> (m \<notin> {''a'', ''b'', ''c''} \<and> tasks (act w a) ! x = Raised (KeyError (m @ ''_event'')))"
proof (cases a)
  case (Create_task cl)
  with assms show ?thesis by (simp add: nth_append)
next
  case Loop
  show ?thesis
  proof (cases "ready w")
    case Nil
    with Loop assms show ?thesis by simp
  next
    case (Cons h hs)
    let ?w = "w\<lparr>ready := hs\<rparr>"
    have i: "world_inv ?w" using assms by simp
    show ?thesis
    proof (cases h)
      case (Step t)
      show ?thesis
      proof (cases "t = x")
        case True
        from step_await_message [OF i, of x m] assms(2,3)
        have "tasks (step x ?w) ! x = In_wait m False
            \<or> (m \<notin> {''a'', ''b'', ''c''} \<and> tasks (step x ?w) ! x = Raised (KeyError (m @ ''_event'')))"
          by auto
        with True Loop Cons Step show ?thesis by auto
      next
        case False
        then have "x \<noteq> t" by simp
        from step_other [OF i _ this] assms(2,3) Loop Cons Step show ?thesis by auto
      qed
    next
      case (Done_callback p c)
      show ?thesis
      proof (cases "p = x")
        case True
        with Loop Cons Done_callback assms show ?thesis by (simp add: done_callback_def)
      next
        case False
        with Loop Cons Done_callback assms show ?thesis by (simp add: done_callback_other)
      qed
    qed
  qed
qed

lemma exec_Nil [simp]: "exec [] w = w"
  by (simp add: exec_def)

lemma exec_Cons [simp]: "exec (a # acts) w = exec acts (act w a)"
  by (simp add: exec_def)

lemma exec_append: "exec (xs @ ys) w = exec ys (exec xs w)"
  by (simp add: exec_def)

lemma lt_tasks_act: "world_inv w \<Longrightarrow> x < length (tasks w) \<Longrightarrow> x < length (tasks (act w a))"
  using length_tasks_act [of w a] by simp

lemma final_exec:
  "world_inv w \<Longrightarrow> x < length (tasks w) \<Longrightarrow> is_final (tasks w ! x) \<Longrightarrow>
     tasks (exec acts w) ! x = tasks w ! x"
proof (induction acts arbitrary: w)
  case Nil
  then show ?case by simp
next
  case (Cons a acts)
  from Cons.prems have eq: "tasks (act w a) ! x = tasks w ! x" by (intro act_final)
  with Cons.prems have "tasks (exec acts (act w a)) ! x = tasks (act w a) ! x"
    by (intro Cons.IH world_inv_act lt_tasks_act) simp_all
  with eq show ?case by simp
qed

lemma woken_returns:
  "world_inv w \<Longrightarrow> x < length (tasks w) \<Longrightarrow> tasks w ! x = In_wait m True \<Longrightarrow>
     tasks (exec acts w) ! x = Returned r \<Longrightarrow> r = RStr m"
proof (induction acts arbitrary: w)
  case Nil
  then show ?case by simp
next
  case (Cons a acts)
  let ?w = "act w a"
  have i: "world_inv ?w" and lt: "x < length (tasks ?w)"
    using Cons.prems by (simp_all add: world_inv_act lt_tasks_act)
  from act_woken [OF Cons.prems(1-3), of a] show ?case
  proof (elim disjE conjE)
    assume "tasks ?w ! x = In_wait m True"
    with Cons.IH [OF i lt] Cons.prems(4) show ?thesis by simp
  next
    assume r: "tasks ?w ! x = Returned (RStr m)"
    then have "is_final (tasks ?w ! x)" by (simp add: is_final_def)
    from final_exec [OF i lt this, of acts] r Cons.prems(4) show ?thesis by simp
  qed
qed

lemma pending_returns:
  "world_inv w \<Longrightarrow> x < length (tasks w) \<Longrightarrow> tasks w ! x = In_wait m False \<Longrightarrow>
     tasks (exec acts w) ! x = Returned r \<Longrightarrow>
     r = RStr m \<and> (\<exists>pre post. acts = pre @ Loop # post \<and>
        tasks (exec pre w) ! x = In_wait m False \<and> dispatches m (exec pre w))"
proof (induction acts arbitrary: w)
  case Nil
  then show ?case by simp
next
  case (Cons a acts)
  let ?w = "act w a"
  have i: "world_inv ?w" and lt: "x < length (tasks ?w)"
    using Cons.prems by (simp_all add: world_inv_act lt_tasks_act)
  from act_pending [OF Cons.prems(1-3), of a] show ?case
  proof (elim disjE conjE)
    assume "tasks ?w ! x = In_wait m False"
    from Cons.IH [OF i lt this] Cons.prems(4)
    obtain pre post where r: "r = RStr m" and h: "acts = pre @ Loop # post"
      "tasks (exec pre ?w) ! x = In_wait m False" "dispatches m (exec pre ?w)"
      by auto
    from h have "a # acts = (a # pre) @ Loop # post"
      "tasks (exec (a # pre) w) ! x = In_wait m False" "dispatches m (exec (a # pre) w)"
      by simp_all
    with r show ?thesis by blast
  next
    assume h: "tasks ?w ! x = In_wait m True" "a = Loop" "dispatches m w"
    from woken_returns [OF i lt h(1), of acts r] Cons.prems(4) have "r = RStr m" by simp
    moreover from h Cons.prems(3) have "a # acts = [] @ Loop # acts"
      "tasks (exec [] w) ! x = In_wait m False" "dispatches m (exec [] w)"
      by simp_all
    ultimately show ?thesis by blast
  qed
qed

lemma created_returns:
  "world_inv w \<Longrightarrow> x < length (tasks w) \<Longrightarrow> tasks w ! x = Created (Await_message m) \<Longrightarrow>
     tasks (exec acts w) ! x = Returned r \<Longrightarrow>
     r = RStr m \<and> (\<exists>pre post. acts = pre @ Loop # post \<and>
        tasks (exec pre w) ! x = In_wait m False \<and> dispatches m (exec pre w))"
proof (induction acts arbitrary: w)
  case Nil
  then show ?case by simp
next
  case (Cons a acts)
  let ?w = "act w a"
  have i: "world_inv ?w" and lt: "x < length (tasks ?w)"
    using Cons.prems by (simp_all add: world_inv_act lt_tasks_act)
  have lift: "\<And>pre post. acts = pre @ Loop # post \<Longrightarrow>
        tasks (exec pre ?w) ! x = In_wait m False \<Longrightarrow> dispatches m (exec pre ?w) \<Longrightarrow>
        \<exists>pre post. a # acts = pre @ Loop # post \<and>
        tasks (exec pre w) ! x = In_wait m False \<and> dispatches m (exec pre w)"
  proof -
    fix pre post assume "acts = pre @ Loop # post"
        "tasks (exec pre ?w) ! x = In_wait m False" "dispatches m (exec pre ?w)"
    then have "a # acts = (a # pre) @ Loop # post"
      "tasks (exec (a # pre) w) ! x = In_wait m False" "dispatches m (exec (a # pre) w)"
      by simp_all
    then show "\<exists>pre post. a # acts = pre @ Loop # post \<and>
        tasks (exec pre w) ! x = In_wait m False \<and> dispatches m (exec pre w)" by blast
  qed
  from act_created_await_message [OF Cons.prems(1-3), of a] show ?case
  proof (elim disjE conjE)
    assume "tasks ?w ! x = Created (Await_message m)"
    from Cons.IH [OF i lt this] Cons.prems(4) lift show ?thesis by auto
  next
    assume "tasks ?w ! x = In_wait m False"
    from pending_returns [OF i lt this, of acts r] Cons.prems(4) lift show ?thesis by auto
  next
    assume r: "tasks ?w ! x = Raised (KeyError (m @ ''_event''))"
    then have "is_final (tasks ?w ! x)" by (simp add: is_final_def)
    from final_exec [OF i lt this, of acts] r Cons.prems(4) show ?thesis by simp
  qed
qed

section \<open>Waiting for one message\<close>

text \<open>
  C9.  Take any run of the loop from the initial world, a task that is about to start
  \<^verbatim>\<open>await_message(m)\<close>, and any continuation after which the task has returned.
  Then it returned \<open>m\<close>, and somewhere in the continuation the loop ran a decoder that
  dispatched a message of type \<open>m\<close> while the task was already suspended in
  \<^verbatim>\<open>cond.wait()\<close> with its future not set: no notification from before the wait
  made it return.
\<close>

theorem C9_no_shortcut:
  assumes "w = exec acts0 world0"
    and "t < length (tasks w)" "tasks w ! t = Created (Await_message m)"
    and "tasks (exec acts w) ! t = Returned r"
  shows "r = RStr m \<and>
         (\<exists>pre post. acts = pre @ Loop # post \<and>
            tasks (exec pre w) ! t = In_wait m False \<and> dispatches m (exec pre w))"
proof -
  have "world_inv w" unfolding assms(1) by (intro world_inv_exec world_inv_world0)
  from created_returns [OF this assms(2-4)] show ?thesis .
qed

section \<open>What the loop queues\<close>

lemma ready_await_message: "\<exists>q. ready (await_message t m w) = ready w @ q"
  by (auto simp: await_message_def Let_def split: option.splits obj.splits)

lemma ready_await_message_wakeup: "\<exists>q. ready (await_message_wakeup t m w) = ready w @ q"
  by (auto simp: await_message_wakeup_def Let_def split: option.splits obj.splits)

lemma ready_await_all_messages: "\<exists>q. ready (await_all_messages t ms w) = ready w @ q"
  by (auto simp: await_all_messages_def)

lemma ready_await_any_messages: "\<exists>q. ready (await_any_messages t ms w) = ready w @ q"
  by (auto simp: await_any_messages_def)

lemma ready_await_all_messages_wakeup:
  "\<exists>q. ready (await_all_messages_wakeup t ms cs n exc w) = ready w @ q"
  by (auto simp: await_all_messages_wakeup_def split: option.splits)

lemma ready_await_any_messages_wakeup:
  "\<exists>q. ready (await_any_messages_wakeup t cs w) = ready w @ q"
  by (auto simp: await_any_messages_wakeup_def Let_def split: sum.splits)

lemma ready_step_shape:
  assumes "world_inv w"
  shows "\<exists>q. ready (step t w) = ready w @ q"
proof (cases "t < length (tasks w)")
  case False
  then show ?thesis by (simp add: step_idle)
next
  case lt: True
  show ?thesis
  proof (cases "tasks w ! t")
    case (Created cl)
    show ?thesis
    proof (cases cl)
      case (Protocol_x_decoder message)
      from step_decoder [OF assms lt Created [unfolded Protocol_x_decoder]]
      show ?thesis
      proof (elim disjE conjE exE)
        fix e assume "step t w = finish t (Raised e) w"
        then show ?thesis by simp
      next
        fix m c kvs P
        assume h: "step t w = finish t (Returned RNone)
                          ((foldl set_result w (waiters c))\<lparr>state := (state w)(m \<mapsto> Val P)\<rparr>)"
        from ready_foldl_set_result [of w "waiters c"] obtain q where
          "ready (foldl set_result w (waiters c)) = ready w @ q" by blast
        with h show ?thesis by simp
      qed
    next
      case (Await_message m)
      then have "step t w = await_message t m w" using lt Created by (simp add: step_def)
      with ready_await_message [of t m w] show ?thesis by simp
    next
      case (Await_all_messages ms)
      then have "step t w = await_all_messages t ms w" using lt Created by (simp add: step_def)
      with ready_await_all_messages [of t ms w] show ?thesis by simp
    next
      case (Await_any_messages ms)
      then have "step t w = await_any_messages t ms w" using lt Created by (simp add: step_def)
      with ready_await_any_messages [of t ms w] show ?thesis by simp
    qed
  next
    case (In_wait m f)
    show ?thesis
    proof (cases f)
      case True
      with In_wait lt have "step t w = await_message_wakeup t m w" by (simp add: step_def)
      with ready_await_message_wakeup [of t m w] show ?thesis by simp
    next
      case False
      with In_wait show ?thesis by (simp add: step_idle)
    qed
  next
    case (In_gather ms cs n exc)
    then have "step t w = await_all_messages_wakeup t ms cs n exc w" using lt by (simp add: step_def)
    with ready_await_all_messages_wakeup [of t ms cs n exc w] show ?thesis by simp
  next
    case (In_asyncio_wait cs woken)
    show ?thesis
    proof (cases woken)
      case True
      with In_asyncio_wait lt have "step t w = await_any_messages_wakeup t cs w"
        by (simp add: step_def)
      with ready_await_any_messages_wakeup [of t cs w] show ?thesis by simp
    next
      case False
      with In_asyncio_wait show ?thesis by (simp add: step_idle)
    qed
  qed (simp_all add: step_idle)
qed

lemma ready_done_callback: "\<exists>q. ready (done_callback p c w) = ready w @ q"
  by (auto simp: done_callback_def gather_done_callback_def wait_done_callback_def
           split: coro.splits)

lemma ready_act_Loop:
  assumes "world_inv w" "ready w = h # hs"
  shows "\<exists>q. ready (act w Loop) = hs @ q"
proof (cases h)
  case (Step t)
  have "world_inv (w\<lparr>ready := hs\<rparr>)" using assms by simp
  from ready_step_shape [OF this, of t] Step assms(2) show ?thesis by simp
next
  case (Done_callback p c)
  from ready_done_callback [of p c "w\<lparr>ready := hs\<rparr>"] Done_callback assms(2) show ?thesis by simp
qed

lemma woken_runs:
  "world_inv w \<Longrightarrow> t < length (tasks w) \<Longrightarrow> tasks w ! t = In_wait m True \<Longrightarrow>
     i < length (ready w) \<Longrightarrow> ready w ! i = Step t \<Longrightarrow> i < count_list acts Loop \<Longrightarrow>
     tasks (exec acts w) ! t = Returned (RStr m)"
proof (induction acts arbitrary: w i)
  case Nil
  then show ?case by simp
next
  case (Cons a acts)
  let ?w = "act w a"
  have inv': "world_inv ?w" and lt: "t < length (tasks ?w)"
    using Cons.prems by (simp_all add: world_inv_act lt_tasks_act)
  have fin: "tasks ?w ! t = Returned (RStr m) \<Longrightarrow> ?case"
  proof -
    assume r: "tasks ?w ! t = Returned (RStr m)"
    then have "is_final (tasks ?w ! t)" by (simp add: is_final_def)
    from final_exec [OF inv' lt this, of acts] r show ?case by simp
  qed
  show ?case
  proof (cases a)
    case (Create_task cl)
    with Cons.prems have "tasks ?w ! t = In_wait m True" "i < length (ready ?w)"
      "ready ?w ! i = Step t" "i < count_list acts Loop"
      by (simp_all add: nth_append)
    from Cons.IH [OF inv' lt this] show ?thesis by simp
  next
    case Loop
    from Cons.prems(4) obtain h hs where hs: "ready w = h # hs" by (cases "ready w") auto
    from ready_act_Loop [OF Cons.prems(1) hs] obtain q where q: "ready ?w = hs @ q"
      using Loop by auto
    from act_woken [OF Cons.prems(1-3), of a] show ?thesis
    proof (elim disjE conjE)
      assume "tasks ?w ! t = Returned (RStr m)"
      then show ?thesis by (rule fin)
    next
      assume still: "tasks ?w ! t = In_wait m True"
      show ?thesis
      proof (cases i)
        case 0
        with Cons.prems(5) hs have "h = Step t" by simp
        with step_wakeup [of "w\<lparr>ready := hs\<rparr>" t m] Cons.prems(1-3) Loop hs
        have "tasks ?w ! t = Returned (RStr m)" by auto
        then show ?thesis by (rule fin)
      next
        case (Suc j)
        with Cons.prems hs q Loop have "j < length (ready ?w)" "ready ?w ! j = Step t"
          "j < count_list acts Loop"
          by (simp_all add: nth_append)
        from Cons.IH [OF inv' lt still this] show ?thesis by simp
      qed
    qed
  qed
qed

section \<open>No missed wakeup\<close>

text \<open>
  C1.  In any world the loop can reach from the initial one, let task \<open>t\<close> be suspended
  in \<^verbatim>\<open>await_message(T)\<close> with its future not set, and let the next handle of the loop
  be the first step of a decoder whose message has type \<open>T\<close> and payload \<open>P\<close>.  That
  one step of the loop completes the decoder (it is never suspended between the write and
  \<^verbatim>\<open>notify_all\<close>, the lock being free), leaves \<open>P\<close> as the payload of \<open>T\<close> and sets
  the future of \<open>t\<close>; and the wait resolves: whatever else is created meanwhile, once the
  loop has run as many handles as its queue held after the dispatch, \<open>t\<close> has returned \<open>T\<close>.
\<close>

theorem C1_no_missed_wakeup:
  fixes w :: "'f world"
  assumes "w = exec acts0 world0"
    and "t < length (tasks w)" "tasks w ! t = In_wait T False"
    and "ready w = Step d # hs" "d < length (tasks w)"
    and "tasks w ! d = Created (Protocol_x_decoder (Inr (JObj kvs)))"
    and "map_of kvs ''type'' = Some (JStr T)" "map_of kvs ''payload'' = Some P"
  shows "tasks (act w Loop) ! d = Returned RNone
       \<and> state (act w Loop) T = Some (Val P)
       \<and> tasks (act w Loop) ! t = In_wait T True
       \<and> (\<forall>acts. length (ready (act w Loop)) \<le> count_list acts Loop \<longrightarrow>
             tasks (exec acts (act w Loop)) ! t = Returned (RStr T))"
proof -
  let ?w = "w\<lparr>ready := hs\<rparr>"
  let ?w' = "act w Loop"
  have wi: "world_inv w" unfolding assms(1) by (intro world_inv_exec world_inv_world0)
  then have i: "world_inv ?w" by simp
  have w': "?w' = step d ?w" using assms(4) by simp
  from winvD_registered [OF wi [unfolded world_inv_def] assms(2,3)]
  obtain c where c: "state w (T @ ''_event'') = Some (Cond c)" "t \<in> set (waiters c)" by blast
  from winvD_key [OF wi [unfolded world_inv_def] c(1)] have T: "T \<in> {''a'', ''b'', ''c''}"
    by (simp only: event_in_iff)
  have dt: "dispatch_type (Protocol_x_decoder (Inr (JObj kvs))) = Some T"
    using assms(7,8) T by simp
  from step_decoder [OF i, of d "Inr (JObj kvs)"] assms(5,6) dt c(1) assms(8)
  have st: "step d ?w = finish d (Returned RNone)
              ((foldl set_result ?w (waiters c))\<lparr>state := (state w)(T \<mapsto> Val P)\<rparr>)"
    by auto
  have ne: "t \<noteq> d" using assms(3,6) by auto
  have 1: "tasks ?w' ! d = Returned RNone" unfolding w' st using assms(5) by simp
  have 2: "state ?w' T = Some (Val P)" unfolding w' st by simp
  have 3: "tasks ?w' ! t = In_wait T True"
    unfolding w' st using ne assms(2,3) c(2) by (simp add: tasks_foldl_set_result)
  from ready_foldl_set_result [of ?w "waiters c"] obtain q where
    q: "ready (foldl set_result ?w (waiters c)) = ready ?w @ q"
    "set q = Step ` {x \<in> set (waiters c). x < length (tasks ?w) \<and> (\<exists>m. tasks ?w ! x = In_wait m False)}"
    by blast
  have "Step t \<in> set q" unfolding q(2) using c(2) assms(2,3) by auto
  then have "Step t \<in> set (ready ?w')" unfolding w' st using q(1) by simp
  then obtain i where ix: "i < length (ready ?w')" "ready ?w' ! i = Step t"
    by (auto simp: in_set_conv_nth)
  have inv': "world_inv ?w'" using wi by (rule world_inv_act)
  have lt': "t < length (tasks ?w')" using wi assms(2) by (rule lt_tasks_act)
  have 4: "\<forall>acts. length (ready ?w') \<le> count_list acts Loop \<longrightarrow>
             tasks (exec acts ?w') ! t = Returned (RStr T)"
  proof (intro allI impI)
    fix acts :: "'f action list"
    assume "length (ready ?w') \<le> count_list acts Loop"
    with ix(1) have "i < count_list acts Loop" by simp
    from woken_runs [OF inv' lt' 3 ix this] show "tasks (exec acts ?w') ! t = Returned (RStr T)" .
  qed
  from 1 2 3 4 show ?thesis by blast
qed

lemmas run_simps =
  exec_def world0_def create_conditions_def initial_state_def new_condition_def
  step_def settle_def done_callback_def finish_def
  protocol_x_decoder_def getitem_def decoders_get_def decoders_def decode_a_def decode_b_def
  decode_c_def decode_def notify_all_def set_result_def acquire_def release_def
  await_message_def await_message_wakeup_def await_all_messages_def await_any_messages_def
  await_all_messages_wakeup_def await_any_messages_wakeup_def gather_done_callback_def
  wait_done_callback_def spawn_children_def children_of_def is_done_def dispatches_def
  Let_def

theorem C1_no_missed_wakeup_witness:
  "tasks (act (exec [Create_task (Await_message ''a''), Loop,
                     Create_task (Protocol_x_decoder
                       (Inr (JObj [(''type'', JStr ''a''), (''payload'', JObj [(''1'', JInt 1)])])))]
                (world0 :: unit world)) Loop) ! 0 = In_wait ''a'' True
   \<and> tasks (exec [Loop, Loop]
        (act (exec [Create_task (Await_message ''a''), Loop,
                     Create_task (Protocol_x_decoder
                       (Inr (JObj [(''type'', JStr ''a''), (''payload'', JObj [(''1'', JInt 1)])])))]
                (world0 :: unit world)) Loop)) ! 0 = Returned (RStr ''a'')"
proof -
  let ?kvs = "[(''type'', JStr ''a''), (''payload'', JObj [(''1'', JInt 1)])] :: (string \<times> unit json) list"
  let ?acts0 = "[Create_task (Await_message ''a''), Loop,
                 Create_task (Protocol_x_decoder (Inr (JObj ?kvs)))]"
  let ?w = "exec ?acts0 (world0 :: unit world)"
  have h: "0 < length (tasks ?w)" "tasks ?w ! 0 = In_wait ''a'' False"
    "ready ?w = Step 1 # []" "1 < length (tasks ?w)"
    "tasks ?w ! 1 = Created (Protocol_x_decoder (Inr (JObj ?kvs)))"
    by (simp_all add: run_simps)
  have n: "length (ready (act ?w Loop)) \<le> count_list [Loop, Loop] (Loop :: unit action)"
    by (simp add: run_simps)
  have m: "map_of ?kvs ''type'' = Some (JStr ''a'')"
    "map_of ?kvs ''payload'' = Some (JObj [(''1'', JInt 1)])"
    by simp_all
  from C1_no_missed_wakeup [OF refl h m] n
  show ?thesis by blast
qed

theorem C9_no_shortcut_witness:
  "\<exists>pre post. [Loop, Create_task (Protocol_x_decoder
                       (Inr (JObj [(''type'', JStr ''a''), (''payload'', JObj [(''1'', JInt 1)])]))),
                 Loop, Loop] = pre @ Loop # post
      \<and> tasks (exec pre (exec [Create_task (Await_message ''a'')] (world0 :: unit world))) ! 0
            = In_wait ''a'' False
      \<and> dispatches ''a'' (exec pre (exec [Create_task (Await_message ''a'')] (world0 :: unit world)))"
proof -
  let ?kvs = "[(''type'', JStr ''a''), (''payload'', JObj [(''1'', JInt 1)])] :: (string \<times> unit json) list"
  let ?w = "exec [Create_task (Await_message ''a'')] (world0 :: unit world)"
  let ?acts = "[Loop, Create_task (Protocol_x_decoder (Inr (JObj ?kvs))), Loop, Loop]"
  have h: "0 < length (tasks ?w)" "tasks ?w ! 0 = Created (Await_message ''a'')"
    "tasks (exec ?acts ?w) ! 0 = Returned (RStr ''a'')"
    by (simp_all add: run_simps)
  from C9_no_shortcut [OF refl h] show ?thesis by blast
qed

section \<open>Waiting for any: what happens to the waits that lose\<close>

text \<open>
  C2, as the specification states it, fails: \<^verbatim>\<open>await_any_messages\<close> drops the pending
  tasks without cancelling them.  Wait for \<^verbatim>\<open>'a'\<close> or \<^verbatim>\<open>'b'\<close>, let a message of type
  \<^verbatim>\<open>'a'\<close> arrive and run the loop until its queue is empty: the call has returned
  \<^verbatim>\<open>['a']\<close>, and the wait on \<^verbatim>\<open>'b'\<close> (task 2) is still suspended and still among the
  waiters of the condition of \<^verbatim>\<open>'b'\<close>.
\<close>

theorem C2_counterexample:
  "tasks (exec [Create_task (Await_any_messages [''a'', ''b'']), Loop, Loop, Loop,
                Create_task (Protocol_x_decoder
                  (Inr (JObj [(''type'', JStr ''a''), (''payload'', JObj [(''1'', JInt 1)])]))),
                Loop, Loop, Loop, Loop] (world0 :: unit world))
     = [Returned (RList [''a'']), Returned (RStr ''a''), In_wait ''b'' False, Returned RNone]
   \<and> ready (exec [Create_task (Await_any_messages [''a'', ''b'']), Loop, Loop, Loop,
                Create_task (Protocol_x_decoder
                  (Inr (JObj [(''type'', JStr ''a''), (''payload'', JObj [(''1'', JInt 1)])]))),
                Loop, Loop, Loop, Loop] (world0 :: unit world)) = []
   \<and> state (exec [Create_task (Await_any_messages [''a'', ''b'']), Loop, Loop, Loop,
                Create_task (Protocol_x_decoder
                  (Inr (JObj [(''type'', JStr ''a''), (''payload'', JObj [(''1'', JInt 1)])]))),
                Loop, Loop, Loop, Loop] (world0 :: unit world)) ''b_event''
     = Some (Cond \<lparr>locked = False, waiters = [2]\<rparr>)"
  by (simp add: run_simps)

text \<open>
  C2, amended.  When the call resolves (the loop runs the wakeup of a task suspended in
  \<^verbatim>\<open>asyncio.wait\<close>), the waits that are still pending are abandoned as they are, not
  cancelled: the step changes no entry of \<^verbatim>\<open>state\<close>, hence no list of waiters, and no
  other task, so every pending wait stays registered on the condition of its topic; all the
  call does to its sub-waits is to detach its done-callback from them.
\<close>

theorem C2_pending_left_registered:
  fixes w :: "'f world"
  assumes "w = exec acts0 world0"
    and "ready w = Step p # hs" "p < length (tasks w)" "tasks w ! p = In_asyncio_wait cs True"
  shows "state (act w Loop) = state w
       \<and> (\<forall>x. x < length (tasks w) \<longrightarrow> x \<noteq> p \<longrightarrow> tasks (act w Loop) ! x = tasks w ! x)
       \<and> (\<forall>c \<in> set cs. done_callbacks (act w Loop) c = [])
       \<and> (\<forall>c m. c < length (tasks w) \<longrightarrow> tasks w ! c = In_wait m False \<longrightarrow>
             (\<exists>cd. state (act w Loop) (m @ ''_event'') = Some (Cond cd) \<and> c \<in> set (waiters cd)))"
proof -
  have wi: "world_inv w" unfolding assms(1) by (intro world_inv_exec world_inv_world0)
  have w': "act w Loop = await_any_messages_wakeup p cs (w\<lparr>ready := hs\<rparr>)"
    using assms(2-4) by (simp add: step_def)
  have 1: "state (act w Loop) = state w"
    unfolding w' by (simp add: await_any_messages_wakeup_def Let_def split: sum.splits)
  have 2: "\<forall>x. x < length (tasks w) \<longrightarrow> x \<noteq> p \<longrightarrow> tasks (act w Loop) ! x = tasks w ! x"
    unfolding w' by (simp add: await_any_messages_wakeup_def Let_def split: sum.splits)
  have 3: "\<forall>c \<in> set cs. done_callbacks (act w Loop) c = []"
    unfolding w' by (simp add: await_any_messages_wakeup_def Let_def split: sum.splits)
  have 4: "\<forall>c m. c < length (tasks w) \<longrightarrow> tasks w ! c = In_wait m False \<longrightarrow>
             (\<exists>cd. state (act w Loop) (m @ ''_event'') = Some (Cond cd) \<and> c \<in> set (waiters cd))"
    unfolding 1 using winvD_registered [OF wi [unfolded world_inv_def]] by blast
  from 1 2 3 4 show ?thesis by blast
qed

theorem C2_pending_left_registered_witness:
  "state (act (exec [Create_task (Await_any_messages [''a'', ''b'']), Loop, Loop, Loop,
                Create_task (Protocol_x_decoder
                  (Inr (JObj [(''type'', JStr ''a''), (''payload'', JObj [(''1'', JInt 1)])]))),
                Loop, Loop, Loop] (world0 :: unit world)) Loop) ''b_event''
     = Some (Cond \<lparr>locked = False, waiters = [2]\<rparr>)"
proof -
  let ?w = "exec [Create_task (Await_any_messages [''a'', ''b'']), Loop, Loop, Loop,
                Create_task (Protocol_x_decoder
                  (Inr (JObj [(''type'', JStr ''a''), (''payload'', JObj [(''1'', JInt 1)])]))),
                Loop, Loop, Loop] (world0 :: unit world)"
  have h: "ready ?w = Step 0 # []" "0 < length (tasks ?w)" "tasks ?w ! 0 = In_asyncio_wait [1, 2] True"
    by (simp_all add: run_simps)
  have s: "state ?w ''b_event'' = Some (Cond \<lparr>locked = False, waiters = [2]\<rparr>)"
    by (simp add: run_simps)
  from C2_pending_left_registered [OF refl h] have "state (act ?w Loop) = state ?w" by blast
  with s show ?thesis by simp
qed

section \<open>The invariant of the queue\<close>

lemma children_simps [simp]:
  "children (In_gather ms cs n e) = cs" "children (In_asyncio_wait cs b) = cs"
  "children (Created cl) = []" "children (In_wait m f) = []" "children Blocked = []"
  "children (Returned r) = []" "children (Raised e2) = []"
  by (simp_all add: children_def)

lemma is_final_simps [simp]:
  "is_final (Returned r)" "is_final (Raised e2)" "is_final Blocked"
  "\<not> is_final (Created cl)" "\<not> is_final (In_wait m f)" "\<not> is_final (In_gather ms cs n e)"
  "\<not> is_final (In_asyncio_wait cs b)"
  by (simp_all add: is_final_def)

lemma is_done_simps [simp]:
  "is_done (Returned r)" "is_done (Raised e2)" "\<not> is_done Blocked"
  "\<not> is_done (Created cl)" "\<not> is_done (In_wait m f)" "\<not> is_done (In_gather ms cs n e)"
  "\<not> is_done (In_asyncio_wait cs b)"
  by (simp_all add: is_done_def)

lemma is_done_final: "is_done c \<Longrightarrow> is_final c"
  by (cases c) simp_all

lemma children_final: "is_final c \<Longrightarrow> children c = []"
  by (cases c) simp_all

lemma finvD_fresh: "finv ts dc \<Longrightarrow> length ts \<le> x \<Longrightarrow> dc x = []"
  unfolding finv_def by blast

lemma finvD_le1: "finv ts dc \<Longrightarrow> length (dc x) \<le> 1"
  unfolding finv_def by blast

lemma finvD_child:
  "finv ts dc \<Longrightarrow> p < length ts \<Longrightarrow> x \<in> set (children (ts ! p)) \<Longrightarrow>
     x < length ts \<and> x \<noteq> p \<and> (\<not> is_final (ts ! x) \<longrightarrow> dc x = [p])"
  unfolding finv_def by blast

lemma finvD_callback:
  "finv ts dc \<Longrightarrow> p \<in> set (dc x) \<Longrightarrow>
     p < length ts \<and> (x \<in> set (children (ts ! p)) \<or> is_final (ts ! p))"
  unfolding finv_def by blast

lemma finvI:
  assumes "\<And>x. length ts \<le> x \<Longrightarrow> dc x = []"
    and "\<And>x. length (dc x) \<le> 1"
    and "\<And>p x. p < length ts \<Longrightarrow> x \<in> set (children (ts ! p)) \<Longrightarrow>
            x < length ts \<and> x \<noteq> p \<and> (\<not> is_final (ts ! x) \<longrightarrow> dc x = [p])"
    and "\<And>x p. p \<in> set (dc x) \<Longrightarrow>
            p < length ts \<and> (x \<in> set (children (ts ! p)) \<or> is_final (ts ! p))"
  shows "finv ts dc"
  unfolding finv_def using assms by blast

lemma finv_update:
  assumes "finv ts dc" "children c = children (ts ! t) \<or> is_final c"
    and "is_final (ts ! t) \<longrightarrow> is_final c"
  shows "finv (ts[t := c]) dc"
proof (cases "t < length ts")
  case False
  with assms(1) show ?thesis by (simp add: upd_beyond)
next
  case lt: True
  have ch: "\<And>x. x \<in> set (children c) \<Longrightarrow> x \<in> set (children (ts ! t))"
    using assms(2) by (auto simp: children_final)
  show ?thesis
  proof (rule finvI)
    fix x assume "length (ts[t := c]) \<le> x"
    with finvD_fresh [OF assms(1), of x] show "dc x = []" by simp
  next
    fix x show "length (dc x) \<le> 1" using assms(1) by (rule finvD_le1)
  next
    fix p x assume p: "p < length (ts[t := c])" and x: "x \<in> set (children (ts[t := c] ! p))"
    have x': "x \<in> set (children (ts ! p))"
      using x p ch by (cases "p = t") simp_all
    from finvD_child [OF assms(1) _ x'] p
    have old: "x < length ts" "x \<noteq> p" "\<not> is_final (ts ! x) \<longrightarrow> dc x = [p]" by simp_all
    have "\<not> is_final (ts[t := c] ! x) \<longrightarrow> \<not> is_final (ts ! x)"
      using assms(3) old(1) by (cases "x = t") auto
    with old show "x < length (ts[t := c]) \<and> x \<noteq> p \<and> (\<not> is_final (ts[t := c] ! x) \<longrightarrow> dc x = [p])"
      by simp
  next
    fix x p assume "p \<in> set (dc x)"
    from finvD_callback [OF assms(1) this]
    have old: "p < length ts" "x \<in> set (children (ts ! p)) \<or> is_final (ts ! p)" by simp_all
    have "x \<in> set (children (ts[t := c] ! p)) \<or> is_final (ts[t := c] ! p)"
    proof (cases "p = t")
      case True
      with old lt assms(2,3) show ?thesis by auto
    next
      case False
      with old show ?thesis by simp
    qed
    with old(1) show "p < length (ts[t := c]) \<and>
        (x \<in> set (children (ts[t := c] ! p)) \<or> is_final (ts[t := c] ! p))" by simp
  qed
qed

lemma finv_append:
  assumes "finv ts dc" "\<forall>c \<in> set new. children c = []"
  shows "finv (ts @ new) dc"
proof (rule finvI)
  fix x assume "length (ts @ new) \<le> x"
  with finvD_fresh [OF assms(1), of x] show "dc x = []" by simp
next
  fix x show "length (dc x) \<le> 1" using assms(1) by (rule finvD_le1)
next
  fix p x assume p: "p < length (ts @ new)" and x: "x \<in> set (children ((ts @ new) ! p))"
  have lt: "p < length ts"
  proof (rule ccontr)
    assume "\<not> p < length ts"
    with p have "(ts @ new) ! p \<in> set new" by (simp add: nth_append)
    with assms(2) x show False by auto
  qed
  with x have "x \<in> set (children (ts ! p))" by (simp add: nth_append)
  from finvD_child [OF assms(1) lt this]
  show "x < length (ts @ new) \<and> x \<noteq> p \<and> (\<not> is_final ((ts @ new) ! x) \<longrightarrow> dc x = [p])"
    by (simp add: nth_append)
next
  fix x p assume "p \<in> set (dc x)"
  from finvD_callback [OF assms(1) this]
  show "p < length (ts @ new) \<and> (x \<in> set (children ((ts @ new) ! p)) \<or> is_final ((ts @ new) ! p))"
    by (simp add: nth_append)
qed

lemma finv_spawn:
  assumes "finv ts dc" "t < length ts" "ts ! t = Created cl"
    and c: "children c = [length ts ..< length ts + length new]" "\<not> is_final c"
    and new: "\<forall>x \<in> set new. children x = [] \<and> \<not> is_final x"
  shows "finv (ts[t := c] @ new)
           (\<lambda>x. if x \<in> set [length ts ..< length ts + length new] then [t] else dc x)"
proof (rule finvI)
  fix x assume "length (ts[t := c] @ new) \<le> x"
  with finvD_fresh [OF assms(1), of x]
  show "(if x \<in> set [length ts ..< length ts + length new] then [t] else dc x) = []" by simp
next
  fix x show "length (if x \<in> set [length ts ..< length ts + length new] then [t] else dc x) \<le> 1"
    using finvD_le1 [OF assms(1), of x] by simp
next
  fix p x assume p: "p < length (ts[t := c] @ new)"
    and x: "x \<in> set (children ((ts[t := c] @ new) ! p))"
  have lt: "p < length ts"
  proof (rule ccontr)
    assume "\<not> p < length ts"
    with p have "(ts[t := c] @ new) ! p \<in> set new" by (simp add: nth_append)
    with new x show False by auto
  qed
  show "x < length (ts[t := c] @ new) \<and> x \<noteq> p \<and>
        (\<not> is_final ((ts[t := c] @ new) ! x) \<longrightarrow>
          (if x \<in> set [length ts ..< length ts + length new] then [t] else dc x) = [p])"
  proof (cases "p = t")
    case True
    with x lt c(1) assms(2) show ?thesis by (auto simp: nth_append)
  next
    case False
    with x lt have x': "x \<in> set (children (ts ! p))" by (simp add: nth_append)
    from finvD_child [OF assms(1) lt x']
    have old: "x < length ts" "x \<noteq> p" "\<not> is_final (ts ! x) \<longrightarrow> dc x = [p]" by simp_all
    have "\<not> is_final (ts ! x)" if "x = t" using that assms(3) by simp
    with old show ?thesis by (cases "x = t") (auto simp: nth_append)
  qed
next
  fix x p
  assume h: "p \<in> set (if x \<in> set [length ts ..< length ts + length new] then [t] else dc x)"
  show "p < length (ts[t := c] @ new) \<and>
        (x \<in> set (children ((ts[t := c] @ new) ! p)) \<or> is_final ((ts[t := c] @ new) ! p))"
  proof (cases "x \<in> set [length ts ..< length ts + length new]")
    case True
    with h have "p = t" by simp
    with True assms(2) c(1) show ?thesis by (simp add: nth_append)
  next
    case False
    with h have "p \<in> set (dc x)" by (simp split: if_splits)
    from finvD_callback [OF assms(1) this]
    have old: "p < length ts" "x \<in> set (children (ts ! p)) \<or> is_final (ts ! p)" by simp_all
    with assms(3) have "p \<noteq> t" by auto
    with old show ?thesis by (simp add: nth_append)
  qed
qed

lemma finv_detach:
  assumes "finv ts dc" "t < length ts" "children (ts ! t) = cs" "is_final c"
  shows "finv (ts[t := c]) (\<lambda>x. if x \<in> set cs then [] else dc x)"
proof (rule finvI)
  fix x assume "length (ts[t := c]) \<le> x"
  with finvD_fresh [OF assms(1), of x] show "(if x \<in> set cs then [] else dc x) = []" by simp
next
  fix x show "length (if x \<in> set cs then [] else dc x) \<le> 1"
    using finvD_le1 [OF assms(1), of x] by simp
next
  fix p x assume p: "p < length (ts[t := c])" and x: "x \<in> set (children (ts[t := c] ! p))"
  have pt: "p \<noteq> t" using x p assms(4) by (auto simp: children_final)
  with x p have lt: "p < length ts" and x': "x \<in> set (children (ts ! p))" by simp_all
  from finvD_child [OF assms(1) lt x']
  have old: "x < length ts" "x \<noteq> p" "\<not> is_final (ts ! x) \<longrightarrow> dc x = [p]" by simp_all
  have "(if x \<in> set cs then [] else dc x) = [p]" if nf: "\<not> is_final (ts[t := c] ! x)"
  proof -
    from nf assms(4) old(1) have xt: "x \<noteq> t" by (cases "x = t") simp_all
    with nf have nf': "\<not> is_final (ts ! x)" by simp
    with old have dcx: "dc x = [p]" by simp
    have "x \<notin> set cs"
    proof
      assume "x \<in> set cs"
      with assms(3) have "x \<in> set (children (ts ! t))" by simp
      from finvD_child [OF assms(1,2) this] nf' have "dc x = [t]" by simp
      with dcx pt show False by simp
    qed
    with dcx show ?thesis by simp
  qed
  with old show "x < length (ts[t := c]) \<and> x \<noteq> p \<and>
        (\<not> is_final (ts[t := c] ! x) \<longrightarrow> (if x \<in> set cs then [] else dc x) = [p])"
    by simp
next
  fix x p assume h: "p \<in> set (if x \<in> set cs then [] else dc x)"
  then have nx: "x \<notin> set cs" and "p \<in> set (dc x)" by (simp_all split: if_splits)
  from finvD_callback [OF assms(1) this(2)]
  have old: "p < length ts" "x \<in> set (children (ts ! p)) \<or> is_final (ts ! p)" by simp_all
  show "p < length (ts[t := c]) \<and>
        (x \<in> set (children (ts[t := c] ! p)) \<or> is_final (ts[t := c] ! p))"
    using old assms(2,4) by (cases "p = t") simp_all
qed

lemma qinvD_step: "qinv ts q \<Longrightarrow> Step t \<in> set q \<Longrightarrow> t < length ts"
  unfolding qinv_def by blast

lemma qinvD_created:
  "qinv ts q \<Longrightarrow> t < length ts \<Longrightarrow> ts ! t = Created cl \<Longrightarrow> count_list q (Step t) = 1"
  unfolding qinv_def by blast

lemma qinvD_unwoken:
  "qinv ts q \<Longrightarrow> t < length ts \<Longrightarrow> ts ! t = In_asyncio_wait cs False \<Longrightarrow> Step t \<notin> set q"
  unfolding qinv_def by blast

lemma qinvD_woken:
  "qinv ts q \<Longrightarrow> t < length ts \<Longrightarrow> ts ! t = In_wait m True \<Longrightarrow> Step t \<in> set q"
  unfolding qinv_def by blast

lemma qinvD_callback:
  "qinv ts q \<Longrightarrow> Done_callback p c \<in> set q \<Longrightarrow>
     p < length ts \<and> c < length ts \<and> is_done (ts ! c) \<and>
     (c \<in> set (children (ts ! p)) \<or> is_final (ts ! p))"
  unfolding qinv_def by blast

lemma qinvI:
  assumes "\<And>t. Step t \<in> set q \<Longrightarrow> t < length ts"
    and "\<And>t cl. t < length ts \<Longrightarrow> ts ! t = Created cl \<Longrightarrow> count_list q (Step t) = 1"
    and "\<And>t cs. t < length ts \<Longrightarrow> ts ! t = In_asyncio_wait cs False \<Longrightarrow> Step t \<notin> set q"
    and "\<And>t m. t < length ts \<Longrightarrow> ts ! t = In_wait m True \<Longrightarrow> Step t \<in> set q"
    and "\<And>p c. Done_callback p c \<in> set q \<Longrightarrow>
        p < length ts \<and> c < length ts \<and> is_done (ts ! c) \<and>
        (c \<in> set (children (ts ! p)) \<or> is_final (ts ! p))"
  shows "qinv ts q"
  unfolding qinv_def using assms by blast

lemma count_step_callbacks [simp]: "count_list (map (\<lambda>p. Done_callback p t) cbs) (Step x) = 0"
  by (simp add: count_list_0_iff image_iff)

lemma count_list_upt: "count_list [a ..< b] x = (if a \<le> x \<and> x < b then 1 else 0)"
  by (induction b) auto

lemma count_step_upt:
  "count_list (map Step [a ..< b]) (Step x) = (if a \<le> x \<and> x < b then 1 else 0)"
proof -
  have "inj Step" by (simp add: inj_on_def)
  from count_list_map_conv [OF this, of "[a ..< b]" x] show ?thesis
    by (simp add: count_list_upt)
qed

text \<open>The first step of task \<open>t\<close> is at the head of the queue: \<open>t\<close> is queued nowhere else.\<close>

lemma qinv_head_created:
  assumes "qinv ts (Step t # hs)" "t < length ts" "ts ! t = Created cl"
  shows "Step t \<notin> set hs"
  using qinvD_created [OF assms] by (simp add: count_list_0_iff)

text \<open>
  Task \<open>t\<close>, whose step was at the head of the queue, finishes: its state becomes \<open>c\<close> and
  its callbacks are queued.
\<close>

lemma qinv_finish:
  assumes q: "qinv ts (Step t # hs)" and f: "finv ts dc"
    and t: "t < length ts" "\<not> is_final (ts ! t)" and c: "is_done c"
    and cbs: "set cbs \<subseteq> set (dc t)"
  shows "qinv (ts[t := c]) (hs @ map (\<lambda>p. Done_callback p t) cbs)"
proof (rule qinvI)
  fix x assume "Step x \<in> set (hs @ map (\<lambda>p. Done_callback p t) cbs)"
  then have "Step x \<in> set (Step t # hs)" by auto
  from qinvD_step [OF q this] show "x < length (ts[t := c])" by simp
next
  fix x cl assume x: "x < length (ts[t := c])" "ts[t := c] ! x = Created cl"
  with c have xt: "x \<noteq> t" by (cases "x = t") auto
  with x have "x < length ts" "ts ! x = Created cl" by simp_all
  from qinvD_created [OF q this] xt
  show "count_list (hs @ map (\<lambda>p. Done_callback p t) cbs) (Step x) = 1"
    by simp
next
  fix x cs assume x: "x < length (ts[t := c])" "ts[t := c] ! x = In_asyncio_wait cs False"
  with c have xt: "x \<noteq> t" by (cases "x = t") auto
  with x have "x < length ts" "ts ! x = In_asyncio_wait cs False" by simp_all
  from qinvD_unwoken [OF q this]
  show "Step x \<notin> set (hs @ map (\<lambda>p. Done_callback p t) cbs)" by auto
next
  fix x m assume x: "x < length (ts[t := c])" "ts[t := c] ! x = In_wait m True"
  with c have xt: "x \<noteq> t" by (cases "x = t") auto
  with x have "x < length ts" "ts ! x = In_wait m True" by simp_all
  from qinvD_woken [OF q this] xt
  show "Step x \<in> set (hs @ map (\<lambda>p. Done_callback p t) cbs)" by auto
next
  fix p x assume h: "Done_callback p x \<in> set (hs @ map (\<lambda>p. Done_callback p t) cbs)"
  show "p < length (ts[t := c]) \<and> x < length (ts[t := c]) \<and> is_done (ts[t := c] ! x) \<and>
        (x \<in> set (children (ts[t := c] ! p)) \<or> is_final (ts[t := c] ! p))"
  proof (cases "Done_callback p x \<in> set hs")
    case True
    then have "Done_callback p x \<in> set (Step t # hs)" by simp
    from qinvD_callback [OF q this]
    have old: "p < length ts" "x < length ts" "is_done (ts ! x)"
      "x \<in> set (children (ts ! p)) \<or> is_final (ts ! p)" by simp_all
    from old(3) t(2) have "x \<noteq> t" by (auto dest: is_done_final)
    with old c t show ?thesis by (cases "p = t") (auto dest: is_done_final)
  next
    case False
    with h have xt: "x = t" and p: "p \<in> set cbs" by auto
    with cbs have "p \<in> set (dc t)" by blast
    from finvD_callback [OF f this]
    have old: "p < length ts" "t \<in> set (children (ts ! p)) \<or> is_final (ts ! p)" by simp_all
    have "p \<noteq> t"
    proof
      assume "p = t"
      with old t(2) have "t \<in> set (children (ts ! t))" by simp
      from finvD_child [OF f t(1) this] show False by simp
    qed
    with old xt t c show ?thesis by simp
  qed
qed

text \<open>
  The state of task \<open>t\<close> changes and nothing is queued.  The head of the queue, which is
  dropped, is a step of \<open>t\<close> or a done-callback.
\<close>

lemma qinv_update:
  assumes q: "qinv ts (h # hs)" and h: "h = Step t \<or> (\<exists>p c. h = Done_callback p c)"
    and t: "t < length ts"
    and c: "\<forall>cl. c \<noteq> Created cl" "\<forall>m. c \<noteq> In_wait m True"
      "(\<forall>cs. c \<noteq> In_asyncio_wait cs False) \<or> Step t \<notin> set hs"
      "is_done (ts ! t) \<longrightarrow> is_done c"
      "children c = children (ts ! t) \<or> is_final c" "is_final (ts ! t) \<longrightarrow> is_final c"
  shows "qinv (ts[t := c]) hs"
proof (rule qinvI)
  fix x assume "Step x \<in> set hs"
  then have "Step x \<in> set (h # hs)" by simp
  from qinvD_step [OF q this] show "x < length (ts[t := c])" by simp
next
  fix x cl assume x: "x < length (ts[t := c])" "ts[t := c] ! x = Created cl"
  with c(1) have xt: "x \<noteq> t" by (cases "x = t") auto
  with x have "x < length ts" "ts ! x = Created cl" by simp_all
  from qinvD_created [OF q this] xt h
  show "count_list hs (Step x) = 1" by auto
next
  fix x cs assume x: "x < length (ts[t := c])" "ts[t := c] ! x = In_asyncio_wait cs False"
  show "Step x \<notin> set hs"
  proof (cases "x = t")
    case True
    with x c(3) show ?thesis by auto
  next
    case False
    with x have "x < length ts" "ts ! x = In_asyncio_wait cs False" by simp_all
    from qinvD_unwoken [OF q this] show ?thesis by simp
  qed
next
  fix x m assume x: "x < length (ts[t := c])" "ts[t := c] ! x = In_wait m True"
  with c(2) have xt: "x \<noteq> t" by (cases "x = t") auto
  with x have "x < length ts" "ts ! x = In_wait m True" by simp_all
  from qinvD_woken [OF q this] xt h
  show "Step x \<in> set hs" by auto
next
  fix p x assume "Done_callback p x \<in> set hs"
  then have "Done_callback p x \<in> set (h # hs)" by simp
  from qinvD_callback [OF q this]
  have old: "p < length ts" "x < length ts" "is_done (ts ! x)"
    "x \<in> set (children (ts ! p)) \<or> is_final (ts ! p)" by simp_all
  have 1: "is_done (ts[t := c] ! x)"
    using old(2,3) c(4) by (cases "x = t") simp_all
  have 2: "x \<in> set (children (ts[t := c] ! p)) \<or> is_final (ts[t := c] ! p)"
    using old(1,4) c(5,6) by (cases "p = t") auto
  from old 1 2
  show "p < length (ts[t := c]) \<and> x < length (ts[t := c]) \<and> is_done (ts[t := c] ! x) \<and>
        (x \<in> set (children (ts[t := c] ! p)) \<or> is_final (ts[t := c] ! p))"
    by simp
qed

text \<open>A step is queued for a task that has started and is not suspended unwoken in \<^verbatim>\<open>asyncio.wait\<close>.\<close>

lemma qinv_append_step:
  assumes q: "qinv ts q" and t: "t < length ts"
    and c: "\<forall>cl. ts ! t \<noteq> Created cl" "\<forall>cs. ts ! t \<noteq> In_asyncio_wait cs False"
  shows "qinv ts (q @ [Step t])"
proof (rule qinvI)
  fix x assume "Step x \<in> set (q @ [Step t])"
  with qinvD_step [OF q, of x] t show "x < length ts" by auto
next
  fix x cl assume x: "x < length ts" "ts ! x = Created cl"
  with c(1) have "x \<noteq> t" by auto
  with qinvD_created [OF q x] show "count_list (q @ [Step t]) (Step x) = 1" by simp
next
  fix x cs assume x: "x < length ts" "ts ! x = In_asyncio_wait cs False"
  with c(2) have "x \<noteq> t" by auto
  with qinvD_unwoken [OF q x] show "Step x \<notin> set (q @ [Step t])" by simp
next
  fix x m assume "x < length ts" "ts ! x = In_wait m True"
  from qinvD_woken [OF q this] show "Step x \<in> set (q @ [Step t])" by simp
next
  fix p x assume "Done_callback p x \<in> set (q @ [Step t])"
  then have "Done_callback p x \<in> set q" by simp
  from qinvD_callback [OF q this]
  show "p < length ts \<and> x < length ts \<and> is_done (ts ! x) \<and>
        (x \<in> set (children (ts ! p)) \<or> is_final (ts ! p))" .
qed

text \<open>A future is set: the task that awaits it is queued.\<close>

lemma qinv_wake:
  assumes q: "qinv ts q" and t: "t < length ts" "ts ! t = In_wait m False"
  shows "qinv (ts[t := In_wait m True]) (q @ [Step t])"
proof (rule qinvI)
  fix x assume "Step x \<in> set (q @ [Step t])"
  with qinvD_step [OF q, of x] t show "x < length (ts[t := In_wait m True])" by auto
next
  fix x cl assume x: "x < length (ts[t := In_wait m True])" "ts[t := In_wait m True] ! x = Created cl"
  then have xt: "x \<noteq> t" by (cases "x = t") auto
  with x have "x < length ts" "ts ! x = Created cl" by simp_all
  from qinvD_created [OF q this] xt show "count_list (q @ [Step t]) (Step x) = 1" by simp
next
  fix x cs assume x: "x < length (ts[t := In_wait m True])"
    "ts[t := In_wait m True] ! x = In_asyncio_wait cs False"
  then have xt: "x \<noteq> t" by (cases "x = t") auto
  with x have "x < length ts" "ts ! x = In_asyncio_wait cs False" by simp_all
  from qinvD_unwoken [OF q this] xt show "Step x \<notin> set (q @ [Step t])" by simp
next
  fix x m' assume x: "x < length (ts[t := In_wait m True])" "ts[t := In_wait m True] ! x = In_wait m' True"
  show "Step x \<in> set (q @ [Step t])"
  proof (cases "x = t")
    case True
    then show ?thesis by simp
  next
    case False
    with x have "x < length ts" "ts ! x = In_wait m' True" by simp_all
    from qinvD_woken [OF q this] show ?thesis by simp
  qed
next
  fix p x assume "Done_callback p x \<in> set (q @ [Step t])"
  then have "Done_callback p x \<in> set q" by simp
  from qinvD_callback [OF q this]
  have old: "p < length ts" "x < length ts" "is_done (ts ! x)"
    "x \<in> set (children (ts ! p)) \<or> is_final (ts ! p)" by simp_all
  from old(3) t(2) have "x \<noteq> t" by auto
  moreover have "x \<in> set (children (ts[t := In_wait m True] ! p)) \<or> is_final (ts[t := In_wait m True] ! p)"
    using old(1,4) t(2) by (cases "p = t") auto
  ultimately show "p < length (ts[t := In_wait m True]) \<and> x < length (ts[t := In_wait m True]) \<and>
        is_done (ts[t := In_wait m True] ! x) \<and>
        (x \<in> set (children (ts[t := In_wait m True] ! p)) \<or> is_final (ts[t := In_wait m True] ! p))"
    using old by simp
qed

text \<open>A task is created.\<close>

lemma qinv_create:
  assumes q: "qinv ts q"
  shows "qinv (ts @ [Created cl]) (q @ [Step (length ts)])"
proof (rule qinvI)
  fix x assume "Step x \<in> set (q @ [Step (length ts)])"
  with qinvD_step [OF q, of x] show "x < length (ts @ [Created cl])" by auto
next
  fix x cl' assume x: "x < length (ts @ [Created cl])" "(ts @ [Created cl]) ! x = Created cl'"
  show "count_list (q @ [Step (length ts)]) (Step x) = 1"
  proof (cases "x < length ts")
    case True
    with x have "ts ! x = Created cl'" by (simp add: nth_append)
    from qinvD_created [OF q True this] True show ?thesis by simp
  next
    case False
    with x have xe: "x = length ts" by simp
    have "Step (length ts) \<notin> set q" using qinvD_step [OF q, of "length ts"] by auto
    with xe show ?thesis by simp
  qed
next
  fix x cs assume x: "x < length (ts @ [Created cl])" "(ts @ [Created cl]) ! x = In_asyncio_wait cs False"
  then have lt: "x < length ts" by (cases "x < length ts") (auto simp: nth_append)
  with x have "ts ! x = In_asyncio_wait cs False" by (simp add: nth_append)
  from qinvD_unwoken [OF q lt this] lt show "Step x \<notin> set (q @ [Step (length ts)])" by simp
next
  fix x m assume x: "x < length (ts @ [Created cl])" "(ts @ [Created cl]) ! x = In_wait m True"
  then have lt: "x < length ts" by (cases "x < length ts") (auto simp: nth_append)
  with x have "ts ! x = In_wait m True" by (simp add: nth_append)
  from qinvD_woken [OF q lt this] show "Step x \<in> set (q @ [Step (length ts)])" by simp
next
  fix p x assume "Done_callback p x \<in> set (q @ [Step (length ts)])"
  then have "Done_callback p x \<in> set q" by simp
  from qinvD_callback [OF q this]
  show "p < length (ts @ [Created cl]) \<and> x < length (ts @ [Created cl]) \<and>
        is_done ((ts @ [Created cl]) ! x) \<and>
        (x \<in> set (children ((ts @ [Created cl]) ! p)) \<or> is_final ((ts @ [Created cl]) ! p))"
    by (simp add: nth_append)
qed

text \<open>
  Task \<open>t\<close>, whose first step was at the head of the queue, suspends in \<^verbatim>\<open>gather\<close> or
  \<^verbatim>\<open>asyncio.wait\<close> over new tasks, which are queued.
\<close>

lemma qinv_spawn:
  assumes q: "qinv ts (Step t # hs)" and t: "t < length ts" "ts ! t = Created cl"
    and c: "children c = [length ts ..< length ts + length ms]"
      "\<forall>cl. c \<noteq> Created cl" "\<forall>m. c \<noteq> In_wait m True" "\<not> is_final c"
  shows "qinv (ts[t := c] @ map (\<lambda>m. Created (Await_message m)) ms)
           (hs @ map Step [length ts ..< length ts + length ms])"
    (is "qinv ?ts ?q")
proof (rule qinvI)
  fix x assume "Step x \<in> set ?q"
  then have "Step x \<in> set (Step t # hs) \<or> x < length ts + length ms" by auto
  with qinvD_step [OF q, of x] show "x < length ?ts" by auto
next
  fix x cl' assume x: "x < length ?ts" "?ts ! x = Created cl'"
  show "count_list ?q (Step x) = 1"
  proof (cases "x < length ts")
    case True
    with x c(2) have xt: "x \<noteq> t" by (cases "x = t") (auto simp: nth_append)
    with x True have "ts ! x = Created cl'" by (simp add: nth_append)
    from qinvD_created [OF q True this] xt True show ?thesis
      by (simp add: count_step_upt)
  next
    case False
    have "Step x \<notin> set hs" using qinvD_step [OF q, of x] False by auto
    with False x(1) show ?thesis by (simp add: count_step_upt)
  qed
next
  fix x cs assume x: "x < length ?ts" "?ts ! x = In_asyncio_wait cs False"
  then have lt: "x < length ts" by (cases "x < length ts") (auto simp: nth_append)
  show "Step x \<notin> set ?q"
  proof (cases "x = t")
    case True
    with qinv_head_created [OF q t] t(1) show ?thesis by auto
  next
    case False
    with x lt have "ts ! x = In_asyncio_wait cs False" by (simp add: nth_append)
    from qinvD_unwoken [OF q lt this] lt show ?thesis by auto
  qed
next
  fix x m assume x: "x < length ?ts" "?ts ! x = In_wait m True"
  then have lt: "x < length ts" by (cases "x < length ts") (auto simp: nth_append)
  with x c(3) have xt: "x \<noteq> t" by (cases "x = t") (auto simp: nth_append)
  with x lt have "ts ! x = In_wait m True" by (simp add: nth_append)
  from qinvD_woken [OF q lt this] xt show "Step x \<in> set ?q" by auto
next
  fix p x assume "Done_callback p x \<in> set ?q"
  then have "Done_callback p x \<in> set (Step t # hs)" by auto
  from qinvD_callback [OF q this]
  have old: "p < length ts" "x < length ts" "is_done (ts ! x)"
    "x \<in> set (children (ts ! p)) \<or> is_final (ts ! p)" by simp_all
  from old(3) t(2) have xt: "x \<noteq> t" by auto
  from old(4) t(2) have pt: "p \<noteq> t" by auto
  from old xt pt
  show "p < length ?ts \<and> x < length ?ts \<and> is_done (?ts ! x) \<and>
        (x \<in> set (children (?ts ! p)) \<or> is_final (?ts ! p))"
    by (simp add: nth_append)
qed

lemma sched_inv_at_pop: "sched_inv w \<Longrightarrow> ready w = Step t # hs \<Longrightarrow> sched_inv_at t (w\<lparr>ready := hs\<rparr>)"
  by (simp add: sched_inv_def sched_inv_at_def)

lemma sched_inv_at_state [simp]: "sched_inv_at t (w\<lparr>state := s\<rparr>) = sched_inv_at t w"
  by (simp add: sched_inv_at_def)

lemma sched_inv_state [simp]: "sched_inv (w\<lparr>state := s\<rparr>) = sched_inv w"
  by (simp add: sched_inv_def)

lemma sched_inv_at_lt: "sched_inv_at t w \<Longrightarrow> t < length (tasks w)"
  unfolding sched_inv_at_def using qinvD_step [of "tasks w" "Step t # ready w" t] by simp

lemma sched_inv_at_set_result:
  assumes "sched_inv_at t w"
  shows "sched_inv_at t (set_result w x)"
proof (cases "x < length (tasks w) \<and> (\<exists>m. tasks w ! x = In_wait m False)")
  case False
  then have "set_result w x = w"
    by (auto simp: set_result_def split: coro.splits bool.splits)
  with assms show ?thesis by simp
next
  case True
  then obtain m where x: "x < length (tasks w)" "tasks w ! x = In_wait m False" by blast
  then have eq: "set_result w x = w\<lparr>tasks := (tasks w)[x := In_wait m True], ready := ready w @ [Step x]\<rparr>"
    by (simp add: set_result_def)
  have "finv ((tasks w)[x := In_wait m True]) (done_callbacks w)"
    using assms x by (intro finv_update) (simp_all add: sched_inv_at_def)
  moreover have "qinv ((tasks w)[x := In_wait m True]) ((Step t # ready w) @ [Step x])"
    using assms x by (intro qinv_wake) (simp_all add: sched_inv_at_def)
  ultimately show ?thesis by (simp add: eq sched_inv_at_def)
qed

lemma sched_inv_at_foldl_set_result:
  "sched_inv_at t w \<Longrightarrow> sched_inv_at t (foldl set_result w xs)"
  by (induction xs arbitrary: w) (simp_all add: sched_inv_at_set_result)

lemma sched_inv_finish:
  assumes "sched_inv_at t w" "\<not> is_final (tasks w ! t)" "is_done c"
  shows "sched_inv (finish t c w)"
proof -
  have lt: "t < length (tasks w)" using assms(1) by (rule sched_inv_at_lt)
  have "finv ((tasks w)[t := c]) (done_callbacks w)"
    using assms by (intro finv_update) (simp_all add: sched_inv_at_def is_done_final)
  moreover have "qinv ((tasks w)[t := c]) (ready w @ map (\<lambda>p. Done_callback p t) (done_callbacks w t))"
    using assms lt by (intro qinv_finish [where dc = "done_callbacks w"]) (simp_all add: sched_inv_at_def)
  ultimately show ?thesis by (simp add: sched_inv_def)
qed

lemma sched_inv_detach_finish:
  assumes "sched_inv_at t w" "tasks w ! t = In_asyncio_wait cs b" "is_done c"
  shows "sched_inv (finish t c (w\<lparr>done_callbacks := (\<lambda>x. if x \<in> set cs then [] else done_callbacks w x)\<rparr>))"
proof -
  have lt: "t < length (tasks w)" using assms(1) by (rule sched_inv_at_lt)
  let ?dc = "\<lambda>x. if x \<in> set cs then [] else done_callbacks w x"
  have "finv ((tasks w)[t := c]) ?dc"
    using assms lt by (intro finv_detach) (simp_all add: sched_inv_at_def is_done_final)
  moreover have "qinv ((tasks w)[t := c]) (ready w @ map (\<lambda>p. Done_callback p t) (?dc t))"
    using assms lt by (intro qinv_finish [where dc = "done_callbacks w"]) (simp_all add: sched_inv_at_def)
  ultimately show ?thesis by (simp add: sched_inv_def)
qed

lemma sched_inv_idle:
  assumes "sched_inv_at t w" "\<forall>cl. tasks w ! t \<noteq> Created cl" "\<forall>m. tasks w ! t \<noteq> In_wait m True"
  shows "sched_inv w"
proof -
  have lt: "t < length (tasks w)" using assms(1) by (rule sched_inv_at_lt)
  have "qinv ((tasks w)[t := tasks w ! t]) (ready w)"
  proof (rule qinv_update [where h = "Step t"])
    show "qinv (tasks w) (Step t # ready w)" using assms(1) by (simp add: sched_inv_at_def)
    show "(\<forall>cs. tasks w ! t \<noteq> In_asyncio_wait cs False) \<or> Step t \<notin> set (ready w)"
      using qinvD_unwoken [of "tasks w" "Step t # ready w" t] assms(1) lt
      by (auto simp: sched_inv_at_def)
  qed (use assms lt in simp_all)
  with assms(1) show ?thesis by (simp add: sched_inv_def sched_inv_at_def)
qed

lemma sched_inv_suspend:
  assumes "sched_inv_at t w" "tasks w ! t = Created cl" "c = Blocked \<or> c = In_wait m False"
  shows "sched_inv (w\<lparr>tasks := (tasks w)[t := c]\<rparr>)"
proof -
  have lt: "t < length (tasks w)" using assms(1) by (rule sched_inv_at_lt)
  have "finv ((tasks w)[t := c]) (done_callbacks w)"
    using assms by (intro finv_update) (auto simp: sched_inv_at_def)
  moreover have "qinv ((tasks w)[t := c]) (ready w)"
    using assms lt by (intro qinv_update [where h = "Step t"]) (auto simp: sched_inv_at_def)
  ultimately show ?thesis by (simp add: sched_inv_def)
qed

lemma sched_inv_spawn:
  fixes w :: "'f world"
  assumes "sched_inv_at t w" "tasks w ! t = Created cl"
    and c: "c = In_gather ms (children_of w ms) 0 None \<or> c = In_asyncio_wait (children_of w ms) False"
  shows "sched_inv (spawn_children t ms c w)"
proof -
  have lt: "t < length (tasks w)" using assms(1) by (rule sched_inv_at_lt)
  let ?new = "map (\<lambda>m. Created (Await_message m)) ms :: 'f coro list"
  have ch: "children c = [length (tasks w) ..< length (tasks w) + length ms]"
    using c by (auto simp: children_of_def)
  have "finv (tasks w) (done_callbacks w)" using assms(1) by (simp add: sched_inv_at_def)
  moreover have "children c = [length (tasks w) ..< length (tasks w) + length ?new]" using ch by simp
  moreover have "\<not> is_final c" using c by auto
  moreover have "\<forall>x \<in> set ?new. children x = [] \<and> \<not> is_final x" by auto
  ultimately have "finv ((tasks w)[t := c] @ ?new)
          (\<lambda>x. if x \<in> set [length (tasks w) ..< length (tasks w) + length ?new] then [t] else done_callbacks w x)"
    using lt assms(2) finv_spawn [of "tasks w" "done_callbacks w" t cl c ?new] by blast
  moreover have "qinv ((tasks w)[t := c] @ ?new) (ready w @ map Step [length (tasks w) ..< length (tasks w) + length ms])"
    using assms(1,2) lt ch c by (intro qinv_spawn) (auto simp: sched_inv_at_def)
  ultimately show ?thesis by (simp add: sched_inv_def children_of_def)
qed

lemma sched_inv_step:
  fixes w :: "'f world"
  assumes wi: "world_inv w" and si: "sched_inv_at t w"
  shows "sched_inv (step t w)"
proof -
  have lt: "t < length (tasks w)" using si by (rule sched_inv_at_lt)
  show ?thesis
  proof (cases "tasks w ! t")
    case (Created cl)
    show ?thesis
    proof (cases cl)
      case (Protocol_x_decoder message)
      from step_decoder [OF wi lt Created [unfolded Protocol_x_decoder]]
      show ?thesis
      proof (elim disjE conjE exE)
        fix e assume "step t w = finish t (Raised e) w"
        with si Created show ?thesis by (simp add: sched_inv_finish)
      next
        fix m c kvs P
        assume h: "step t w = finish t (Returned RNone)
                          ((foldl set_result w (waiters c))\<lparr>state := (state w)(m \<mapsto> Val P)\<rparr>)"
        let ?W = "(foldl set_result w (waiters c))\<lparr>state := (state w)(m \<mapsto> Val P)\<rparr>"
        have "sched_inv_at t ?W" using si by (simp add: sched_inv_at_foldl_set_result)
        moreover have "\<not> is_final (tasks ?W ! t)"
          using lt Created by (simp add: tasks_foldl_set_result)
        ultimately show ?thesis unfolding h by (intro sched_inv_finish) simp_all
      qed
    next
      case (Await_message m)
      from step_await_message [OF wi lt Created [unfolded Await_message]]
      show ?thesis
      proof (elim disjE conjE exE)
        assume "step t w = finish t (Raised (KeyError (m @ ''_event''))) w"
        with si Created show ?thesis by (simp add: sched_inv_finish)
      next
        fix c
        assume st: "step t w = w\<lparr>state := (state w)(m @ ''_event'' \<mapsto> Cond (c\<lparr>waiters := waiters c @ [t]\<rparr>)),
                             tasks := (tasks w)[t := In_wait m False]\<rparr>"
        from sched_inv_suspend [OF si Created, of "In_wait m False" m]
        show ?thesis unfolding st by (simp add: sched_inv_def)
      qed
    next
      case (Await_all_messages ms)
      then have "step t w = await_all_messages t ms w"
        using lt Created by (simp add: step_def)
      then show ?thesis using si Created
        by (simp add: await_all_messages_def sched_inv_finish sched_inv_spawn)
    next
      case (Await_any_messages ms)
      then have "step t w = await_any_messages t ms w"
        using lt Created by (simp add: step_def)
      then show ?thesis using si Created
        by (simp add: await_any_messages_def sched_inv_finish sched_inv_spawn)
    qed
  next
    case (In_wait m f)
    show ?thesis
    proof (cases f)
      case True
      from In_wait True have "tasks w ! t = In_wait m True" by simp
      from step_wakeup [OF wi lt this]
      obtain c where st: "step t w = finish t (Returned (RStr m))
               (w\<lparr>state := (state w)(m @ ''_event'' \<mapsto> Cond (c\<lparr>waiters := remove1 t (waiters c)\<rparr>))\<rparr>)"
        by blast
      show ?thesis unfolding st using si In_wait by (intro sched_inv_finish) simp_all
    next
      case False
      with In_wait si show ?thesis by (simp add: step_idle sched_inv_idle)
    qed
  next
    case (In_gather ms cs n exc)
    then have st: "step t w = await_all_messages_wakeup t ms cs n exc w"
      using lt by (simp add: step_def)
    have "sched_inv w" using si In_gather by (intro sched_inv_idle) auto
    then show ?thesis unfolding st using si In_gather
      by (auto simp: await_all_messages_wakeup_def sched_inv_finish split: option.splits)
  next
    case (In_asyncio_wait cs woken)
    show ?thesis
    proof (cases woken)
      case True
      then have "step t w = await_any_messages_wakeup t cs w"
        using lt In_asyncio_wait by (simp add: step_def)
      then show ?thesis using si In_asyncio_wait
        by (auto simp: await_any_messages_wakeup_def Let_def sched_inv_detach_finish split: sum.splits)
    next
      case False
      with In_asyncio_wait si show ?thesis by (simp add: step_idle sched_inv_idle)
    qed
  next
    case Blocked
    with si show ?thesis by (simp add: step_idle sched_inv_idle)
  next
    case (Returned r)
    with si show ?thesis by (simp add: step_idle sched_inv_idle)
  next
    case (Raised e)
    with si show ?thesis by (simp add: step_idle sched_inv_idle)
  qed
qed

lemma qinv_pop_callback:
  assumes "qinv ts (Done_callback p c # hs)"
  shows "qinv ts hs"
proof (rule qinvI)
  fix x assume "Step x \<in> set hs"
  then show "x < length ts" using qinvD_step [OF assms, of x] by simp
next
  fix x cl assume "x < length ts" "ts ! x = Created cl"
  from qinvD_created [OF assms this] show "count_list hs (Step x) = 1" by simp
next
  fix x cs assume "x < length ts" "ts ! x = In_asyncio_wait cs False"
  from qinvD_unwoken [OF assms this] show "Step x \<notin> set hs" by simp
next
  fix x m assume "x < length ts" "ts ! x = In_wait m True"
  from qinvD_woken [OF assms this] show "Step x \<in> set hs" by simp
next
  fix p' x assume "Done_callback p' x \<in> set hs"
  then have "Done_callback p' x \<in> set (Done_callback p c # hs)" by simp
  from qinvD_callback [OF assms this]
  show "p' < length ts \<and> x < length ts \<and> is_done (ts ! x) \<and>
        (x \<in> set (children (ts ! p')) \<or> is_final (ts ! p'))" .
qed

lemma sched_inv_done_callback:
  fixes w :: "'f world"
  assumes si: "sched_inv w" and r: "ready w = Done_callback p c # hs"
  shows "sched_inv (done_callback p c (w\<lparr>ready := hs\<rparr>))"
proof -
  let ?w = "w\<lparr>ready := hs\<rparr>"
  have f: "finv (tasks w) (done_callbacks w)" and q: "qinv (tasks w) (Done_callback p c # hs)"
    using si r by (simp_all add: sched_inv_def)
  have q': "qinv (tasks w) hs" using q by (rule qinv_pop_callback)
  have base: "sched_inv ?w" using f q' by (simp add: sched_inv_def)
  have lt: "p < length (tasks w)" "c < length (tasks w)"
    using qinvD_callback [OF q, of p c] by simp_all
  have upd: "sched_inv W"
    if W: "tasks W = (tasks w)[p := x]" "ready W = hs \<or> ready W = hs @ [Step p]"
        "done_callbacks W = done_callbacks w"
      and x: "children x = children (tasks w ! p)" "\<not> is_final x" "\<forall>cl. x \<noteq> Created cl"
      "\<forall>m. x \<noteq> In_wait m True" "\<forall>cs. x \<noteq> In_asyncio_wait cs False"
      "\<not> is_final (tasks w ! p)" for x and W :: "'f world"
  proof -
    have 1: "finv ((tasks w)[p := x]) (done_callbacks w)"
      using f x by (intro finv_update) simp_all
    have 2: "qinv ((tasks w)[p := x]) hs"
      using q lt(1) x by (intro qinv_update [where h = "Done_callback p c"]) (auto dest: is_done_final)
    have 3: "qinv ((tasks w)[p := x]) (hs @ [Step p])"
      using 2 lt(1) x by (intro qinv_append_step) simp_all
    from 1 2 3 W show ?thesis by (auto simp: sched_inv_def)
  qed
  show ?thesis
  proof (cases "tasks w ! p")
    case (In_gather ms cs n exc)
    have "\<exists>n' exc'. tasks (done_callback p c ?w) = (tasks w)[p := In_gather ms cs n' exc']"
      using lt In_gather
      by (auto simp: done_callback_def gather_done_callback_def split: coro.splits)
    then obtain n' exc' where t': "tasks (done_callback p c ?w) = (tasks w)[p := In_gather ms cs n' exc']"
      by blast
    have r': "ready (done_callback p c ?w) = hs \<or> ready (done_callback p c ?w) = hs @ [Step p]"
      using lt In_gather
      by (auto simp: done_callback_def gather_done_callback_def split: coro.splits)
    have d': "done_callbacks (done_callback p c ?w) = done_callbacks w"
      using lt In_gather
      by (auto simp: done_callback_def gather_done_callback_def split: coro.splits)
    from t' r' d' show ?thesis using In_gather
      by (intro upd [where x = "In_gather ms cs n' exc'"]) simp_all
  next
    case (In_asyncio_wait cs woken)
    show ?thesis
    proof (cases woken)
      case True
      with lt In_asyncio_wait have "done_callback p c ?w = ?w"
        by (simp add: done_callback_def wait_done_callback_def)
      with base show ?thesis by simp
    next
      case False
      with lt In_asyncio_wait
      have "tasks (done_callback p c ?w) = (tasks w)[p := In_asyncio_wait cs True]"
        "ready (done_callback p c ?w) = hs @ [Step p]"
        "done_callbacks (done_callback p c ?w) = done_callbacks w"
        by (simp_all add: done_callback_def wait_done_callback_def)
      then show ?thesis using In_asyncio_wait
        by (intro upd [where x = "In_asyncio_wait cs True"]) simp_all
    qed
  qed (use base lt in \<open>simp_all add: done_callback_def\<close>)
qed

lemma sched_inv_act:
  fixes w :: "'f world"
  assumes wi: "world_inv w" and si: "sched_inv w"
  shows "sched_inv (act w a)"
proof (cases a)
  case (Create_task cl)
  have "finv (tasks w @ [Created cl]) (done_callbacks w)"
    using si by (intro finv_append) (simp_all add: sched_inv_def)
  moreover have "qinv (tasks w @ [Created cl]) (ready w @ [Step (length (tasks w))])"
    using si by (intro qinv_create) (simp add: sched_inv_def)
  ultimately show ?thesis using Create_task by (simp add: sched_inv_def)
next
  case Loop
  show ?thesis
  proof (cases "ready w")
    case Nil
    with Loop si show ?thesis by simp
  next
    case (Cons h hs)
    show ?thesis
    proof (cases h)
      case (Step t)
      have "world_inv (w\<lparr>ready := hs\<rparr>)" using wi by simp
      moreover have "sched_inv_at t (w\<lparr>ready := hs\<rparr>)"
        using si Cons Step by (intro sched_inv_at_pop) simp_all
      ultimately have "sched_inv (step t (w\<lparr>ready := hs\<rparr>))" by (rule sched_inv_step)
      with Loop Cons Step show ?thesis by simp
    next
      case (Done_callback p c)
      with sched_inv_done_callback [OF si, of p c hs] Loop Cons show ?thesis by simp
    qed
  qed
qed

lemma sched_inv_exec: "world_inv w \<Longrightarrow> sched_inv w \<Longrightarrow> sched_inv (exec acts w)"
  by (induction acts arbitrary: w) (simp_all add: sched_inv_act world_inv_act)

lemma sched_inv_world0: "sched_inv world0"
  by (simp add: sched_inv_def world0_def finv_def qinv_def)

section \<open>The invariant of waiting for any\<close>

lemma ainvD_woken:
  "ainv ts q \<Longrightarrow> p < length ts \<Longrightarrow> ts ! p = In_asyncio_wait cs True \<Longrightarrow> Step p \<in> set q"
  unfolding ainv_def by blast

lemma ainvD_done:
  "ainv ts q \<Longrightarrow> p < length ts \<Longrightarrow> ts ! p = In_asyncio_wait cs False \<Longrightarrow> c \<in> set cs \<Longrightarrow>
     is_done (ts ! c) \<Longrightarrow> Done_callback p c \<in> set q"
  unfolding ainv_def by blast

lemma ainvI:
  assumes "\<And>p cs. p < length ts \<Longrightarrow> ts ! p = In_asyncio_wait cs True \<Longrightarrow> Step p \<in> set q"
    and "\<And>p cs c. p < length ts \<Longrightarrow> ts ! p = In_asyncio_wait cs False \<Longrightarrow> c \<in> set cs \<Longrightarrow>
        is_done (ts ! c) \<Longrightarrow> Done_callback p c \<in> set q"
  shows "ainv ts q"
  unfolding ainv_def using assms by blast

lemma ainv_finish:
  assumes a: "ainv ts (Step t # hs)" and f: "finv ts dc"
    and t: "t < length ts" "\<not> is_final (ts ! t)" and c: "is_done c"
  shows "ainv (ts[t := c]) (hs @ map (\<lambda>p. Done_callback p t) (dc t))"
proof (rule ainvI)
  fix p cs assume p: "p < length (ts[t := c])" "ts[t := c] ! p = In_asyncio_wait cs True"
  with c have pt: "p \<noteq> t" by (cases "p = t") auto
  with p have "p < length ts" "ts ! p = In_asyncio_wait cs True" by simp_all
  from ainvD_woken [OF a this] pt
  show "Step p \<in> set (hs @ map (\<lambda>p. Done_callback p t) (dc t))" by simp
next
  fix p cs x
  assume p: "p < length (ts[t := c])" "ts[t := c] ! p = In_asyncio_wait cs False"
    and x: "x \<in> set cs" "is_done (ts[t := c] ! x)"
  from p c have pt: "p \<noteq> t" by (cases "p = t") auto
  with p have p': "p < length ts" "ts ! p = In_asyncio_wait cs False" by simp_all
  then have xc: "x \<in> set (children (ts ! p))" using x(1) by simp
  show "Done_callback p x \<in> set (hs @ map (\<lambda>p. Done_callback p t) (dc t))"
  proof (cases "x = t")
    case True
    from finvD_child [OF f p'(1) xc] True t(2) have "dc t = [p]" by simp
    with True show ?thesis by simp
  next
    case False
    with x(2) have "is_done (ts ! x)" by simp
    from ainvD_done [OF a p' x(1) this] show ?thesis by simp
  qed
qed

lemma ainv_update:
  assumes a: "ainv ts (h # hs)" and h: "h = Step t \<or> (\<exists>c. h = Done_callback t c)"
    and c: "\<forall>cs. c \<noteq> In_asyncio_wait cs False" "\<forall>cs. c \<noteq> In_asyncio_wait cs True"
      "is_done c \<longrightarrow> is_done (ts ! t)"
  shows "ainv (ts[t := c]) hs"
proof (rule ainvI)
  fix p cs assume p: "p < length (ts[t := c])" "ts[t := c] ! p = In_asyncio_wait cs True"
  with c have pt: "p \<noteq> t" by (cases "p = t") auto
  with p have "p < length ts" "ts ! p = In_asyncio_wait cs True" by simp_all
  from ainvD_woken [OF a this] pt h show "Step p \<in> set hs" by auto
next
  fix p cs x
  assume p: "p < length (ts[t := c])" "ts[t := c] ! p = In_asyncio_wait cs False"
    and x: "x \<in> set cs" "is_done (ts[t := c] ! x)"
  from p c have pt: "p \<noteq> t" by (cases "p = t") auto
  with p have p': "p < length ts" "ts ! p = In_asyncio_wait cs False" by simp_all
  have "is_done (ts ! x)" using x(2) c(3) by (cases "x = t \<and> t < length ts") (auto simp: upd_beyond)
  from ainvD_done [OF a p' x(1) this] pt h show "Done_callback p x \<in> set hs" by auto
qed

lemma ainv_append:
  assumes "ainv ts q"
  shows "ainv ts (q @ q')"
  using assms unfolding ainv_def by auto

lemma ainv_pop:
  assumes a: "ainv ts (h # hs)"
    and h: "\<And>t. h = Step t \<Longrightarrow> t < length ts \<Longrightarrow> \<forall>cs. ts ! t \<noteq> In_asyncio_wait cs True"
      "\<And>p c. h = Done_callback p c \<Longrightarrow> p < length ts \<Longrightarrow> \<forall>cs. ts ! p \<noteq> In_asyncio_wait cs False"
  shows "ainv ts hs"
proof (rule ainvI)
  fix p cs assume p: "p < length ts" "ts ! p = In_asyncio_wait cs True"
  from ainvD_woken [OF a this] h(1) [of p] p show "Step p \<in> set hs" by auto
next
  fix p cs x
  assume p: "p < length ts" "ts ! p = In_asyncio_wait cs False" and x: "x \<in> set cs" "is_done (ts ! x)"
  from ainvD_done [OF a p x] h(2) [of p x] p show "Done_callback p x \<in> set hs" by auto
qed

lemma ainv_wake:
  assumes a: "ainv ts q" and t: "ts ! t = In_wait m False"
  shows "ainv (ts[t := In_wait m True]) (q @ [Step t])"
proof (rule ainvI)
  fix p cs assume p: "p < length (ts[t := In_wait m True])" "ts[t := In_wait m True] ! p = In_asyncio_wait cs True"
  then have pt: "p \<noteq> t" by (cases "p = t") auto
  with p have "p < length ts" "ts ! p = In_asyncio_wait cs True" by simp_all
  from ainvD_woken [OF a this] show "Step p \<in> set (q @ [Step t])" by simp
next
  fix p cs x
  assume p: "p < length (ts[t := In_wait m True])" "ts[t := In_wait m True] ! p = In_asyncio_wait cs False"
    and x: "x \<in> set cs" "is_done (ts[t := In_wait m True] ! x)"
  from p have pt: "p \<noteq> t" by (cases "p = t") auto
  with p have p': "p < length ts" "ts ! p = In_asyncio_wait cs False" by simp_all
  have "is_done (ts ! x)" using x(2) by (cases "x = t \<and> t < length ts") (auto simp: upd_beyond)
  from ainvD_done [OF a p' x(1) this] show "Done_callback p x \<in> set (q @ [Step t])" by simp
qed

lemma ainv_append_tasks:
  assumes a: "ainv ts q" and f: "finv ts dc"
    and new: "\<forall>c \<in> set new. \<exists>cl. c = Created cl"
  shows "ainv (ts @ new) q"
proof -
  have lt: "p < length ts" if "p < length (ts @ new)" "children ((ts @ new) ! p) \<noteq> []" for p
  proof (rule ccontr)
    assume "\<not> p < length ts"
    with that(1) have "(ts @ new) ! p \<in> set new" by (simp add: nth_append)
    with new that(2) show False by auto
  qed
  show ?thesis
  proof (rule ainvI)
    fix p cs assume p: "p < length (ts @ new)" "(ts @ new) ! p = In_asyncio_wait cs True"
    have "p < length ts"
    proof (rule ccontr)
      assume "\<not> p < length ts"
      with p(1) have "(ts @ new) ! p \<in> set new" by (simp add: nth_append)
      with new p(2) show False by auto
    qed
    with p have "ts ! p = In_asyncio_wait cs True" by (simp add: nth_append)
    from ainvD_woken [OF a \<open>p < length ts\<close> this] show "Step p \<in> set q" .
  next
    fix p cs x
    assume p: "p < length (ts @ new)" "(ts @ new) ! p = In_asyncio_wait cs False"
      and x: "x \<in> set cs" "is_done ((ts @ new) ! x)"
    have "cs = [] \<or> p < length ts" using lt [OF p(1)] p(2) by auto
    with x(1) have pl: "p < length ts" by auto
    with p have p': "ts ! p = In_asyncio_wait cs False" by (simp add: nth_append)
    then have "x \<in> set (children (ts ! p))" using x(1) by simp
    from finvD_child [OF f pl this] have "x < length ts" by simp
    with x(2) have "is_done (ts ! x)" by (simp add: nth_append)
    from ainvD_done [OF a pl p' x(1) this] show "Done_callback p x \<in> set q" .
  qed
qed

lemma ainv_spawn:
  assumes a: "ainv ts (Step t # hs)" and f: "finv ts dc"
    and t: "t < length ts" "ts ! t = Created cl"
    and c: "children c = [length ts ..< length ts + length ms]"
      "\<forall>cs. c \<noteq> In_asyncio_wait cs True" "\<not> is_done c"
  shows "ainv (ts[t := c] @ map (\<lambda>m. Created (Await_message m)) ms)
           (hs @ map Step [length ts ..< length ts + length ms])"
    (is "ainv ?ts ?q")
proof (rule ainvI)
  fix p cs assume p: "p < length ?ts" "?ts ! p = In_asyncio_wait cs True"
  then have pl: "p < length ts" by (cases "p < length ts") (auto simp: nth_append)
  with p c(2) have pt: "p \<noteq> t" by (cases "p = t") (auto simp: nth_append)
  with p pl have "ts ! p = In_asyncio_wait cs True" by (simp add: nth_append)
  from ainvD_woken [OF a pl this] pt show "Step p \<in> set ?q" by simp
next
  fix p cs x
  assume p: "p < length ?ts" "?ts ! p = In_asyncio_wait cs False"
    and x: "x \<in> set cs" "is_done (?ts ! x)"
  from p have pl: "p < length ts" by (cases "p < length ts") (auto simp: nth_append)
  show "Done_callback p x \<in> set ?q"
  proof (cases "p = t")
    case True
    with p pl c(1) x(1) have "length ts \<le> x" "x < length ts + length ms"
      by (auto simp: nth_append)
    then have "?ts ! x = Created (Await_message (ms ! (x - length ts)))"
      by (simp add: nth_append)
    with x(2) show ?thesis by simp
  next
    case False
    with p pl have p': "ts ! p = In_asyncio_wait cs False" by (simp add: nth_append)
    then have "x \<in> set (children (ts ! p))" using x(1) by simp
    from finvD_child [OF f pl this] have xl: "x < length ts" by simp
    have "x \<noteq> t" using x(2) xl c(3) t
      by (cases "x = t") (auto simp: nth_append)
    with x(2) xl have "is_done (ts ! x)" by (simp add: nth_append)
    from ainvD_done [OF a pl p' x(1) this] show ?thesis by simp
  qed
qed

section \<open>The invariant of waiting for all\<close>

lemma is_cb_simps [simp]: "is_cb p (Done_callback p' c) = (p' = p)" "\<not> is_cb p (Step t)"
  by (simp_all add: is_cb_def)

lemma is_raised_simps [simp]:
  "is_raised (Raised e)" "\<not> is_raised (Returned r)" "\<not> is_raised Blocked"
  "\<not> is_raised (Created cl)" "\<not> is_raised (In_wait m f)" "\<not> is_raised (In_gather ms cs n e2)"
  "\<not> is_raised (In_asyncio_wait cs b)"
  by (simp_all add: is_raised_def)

lemma is_raised_done: "is_raised c \<Longrightarrow> is_done c"
  by (cases c) simp_all

lemma ginvD:
  assumes "ginv ts q" "p < length ts" "ts ! p = In_gather ms cs n exc"
  shows "distinct cs"
    and "n + length (filter (is_cb p) q) = length (filter (\<lambda>c. is_done (ts ! c)) cs)"
    and "exc \<noteq> None \<Longrightarrow> Step p \<in> set q"
    and "exc = None \<Longrightarrow> c \<in> set cs \<Longrightarrow> is_raised (ts ! c) \<Longrightarrow> Done_callback p c \<in> set q"
  using assms unfolding ginv_def by blast+

lemma ginvI:
  assumes "\<And>p ms cs n exc. p < length ts \<Longrightarrow> ts ! p = In_gather ms cs n exc \<Longrightarrow>
        distinct cs \<and>
        n + length (filter (is_cb p) q) = length (filter (\<lambda>c. is_done (ts ! c)) cs) \<and>
        (exc \<noteq> None \<longrightarrow> Step p \<in> set q) \<and>
        (exc = None \<longrightarrow> (\<forall>c \<in> set cs. is_raised (ts ! c) \<longrightarrow> Done_callback p c \<in> set q))"
  shows "ginv ts q"
  unfolding ginv_def using assms by blast

lemma length_filter_update_in:
  "distinct cs \<Longrightarrow> t \<in> set cs \<Longrightarrow> \<not> P (ts ! t) \<Longrightarrow> P c \<Longrightarrow> t < length ts \<Longrightarrow>
     length (filter (\<lambda>x. P (ts[t := c] ! x)) cs) = Suc (length (filter (\<lambda>x. P (ts ! x)) cs))"
proof (induction cs)
  case Nil
  then show ?case by simp
next
  case (Cons a cs)
  show ?case
  proof (cases "a = t")
    case True
    with Cons.prems have "t \<notin> set cs" by simp
    then have "\<And>x. x \<in> set cs \<Longrightarrow> ts[t := c] ! x = ts ! x"
      by (metis nth_list_update_neq)
    then have "filter (\<lambda>x. P (ts[t := c] ! x)) cs = filter (\<lambda>x. P (ts ! x)) cs"
      by (intro filter_cong) simp_all
    with True Cons.prems show ?thesis by simp
  next
    case False
    with Cons.prems Cons.IH show ?thesis by simp
  qed
qed

lemma filter_update_notin:
  assumes "t \<notin> set cs"
  shows "filter (\<lambda>x. P (ts[t := c] ! x)) cs = filter (\<lambda>x. P (ts ! x)) cs"
proof -
  from assms have "\<And>x. x \<in> set cs \<Longrightarrow> ts[t := c] ! x = ts ! x"
    by (metis nth_list_update_neq)
  then show ?thesis by (intro filter_cong) simp_all
qed

lemma filter_update_same:
  assumes "P c = P (ts ! t)"
  shows "filter (\<lambda>x. P (ts[t := c] ! x)) cs = filter (\<lambda>x. P (ts ! x)) cs"
proof -
  have "P (ts[t := c] ! x) = P (ts ! x)" for x
    using assms by (cases "x = t"; cases "t < length ts") (simp_all add: upd_beyond)
  then show ?thesis by simp
qed

lemma filter_is_cb_callbacks:
  "filter (is_cb p) (map (\<lambda>p'. Done_callback p' t) cbs) = map (\<lambda>p'. Done_callback p' t) (filter (\<lambda>p'. p' = p) cbs)"
  by (induction cbs) auto

lemma ginv_finish:
  assumes g: "ginv ts (Step t # hs)" and f: "finv ts dc"
    and t: "t < length ts" "\<not> is_final (ts ! t)" and c: "is_done c"
  shows "ginv (ts[t := c]) (hs @ map (\<lambda>p. Done_callback p t) (dc t))"
proof (rule ginvI)
  fix p ms cs n exc
  assume p: "p < length (ts[t := c])" "ts[t := c] ! p = In_gather ms cs n exc"
  with c have pt: "p \<noteq> t" by (cases "p = t") auto
  with p have p': "p < length ts" "ts ! p = In_gather ms cs n exc" by simp_all
  note old = ginvD [OF g p']
  have nd: "\<not> is_done (ts ! t)" using t(2) by (auto dest: is_done_final)
  have ch: "x \<in> set (children (ts ! p))" if "x \<in> set cs" for x using that p' by simp
  have count: "n + length (filter (is_cb p) (hs @ map (\<lambda>p. Done_callback p t) (dc t)))
      = length (filter (\<lambda>x. is_done (ts[t := c] ! x)) cs)"
  proof (cases "t \<in> set cs")
    case True
    from finvD_child [OF f p'(1) ch [OF True]] t(2) have "dc t = [p]" by simp
    moreover have "length (filter (\<lambda>x. is_done (ts[t := c] ! x)) cs)
        = Suc (length (filter (\<lambda>x. is_done (ts ! x)) cs))"
      using old(1) True nd c t(1) by (rule length_filter_update_in)
    ultimately show ?thesis using old(2) by simp
  next
    case False
    have "p \<notin> set (dc t)"
    proof
      assume "p \<in> set (dc t)"
      from finvD_callback [OF f this] p' False show False by simp
    qed
    then have "filter (\<lambda>p'. p' = p) (dc t) = []" by (auto simp: filter_empty_conv)
    then have "filter (is_cb p) (map (\<lambda>p. Done_callback p t) (dc t)) = []"
      by (simp add: filter_is_cb_callbacks)
    with old(2) False show ?thesis by (simp add: filter_update_notin)
  qed
  have p3: "exc \<noteq> None \<longrightarrow> Step p \<in> set (hs @ map (\<lambda>p. Done_callback p t) (dc t))"
    using old(3) pt by auto
  have p4: "exc = None \<longrightarrow> (\<forall>x \<in> set cs. is_raised (ts[t := c] ! x) \<longrightarrow>
      Done_callback p x \<in> set (hs @ map (\<lambda>p. Done_callback p t) (dc t)))"
  proof (intro impI ballI)
    fix x assume e: "exc = None" and x: "x \<in> set cs" "is_raised (ts[t := c] ! x)"
    show "Done_callback p x \<in> set (hs @ map (\<lambda>p. Done_callback p t) (dc t))"
    proof (cases "x = t")
      case True
      from finvD_child [OF f p'(1) ch [OF x(1)]] True t(2) have "dc t = [p]" by simp
      with True show ?thesis by simp
    next
      case False
      with x(2) have "is_raised (ts ! x)" by simp
      from old(4) [OF e x(1) this] show ?thesis by simp
    qed
  qed
  from old(1) count p3 p4
  show "distinct cs \<and>
        n + length (filter (is_cb p) (hs @ map (\<lambda>p. Done_callback p t) (dc t)))
          = length (filter (\<lambda>c'. is_done (ts[t := c] ! c')) cs) \<and>
        (exc \<noteq> None \<longrightarrow> Step p \<in> set (hs @ map (\<lambda>p. Done_callback p t) (dc t))) \<and>
        (exc = None \<longrightarrow> (\<forall>c' \<in> set cs. is_raised (ts[t := c] ! c') \<longrightarrow>
           Done_callback p c' \<in> set (hs @ map (\<lambda>p. Done_callback p t) (dc t))))"
    by blast
qed

text \<open>
  The state of task \<open>t\<close>, whose step was at the head of the queue, changes without
  finishing, or stays; nothing but steps is queued.
\<close>

lemma ginv_update:
  assumes g: "ginv ts (Step t # hs)"
    and c: "\<forall>ms cs n e. c = In_gather ms cs n e \<longrightarrow> ts ! t = c \<and> e = None"
      "is_done c = is_done (ts ! t)" "is_raised c = is_raised (ts ! t)"
    and q': "\<forall>h \<in> set q'. \<exists>x. h = Step x"
  shows "ginv (ts[t := c]) (hs @ q')"
proof (rule ginvI)
  fix p ms cs n exc
  assume p: "p < length (ts[t := c])" "ts[t := c] ! p = In_gather ms cs n exc"
  have p': "p < length ts" "ts ! p = In_gather ms cs n exc" and e: "p = t \<longrightarrow> exc = None"
    using p c(1) by (cases "p = t"; auto)+
  note old = ginvD [OF g p']
  have nocb: "filter (is_cb p) q' = []" using q' by (auto simp: filter_empty_conv)
  have 1: "n + length (filter (is_cb p) (hs @ q')) = length (filter (\<lambda>x. is_done (ts[t := c] ! x)) cs)"
    using old(2) nocb c(2) by (simp add: filter_update_same)
  have 2: "exc \<noteq> None \<longrightarrow> Step p \<in> set (hs @ q')"
    using old(3) e by auto
  have 3: "exc = None \<longrightarrow> (\<forall>x \<in> set cs. is_raised (ts[t := c] ! x) \<longrightarrow> Done_callback p x \<in> set (hs @ q'))"
  proof (intro impI ballI)
    fix x assume "exc = None" and x: "x \<in> set cs" "is_raised (ts[t := c] ! x)"
    have "is_raised (ts ! x)" using x(2) c(3) by (cases "x = t \<and> t < length ts") (auto simp: upd_beyond)
    from old(4) [OF \<open>exc = None\<close> x(1) this] show "Done_callback p x \<in> set (hs @ q')" by simp
  qed
  from old(1) 1 2 3
  show "distinct cs \<and>
        n + length (filter (is_cb p) (hs @ q')) = length (filter (\<lambda>c'. is_done (ts[t := c] ! c')) cs) \<and>
        (exc \<noteq> None \<longrightarrow> Step p \<in> set (hs @ q')) \<and>
        (exc = None \<longrightarrow> (\<forall>c' \<in> set cs. is_raised (ts[t := c] ! c') \<longrightarrow> Done_callback p c' \<in> set (hs @ q')))"
    by blast
qed

lemma ginv_wake:
  assumes g: "ginv ts q" and t: "ts ! t = In_wait m False"
  shows "ginv (ts[t := In_wait m True]) (q @ [Step t])"
proof (rule ginvI)
  fix p ms cs n exc
  assume p: "p < length (ts[t := In_wait m True])" "ts[t := In_wait m True] ! p = In_gather ms cs n exc"
  then have pt: "p \<noteq> t" by (cases "p = t") auto
  with p have p': "p < length ts" "ts ! p = In_gather ms cs n exc" by simp_all
  note old = ginvD [OF g p']
  have same: "is_done (In_wait m True :: 'a coro) = is_done (ts ! t)" using t by simp
  have 1: "n + length (filter (is_cb p) (q @ [Step t]))
      = length (filter (\<lambda>x. is_done (ts[t := In_wait m True] ! x)) cs)"
    using old(2) same by (simp add: filter_update_same)
  have 3: "exc = None \<longrightarrow> (\<forall>x \<in> set cs. is_raised (ts[t := In_wait m True] ! x) \<longrightarrow>
      Done_callback p x \<in> set (q @ [Step t]))"
  proof (intro impI ballI)
    fix x assume "exc = None" and x: "x \<in> set cs" "is_raised (ts[t := In_wait m True] ! x)"
    have "is_raised (ts ! x)" using x(2) by (cases "x = t \<and> t < length ts") (auto simp: upd_beyond)
    from old(4) [OF \<open>exc = None\<close> x(1) this] show "Done_callback p x \<in> set (q @ [Step t])" by simp
  qed
  from old(1,3) 1 3
  show "distinct cs \<and>
        n + length (filter (is_cb p) (q @ [Step t]))
          = length (filter (\<lambda>c'. is_done (ts[t := In_wait m True] ! c')) cs) \<and>
        (exc \<noteq> None \<longrightarrow> Step p \<in> set (q @ [Step t])) \<and>
        (exc = None \<longrightarrow> (\<forall>c' \<in> set cs. is_raised (ts[t := In_wait m True] ! c') \<longrightarrow>
           Done_callback p c' \<in> set (q @ [Step t])))"
    by auto
qed

lemma ginv_append_tasks:
  assumes g: "ginv ts q" and f: "finv ts dc"
    and new: "\<forall>c \<in> set new. \<exists>cl. c = Created cl"
  shows "ginv (ts @ new) q"
proof (rule ginvI)
  fix p ms cs n exc
  assume p: "p < length (ts @ new)" "(ts @ new) ! p = In_gather ms cs n exc"
  have pl: "p < length ts"
  proof (rule ccontr)
    assume "\<not> p < length ts"
    with p(1) have "(ts @ new) ! p \<in> set new" by (simp add: nth_append)
    with new p(2) show False by auto
  qed
  with p have p': "ts ! p = In_gather ms cs n exc" by (simp add: nth_append)
  note old = ginvD [OF g pl p']
  have xl: "x < length ts" if "x \<in> set cs" for x
  proof -
    from that p' have "x \<in> set (children (ts ! p))" by simp
    from finvD_child [OF f pl this] show ?thesis by simp
  qed
  then have same: "\<And>x. x \<in> set cs \<Longrightarrow> (ts @ new) ! x = ts ! x" by (simp add: nth_append)
  then have "filter (\<lambda>x. is_done ((ts @ new) ! x)) cs = filter (\<lambda>x. is_done (ts ! x)) cs"
    by (intro filter_cong) simp_all
  with old same
  show "distinct cs \<and>
        n + length (filter (is_cb p) q) = length (filter (\<lambda>c'. is_done ((ts @ new) ! c')) cs) \<and>
        (exc \<noteq> None \<longrightarrow> Step p \<in> set q) \<and>
        (exc = None \<longrightarrow> (\<forall>c' \<in> set cs. is_raised ((ts @ new) ! c') \<longrightarrow> Done_callback p c' \<in> set q))"
    by simp
qed

lemma ginv_append_steps:
  assumes g: "ginv ts q" and q': "\<forall>h \<in> set q'. \<exists>x. h = Step x"
  shows "ginv ts (q @ q')"
proof (rule ginvI)
  fix p ms cs n exc
  assume p: "p < length ts" "ts ! p = In_gather ms cs n exc"
  note old = ginvD [OF g p]
  have "filter (is_cb p) q' = []" using q' by (auto simp: filter_empty_conv)
  with old
  show "distinct cs \<and>
        n + length (filter (is_cb p) (q @ q')) = length (filter (\<lambda>c'. is_done (ts ! c')) cs) \<and>
        (exc \<noteq> None \<longrightarrow> Step p \<in> set (q @ q')) \<and>
        (exc = None \<longrightarrow> (\<forall>c' \<in> set cs. is_raised (ts ! c') \<longrightarrow> Done_callback p c' \<in> set (q @ q')))"
    by simp
qed

lemma ginv_spawn:
  fixes ts :: "'f coro list"
  assumes g: "ginv ts (Step t # hs)" and f: "finv ts dc" and q: "qinv ts (Step t # hs)"
    and t: "t < length ts" "ts ! t = Created cl"
    and c: "c = In_gather ms [length ts ..< length ts + length ms] 0 None
            \<or> c = In_asyncio_wait [length ts ..< length ts + length ms] False"
  shows "ginv (ts[t := c] @ map (\<lambda>m. Created (Await_message m)) ms)
           (hs @ map Step [length ts ..< length ts + length ms])"
    (is "ginv ?ts ?q")
proof (rule ginvI)
  fix p ms' cs n exc
  assume p: "p < length ?ts" "?ts ! p = In_gather ms' cs n exc"
  from p have pl: "p < length ts" by (cases "p < length ts") (auto simp: nth_append)
  have nosteps: "filter (is_cb p) (map Step [length ts ..< length ts + length ms]) = []"
    by (auto simp: filter_empty_conv)
  show "distinct cs \<and>
        n + length (filter (is_cb p) ?q) = length (filter (\<lambda>c'. is_done (?ts ! c')) cs) \<and>
        (exc \<noteq> None \<longrightarrow> Step p \<in> set ?q) \<and>
        (exc = None \<longrightarrow> (\<forall>c' \<in> set cs. is_raised (?ts ! c') \<longrightarrow> Done_callback p c' \<in> set ?q))"
  proof (cases "p = t")
    case True
    with p pl c have eq: "cs = [length ts ..< length ts + length ms]" "n = 0" "exc = None"
      by (auto simp: nth_append)
    have new: "?ts ! x = Created (Await_message (ms ! (x - length ts)))" if "x \<in> set cs" for x
      using that eq(1) by (auto simp: nth_append)
    have "filter (\<lambda>x. is_done (?ts ! x)) cs = []"
      using new by (auto simp: filter_empty_conv)
    moreover have "filter (is_cb p) hs = []"
    proof -
      have "\<not> is_cb p h" if "h \<in> set hs" for h
      proof (cases h)
        case (Step x)
        then show ?thesis by simp
      next
        case (Done_callback p' x)
        with that have "Done_callback p' x \<in> set (Step t # hs)" by simp
        from qinvD_callback [OF q this] t True Done_callback show ?thesis by auto
      qed
      then show ?thesis by (auto simp: filter_empty_conv)
    qed
    ultimately show ?thesis using eq new nosteps by simp
  next
    case False
    with p pl have p': "ts ! p = In_gather ms' cs n exc" by (simp add: nth_append)
    note old = ginvD [OF g pl p']
    have xl: "x < length ts" if "x \<in> set cs" for x
    proof -
      from that p' have "x \<in> set (children (ts ! p))" by simp
      from finvD_child [OF f pl this] show ?thesis by simp
    qed
    have nd: "\<not> is_done c" "\<not> is_raised c" using c by auto
    have same: "is_done (?ts ! x) = is_done (ts ! x)" "is_raised (?ts ! x) = is_raised (ts ! x)"
      if "x \<in> set cs" for x
      using xl [OF that] nd t by (cases "x = t"; simp add: nth_append)+
    then have "filter (\<lambda>x. is_done (?ts ! x)) cs = filter (\<lambda>x. is_done (ts ! x)) cs"
      by (intro filter_cong) simp_all
    moreover have "exc \<noteq> None \<longrightarrow> Step p \<in> set ?q" using old(3) False by auto
    moreover have "exc = None \<longrightarrow> (\<forall>c' \<in> set cs. is_raised (?ts ! c') \<longrightarrow> Done_callback p c' \<in> set ?q)"
      using old(4) same(2) by auto
    ultimately show ?thesis using old(1,2) nosteps by simp
  qed
qed

text \<open>The done-callback of a \<^verbatim>\<open>gather\<close>, taken from the head of the queue, has run.\<close>

lemma ginv_callback:
  assumes g: "ginv ts (Done_callback p c # hs)"
    and p: "p < length ts" "ts ! p = In_gather ms cs n exc"
    and e: "exc' = None \<longrightarrow> exc = None \<and> \<not> is_raised (ts ! c)"
      "exc' \<noteq> None \<longrightarrow> Step p \<in> set (hs @ q')"
    and q': "\<forall>h \<in> set q'. \<exists>x. h = Step x"
  shows "ginv (ts[p := In_gather ms cs (Suc n) exc']) (hs @ q')"
    (is "ginv ?ts ?q")
proof (rule ginvI)
  fix p' ms' cs' n' exc''
  assume p': "p' < length ?ts" "?ts ! p' = In_gather ms' cs' n' exc''"
  have nocb: "filter (is_cb p') q' = []" using q' by (auto simp: filter_empty_conv)
  have same: "is_done (ts[p := In_gather a b d e'] ! x) = is_done (ts ! x)"
    "is_raised (ts[p := In_gather a b d e'] ! x) = is_raised (ts ! x)" for x a b d e'
    using p by (cases "x = p"; simp)+
  show "distinct cs' \<and>
        n' + length (filter (is_cb p') ?q) = length (filter (\<lambda>c'. is_done (?ts ! c')) cs') \<and>
        (exc'' \<noteq> None \<longrightarrow> Step p' \<in> set ?q) \<and>
        (exc'' = None \<longrightarrow> (\<forall>c' \<in> set cs'. is_raised (?ts ! c') \<longrightarrow> Done_callback p' c' \<in> set ?q))"
  proof (cases "p' = p")
    case True
    with p' p have eq: "ms' = ms" "cs' = cs" "n' = Suc n" "exc'' = exc'" by simp_all
    note old = ginvD [OF g p]
    have "exc' = None \<longrightarrow> (\<forall>x \<in> set cs. is_raised (ts ! x) \<longrightarrow> Done_callback p x \<in> set ?q)"
    proof (intro impI ballI)
      fix x assume n: "exc' = None" and x: "x \<in> set cs" "is_raised (ts ! x)"
      with e(1) have "exc = None" "x \<noteq> c" by auto
      with old(4) [OF this(1) x] show "Done_callback p x \<in> set ?q" by simp
    qed
    with old(1,2) e(2) nocb True eq show ?thesis by (simp add: same)
  next
    case False
    with p' have o: "p' < length ts" "ts ! p' = In_gather ms' cs' n' exc''" by simp_all
    note old = ginvD [OF g o]
    have "exc'' \<noteq> None \<longrightarrow> Step p' \<in> set ?q" using old(3) by auto
    moreover have "exc'' = None \<longrightarrow> (\<forall>x \<in> set cs'. is_raised (ts ! x) \<longrightarrow> Done_callback p' x \<in> set ?q)"
      using old(4) False by auto
    ultimately show ?thesis using old(1,2) nocb False by (simp add: same)
  qed
qed

text \<open>The done-callback of another parent, taken from the head of the queue, has run.\<close>

lemma ginv_pop_callback:
  assumes g: "ginv ts (Done_callback p c # hs)"
    and c': "\<forall>ms cs n e. c' \<noteq> In_gather ms cs n e"
      "p < length ts \<longrightarrow> is_done c' = is_done (ts ! p) \<and> is_raised c' = is_raised (ts ! p)"
    and q': "\<forall>h \<in> set q'. \<exists>x. h = Step x"
  shows "ginv (ts[p := c']) (hs @ q')"
    (is "ginv ?ts ?q")
proof (rule ginvI)
  fix p' ms cs n exc
  assume p': "p' < length ?ts" "?ts ! p' = In_gather ms cs n exc"
  with c'(1) have ne: "p' \<noteq> p" by (cases "p' = p") auto
  with p' have o: "p' < length ts" "ts ! p' = In_gather ms cs n exc" by simp_all
  note old = ginvD [OF g o]
  have nocb: "filter (is_cb p') q' = []" using q' by (auto simp: filter_empty_conv)
  have same: "is_done (?ts ! x) = is_done (ts ! x)" "is_raised (?ts ! x) = is_raised (ts ! x)" for x
    using c'(2) by (cases "x = p"; cases "p < length ts"; simp add: upd_beyond)+
  have "exc \<noteq> None \<longrightarrow> Step p' \<in> set ?q" using old(3) by auto
  moreover have "exc = None \<longrightarrow> (\<forall>x \<in> set cs. is_raised (ts ! x) \<longrightarrow> Done_callback p' x \<in> set ?q)"
    using old(4) ne by auto
  ultimately
  show "distinct cs \<and>
        n + length (filter (is_cb p') ?q) = length (filter (\<lambda>c'. is_done (?ts ! c')) cs) \<and>
        (exc \<noteq> None \<longrightarrow> Step p' \<in> set ?q) \<and>
        (exc = None \<longrightarrow> (\<forall>c' \<in> set cs. is_raised (?ts ! c') \<longrightarrow> Done_callback p' c' \<in> set ?q))"
    using old(1,2) nocb ne by (simp add: same)
qed

section \<open>The invariant of the waiting tasks\<close>

lemma uinvD: "uinv ts q \<Longrightarrow> t < length ts \<Longrightarrow> ts ! t = In_wait m False \<Longrightarrow> Step t \<notin> set q"
  unfolding uinv_def by blast

lemma uinvI:
  "(\<And>t m. t < length ts \<Longrightarrow> ts ! t = In_wait m False \<Longrightarrow> Step t \<notin> set q) \<Longrightarrow> uinv ts q"
  unfolding uinv_def by blast

lemma uinv_finish:
  assumes u: "uinv ts (Step t # hs)" and c: "is_done c"
  shows "uinv (ts[t := c]) (hs @ map (\<lambda>p. Done_callback p t) cbs)"
proof (rule uinvI)
  fix x m assume x: "x < length (ts[t := c])" "ts[t := c] ! x = In_wait m False"
  with c have "x \<noteq> t" by (cases "x = t") auto
  with x have "x < length ts" "ts ! x = In_wait m False" by simp_all
  from uinvD [OF u this] show "Step x \<notin> set (hs @ map (\<lambda>p. Done_callback p t) cbs)" by auto
qed

lemma uinv_update:
  assumes u: "uinv ts (h # hs)" and c: "\<forall>m. c \<noteq> In_wait m False" and q': "set q' \<subseteq> {Step t}"
  shows "uinv (ts[t := c]) (hs @ q')"
proof (rule uinvI)
  fix x m assume x: "x < length (ts[t := c])" "ts[t := c] ! x = In_wait m False"
  with c have ne: "x \<noteq> t" by (cases "x = t") auto
  with x have "x < length ts" "ts ! x = In_wait m False" by simp_all
  from uinvD [OF u this] ne q' show "Step x \<notin> set (hs @ q')" by auto
qed

lemma uinv_pop: "uinv ts (h # hs) \<Longrightarrow> uinv ts hs"
  unfolding uinv_def by auto

lemma uinv_suspend:
  assumes u: "uinv ts (Step t # hs)" and q: "qinv ts (Step t # hs)"
    and t: "t < length ts" "ts ! t = Created cl"
  shows "uinv (ts[t := c]) hs"
proof (rule uinvI)
  fix x m assume x: "x < length (ts[t := c])" "ts[t := c] ! x = In_wait m False"
  show "Step x \<notin> set hs"
  proof (cases "x = t")
    case True
    with qinv_head_created [OF q t] show ?thesis by simp
  next
    case False
    with x have "x < length ts" "ts ! x = In_wait m False" by simp_all
    from uinvD [OF u this] show ?thesis by simp
  qed
qed

lemma uinv_wake:
  assumes u: "uinv ts q" and t: "ts ! t = In_wait m False"
  shows "uinv (ts[t := In_wait m True]) (q @ [Step t])"
proof (rule uinvI)
  fix x m' assume x: "x < length (ts[t := In_wait m True])" "ts[t := In_wait m True] ! x = In_wait m' False"
  then have ne: "x \<noteq> t" by (cases "x = t") auto
  with x have "x < length ts" "ts ! x = In_wait m' False" by simp_all
  from uinvD [OF u this] ne show "Step x \<notin> set (q @ [Step t])" by simp
qed

lemma uinv_append_tasks:
  assumes u: "uinv ts q" and new: "\<forall>c \<in> set new. \<exists>cl. c = Created cl"
    and q': "\<forall>h \<in> set q'. \<exists>x. h = Step x \<and> length ts \<le> x"
  shows "uinv (ts @ new) (q @ q')"
proof (rule uinvI)
  fix x m assume x: "x < length (ts @ new)" "(ts @ new) ! x = In_wait m False"
  have xl: "x < length ts"
  proof (rule ccontr)
    assume "\<not> x < length ts"
    with x(1) have "(ts @ new) ! x \<in> set new" by (simp add: nth_append)
    with new x(2) show False by auto
  qed
  with x have "ts ! x = In_wait m False" by (simp add: nth_append)
  from uinvD [OF u xl this] q' xl show "Step x \<notin> set (q @ q')" by auto
qed

lemma ainv_callback:
  assumes a: "ainv ts (Done_callback p c # hs)"
  shows "ainv (ts[p := In_asyncio_wait cs True]) (hs @ [Step p])"
proof (rule ainvI)
  fix p' cs' assume p': "p' < length (ts[p := In_asyncio_wait cs True])"
    "ts[p := In_asyncio_wait cs True] ! p' = In_asyncio_wait cs' True"
  show "Step p' \<in> set (hs @ [Step p])"
  proof (cases "p' = p")
    case True
    then show ?thesis by simp
  next
    case False
    with p' have "p' < length ts" "ts ! p' = In_asyncio_wait cs' True" by simp_all
    from ainvD_woken [OF a this] show ?thesis by simp
  qed
next
  fix p' cs' x
  assume p': "p' < length (ts[p := In_asyncio_wait cs True])"
    "ts[p := In_asyncio_wait cs True] ! p' = In_asyncio_wait cs' False"
    and x: "x \<in> set cs'" "is_done (ts[p := In_asyncio_wait cs True] ! x)"
  from p' have ne: "p' \<noteq> p" by (cases "p' = p") auto
  with p' have o: "p' < length ts" "ts ! p' = In_asyncio_wait cs' False" by simp_all
  from x(2) have "is_done (ts ! x)" by (cases "x = p \<and> p < length ts") (auto simp: upd_beyond)
  from ainvD_done [OF a o x(1) this] ne show "Done_callback p' x \<in> set (hs @ [Step p])" by simp
qed

lemma wait_inv_at_pop:
  "wait_inv w \<Longrightarrow> ready w = Step t # hs \<Longrightarrow> wait_inv_at t (w\<lparr>ready := hs\<rparr>)"
  by (simp add: wait_inv_def wait_inv_at_def)

lemma wait_inv_at_state [simp]: "wait_inv_at t (w\<lparr>state := s\<rparr>) = wait_inv_at t w"
  by (simp add: wait_inv_at_def)

lemma wait_inv_state [simp]: "wait_inv (w\<lparr>state := s\<rparr>) = wait_inv w"
  by (simp add: wait_inv_def)

lemma wait_inv_at_set_result:
  assumes "wait_inv_at t w"
  shows "wait_inv_at t (set_result w x)"
proof (cases "x < length (tasks w) \<and> (\<exists>m. tasks w ! x = In_wait m False)")
  case False
  then have "set_result w x = w"
    by (auto simp: set_result_def split: coro.splits bool.splits)
  with assms show ?thesis by simp
next
  case True
  then obtain m where x: "x < length (tasks w)" "tasks w ! x = In_wait m False" by blast
  then have eq: "set_result w x = w\<lparr>tasks := (tasks w)[x := In_wait m True], ready := ready w @ [Step x]\<rparr>"
    by (simp add: set_result_def)
  have "ainv ((tasks w)[x := In_wait m True]) ((Step t # ready w) @ [Step x])"
    using assms x by (intro ainv_wake) (simp_all add: wait_inv_at_def)
  moreover have "ginv ((tasks w)[x := In_wait m True]) ((Step t # ready w) @ [Step x])"
    using assms x by (intro ginv_wake) (simp_all add: wait_inv_at_def)
  moreover have "uinv ((tasks w)[x := In_wait m True]) ((Step t # ready w) @ [Step x])"
    using assms x by (intro uinv_wake) (simp_all add: wait_inv_at_def)
  ultimately show ?thesis by (simp add: eq wait_inv_at_def)
qed

lemma wait_inv_at_foldl_set_result:
  "wait_inv_at t w \<Longrightarrow> wait_inv_at t (foldl set_result w xs)"
  by (induction xs arbitrary: w) (simp_all add: wait_inv_at_set_result)

lemma wait_inv_finish:
  assumes si: "sched_inv_at t w" and wa: "wait_inv_at t w"
    and t: "\<not> is_final (tasks w ! t)" and c: "is_done c"
  shows "wait_inv (finish t c w)"
proof -
  have lt: "t < length (tasks w)" using si by (rule sched_inv_at_lt)
  have f: "finv (tasks w) (done_callbacks w)" using si by (simp add: sched_inv_at_def)
  have "ainv ((tasks w)[t := c]) (ready w @ map (\<lambda>p. Done_callback p t) (done_callbacks w t))"
    using wa f lt t c by (intro ainv_finish) (simp_all add: wait_inv_at_def)
  moreover have "ginv ((tasks w)[t := c]) (ready w @ map (\<lambda>p. Done_callback p t) (done_callbacks w t))"
    using wa f lt t c by (intro ginv_finish) (simp_all add: wait_inv_at_def)
  moreover have "uinv ((tasks w)[t := c]) (ready w @ map (\<lambda>p. Done_callback p t) (done_callbacks w t))"
    using wa c by (intro uinv_finish) (simp_all add: wait_inv_at_def)
  ultimately show ?thesis by (simp add: wait_inv_def)
qed

lemma wait_inv_detach_finish:
  assumes si: "sched_inv_at t w" and wa: "wait_inv_at t w"
    and t: "tasks w ! t = In_asyncio_wait cs b" and c: "is_done c"
  shows "wait_inv (finish t c (w\<lparr>done_callbacks := (\<lambda>x. if x \<in> set cs then [] else done_callbacks w x)\<rparr>))"
proof -
  have lt: "t < length (tasks w)" using si by (rule sched_inv_at_lt)
  have f: "finv (tasks w) (done_callbacks w)" using si by (simp add: sched_inv_at_def)
  have "t \<notin> set cs"
  proof
    assume "t \<in> set cs"
    with t have "t \<in> set (children (tasks w ! t))" by simp
    from finvD_child [OF f lt this] show False by simp
  qed
  then have eq: "finish t c (w\<lparr>done_callbacks := (\<lambda>x. if x \<in> set cs then [] else done_callbacks w x)\<rparr>)
      = (finish t c w)\<lparr>done_callbacks := (\<lambda>x. if x \<in> set cs then [] else done_callbacks w x)\<rparr>"
    by (simp add: finish_def)
  have "wait_inv (finish t c w)" using si wa t c by (intro wait_inv_finish) simp_all
  then show ?thesis unfolding eq by (simp add: wait_inv_def)
qed

lemma wait_inv_idle:
  assumes wa: "wait_inv_at t w"
    and t: "\<forall>cs. tasks w ! t \<noteq> In_asyncio_wait cs True"
      "\<forall>ms cs n e. tasks w ! t = In_gather ms cs n e \<longrightarrow> e = None"
  shows "wait_inv w"
proof -
  have "ainv (tasks w) (ready w)"
  proof (rule ainv_pop [where h = "Step t"])
    show "ainv (tasks w) (Step t # ready w)" using wa by (simp add: wait_inv_at_def)
    show "\<forall>cs. tasks w ! t' \<noteq> In_asyncio_wait cs True" if "Step t = Step t'" for t'
      using that t(1) by simp
  qed simp
  moreover have "ginv ((tasks w)[t := tasks w ! t]) (ready w @ [])"
  proof (rule ginv_update)
    show "ginv (tasks w) (Step t # ready w)" using wa by (simp add: wait_inv_at_def)
    show "\<forall>ms cs n e. tasks w ! t = In_gather ms cs n e \<longrightarrow> tasks w ! t = tasks w ! t \<and> e = None"
      using t(2) by blast
  qed simp_all
  moreover have "uinv (tasks w) (ready w)"
    using wa by (auto simp: wait_inv_at_def intro: uinv_pop [where h = "Step t"])
  ultimately show ?thesis by (simp add: wait_inv_def)
qed

lemma wait_inv_suspend:
  assumes si: "sched_inv_at t w" and wa: "wait_inv_at t w"
    and t: "tasks w ! t = Created cl" and c: "c = Blocked \<or> c = In_wait m False"
  shows "wait_inv (w\<lparr>tasks := (tasks w)[t := c]\<rparr>)"
proof -
  have lt: "t < length (tasks w)" using si by (rule sched_inv_at_lt)
  have "ainv ((tasks w)[t := c]) (ready w)"
    using wa t c by (intro ainv_update [where h = "Step t"]) (auto simp: wait_inv_at_def)
  moreover have "ginv ((tasks w)[t := c]) (ready w @ [])"
    using wa t c by (intro ginv_update) (auto simp: wait_inv_at_def)
  moreover have "uinv ((tasks w)[t := c]) (ready w)"
    using wa si lt t by (intro uinv_suspend) (auto simp: wait_inv_at_def sched_inv_at_def)
  ultimately show ?thesis by (simp add: wait_inv_def)
qed

lemma wait_inv_spawn:
  fixes w :: "'f world"
  assumes si: "sched_inv_at t w" and wa: "wait_inv_at t w"
    and t: "tasks w ! t = Created cl"
    and c: "c = In_gather ms (children_of w ms) 0 None \<or> c = In_asyncio_wait (children_of w ms) False"
  shows "wait_inv (spawn_children t ms c w)"
proof -
  have lt: "t < length (tasks w)" using si by (rule sched_inv_at_lt)
  have f: "finv (tasks w) (done_callbacks w)" and q: "qinv (tasks w) (Step t # ready w)"
    using si by (simp_all add: sched_inv_at_def)
  let ?new = "map (\<lambda>m. Created (Await_message m)) ms :: 'f coro list"
  let ?cs = "[length (tasks w) ..< length (tasks w) + length ms]"
  have ch: "children c = ?cs" using c by (auto simp: children_of_def)
  have "ainv ((tasks w)[t := c] @ ?new) (ready w @ map Step ?cs)"
    using wa f lt t ch c by (intro ainv_spawn) (auto simp: wait_inv_at_def)
  moreover have "ginv ((tasks w)[t := c] @ ?new) (ready w @ map Step ?cs)"
    using wa f q lt t c by (intro ginv_spawn) (auto simp: wait_inv_at_def children_of_def)
  moreover have "uinv ((tasks w)[t := c] @ ?new) (ready w @ map Step ?cs)"
  proof (rule uinv_append_tasks)
    have "uinv ((tasks w)[t := c]) (ready w @ [])"
      using wa c by (intro uinv_update [where h = "Step t"]) (auto simp: wait_inv_at_def)
    then show "uinv ((tasks w)[t := c]) (ready w)" by simp
  qed auto
  ultimately show ?thesis by (simp add: wait_inv_def spawn_children_def Let_def)
qed

lemma wait_inv_step:
  fixes w :: "'f world"
  assumes wi: "world_inv w" and si: "sched_inv_at t w" and wa: "wait_inv_at t w"
  shows "wait_inv (step t w)"
proof -
  have lt: "t < length (tasks w)" using si by (rule sched_inv_at_lt)
  show ?thesis
  proof (cases "tasks w ! t")
    case (Created cl)
    show ?thesis
    proof (cases cl)
      case (Protocol_x_decoder message)
      from step_decoder [OF wi lt Created [unfolded Protocol_x_decoder]]
      show ?thesis
      proof (elim disjE conjE exE)
        fix e assume "step t w = finish t (Raised e) w"
        with si wa Created show ?thesis by (simp add: wait_inv_finish)
      next
        fix m c kvs P
        assume h: "step t w = finish t (Returned RNone)
                          ((foldl set_result w (waiters c))\<lparr>state := (state w)(m \<mapsto> Val P)\<rparr>)"
        let ?W = "(foldl set_result w (waiters c))\<lparr>state := (state w)(m \<mapsto> Val P)\<rparr>"
        have "sched_inv_at t ?W" using si by (simp add: sched_inv_at_foldl_set_result)
        moreover have "wait_inv_at t ?W" using wa by (simp add: wait_inv_at_foldl_set_result)
        moreover have "\<not> is_final (tasks ?W ! t)"
          using lt Created by (simp add: tasks_foldl_set_result)
        ultimately show ?thesis unfolding h by (intro wait_inv_finish) simp_all
      qed
    next
      case (Await_message m)
      from step_await_message [OF wi lt Created [unfolded Await_message]]
      show ?thesis
      proof (elim disjE conjE exE)
        assume "step t w = finish t (Raised (KeyError (m @ ''_event''))) w"
        with si wa Created show ?thesis by (simp add: wait_inv_finish)
      next
        fix c
        assume st: "step t w = w\<lparr>state := (state w)(m @ ''_event'' \<mapsto> Cond (c\<lparr>waiters := waiters c @ [t]\<rparr>)),
                             tasks := (tasks w)[t := In_wait m False]\<rparr>"
        from wait_inv_suspend [OF si wa Created, of "In_wait m False" m]
        show ?thesis unfolding st by (simp add: wait_inv_def)
      qed
    next
      case (Await_all_messages ms)
      then have "step t w = await_all_messages t ms w"
        using lt Created by (simp add: step_def)
      then show ?thesis using si wa Created
        by (simp add: await_all_messages_def wait_inv_finish wait_inv_spawn)
    next
      case (Await_any_messages ms)
      then have "step t w = await_any_messages t ms w"
        using lt Created by (simp add: step_def)
      then show ?thesis using si wa Created
        by (simp add: await_any_messages_def wait_inv_finish wait_inv_spawn)
    qed
  next
    case (In_wait m f)
    show ?thesis
    proof (cases f)
      case True
      from In_wait True have "tasks w ! t = In_wait m True" by simp
      from step_wakeup [OF wi lt this]
      obtain c where st: "step t w = finish t (Returned (RStr m))
               (w\<lparr>state := (state w)(m @ ''_event'' \<mapsto> Cond (c\<lparr>waiters := remove1 t (waiters c)\<rparr>))\<rparr>)"
        by blast
      show ?thesis unfolding st using si wa In_wait by (intro wait_inv_finish) simp_all
    next
      case False
      with In_wait wa show ?thesis by (simp add: step_idle wait_inv_idle)
    qed
  next
    case (In_gather ms cs n exc)
    then have st: "step t w = await_all_messages_wakeup t ms cs n exc w"
      using lt by (simp add: step_def)
    show ?thesis
    proof (cases exc)
      case None
      with In_gather wa have "wait_inv w" by (intro wait_inv_idle) auto
      then show ?thesis unfolding st using si wa In_gather None
        by (auto simp: await_all_messages_wakeup_def wait_inv_finish)
    next
      case (Some e)
      then show ?thesis unfolding st using si wa In_gather
        by (auto simp: await_all_messages_wakeup_def wait_inv_finish)
    qed
  next
    case (In_asyncio_wait cs woken)
    show ?thesis
    proof (cases woken)
      case True
      then have "step t w = await_any_messages_wakeup t cs w"
        using lt In_asyncio_wait by (simp add: step_def)
      then show ?thesis using si wa In_asyncio_wait
        by (auto simp: await_any_messages_wakeup_def Let_def wait_inv_detach_finish split: sum.splits)
    next
      case False
      with In_asyncio_wait wa show ?thesis by (simp add: step_idle wait_inv_idle)
    qed
  next
    case Blocked
    with wa show ?thesis by (simp add: step_idle wait_inv_idle)
  next
    case (Returned r)
    with wa show ?thesis by (simp add: step_idle wait_inv_idle)
  next
    case (Raised e)
    with wa show ?thesis by (simp add: step_idle wait_inv_idle)
  qed
qed

lemma wait_inv_done_callback:
  fixes w :: "'f world"
  assumes si: "sched_inv w" and wa: "wait_inv w" and r: "ready w = Done_callback p c # hs"
  shows "wait_inv (done_callback p c (w\<lparr>ready := hs\<rparr>))"
proof -
  let ?w = "w\<lparr>ready := hs\<rparr>"
  have q: "qinv (tasks w) (Done_callback p c # hs)"
    using si r by (simp add: sched_inv_def)
  have a: "ainv (tasks w) (Done_callback p c # hs)" and g: "ginv (tasks w) (Done_callback p c # hs)"
    and u: "uinv (tasks w) (Done_callback p c # hs)"
    using wa r by (simp_all add: wait_inv_def)
  have lt: "p < length (tasks w)" "c < length (tasks w)"
    using qinvD_callback [OF q, of p c] by simp_all
  have base: "wait_inv ?w"
    if "\<forall>ms cs n e. tasks w ! p \<noteq> In_gather ms cs n e" "\<forall>cs. tasks w ! p \<noteq> In_asyncio_wait cs False"
  proof -
    have "ainv (tasks w) hs"
      using a that(2) by (auto intro: ainv_pop [where h = "Done_callback p c"])
    moreover have "ginv ((tasks w)[p := tasks w ! p]) (hs @ [])"
      using g that(1) by (intro ginv_pop_callback) simp_all
    moreover have "uinv (tasks w) hs" using u by (rule uinv_pop)
    ultimately show ?thesis by (simp add: wait_inv_def)
  qed
  show ?thesis
  proof (cases "tasks w ! p")
    case (In_gather ms cs n exc)
    have "\<exists>exc' q'. tasks (done_callback p c ?w) = (tasks w)[p := In_gather ms cs (Suc n) exc'] \<and>
            ready (done_callback p c ?w) = hs @ q' \<and> set q' \<subseteq> {Step p} \<and>
            (exc' = None \<longrightarrow> exc = None \<and> \<not> is_raised (tasks w ! c)) \<and>
            (exc' \<noteq> None \<longrightarrow> exc \<noteq> None \<or> q' = [Step p])"
    proof (cases "exc \<noteq> None \<or> n = length cs")
      case True
      have "exc \<noteq> None"
      proof
        assume e: "exc = None"
        with True have "n = length cs" by simp
        moreover have "length (filter (\<lambda>c. is_done (tasks w ! c)) cs) \<le> length cs"
          by (rule length_filter_le)
        moreover have "n + Suc (length (filter (is_cb p) hs)) = length (filter (\<lambda>c. is_done (tasks w ! c)) cs)"
          using ginvD(2) [OF g lt(1) In_gather] by simp
        ultimately show False by linarith
      qed
      then obtain y where "exc = Some y" by blast
      with lt In_gather show ?thesis
        by (intro exI [of _ exc] exI [of _ "[]"]) (simp add: done_callback_def gather_done_callback_def)
    next
      case False
      then have e: "exc = None" "n \<noteq> length cs" by simp_all
      show ?thesis
      proof (cases "tasks w ! c")
        case (Raised x)
        with e lt In_gather show ?thesis
          by (intro exI [of _ "Some x"] exI [of _ "[Step p]"])
            (simp add: done_callback_def gather_done_callback_def)
      next
        case (Returned x)
        with e lt In_gather show ?thesis
          by (intro exI [of _ None] exI [of _ "if Suc n = length cs then [Step p] else []"])
            (simp add: done_callback_def gather_done_callback_def)
      next
        case (Created x)
        with e lt In_gather show ?thesis
          by (intro exI [of _ None] exI [of _ "if Suc n = length cs then [Step p] else []"])
            (simp add: done_callback_def gather_done_callback_def)
      next
        case (In_wait x y)
        with e lt In_gather show ?thesis
          by (intro exI [of _ None] exI [of _ "if Suc n = length cs then [Step p] else []"])
            (simp add: done_callback_def gather_done_callback_def)
      next
        case (In_gather x1 x2 x3 x4)
        with e lt \<open>tasks w ! p = In_gather ms cs n exc\<close> show ?thesis
          by (intro exI [of _ None] exI [of _ "if Suc n = length cs then [Step p] else []"])
            (simp add: done_callback_def gather_done_callback_def)
      next
        case (In_asyncio_wait x1 x2)
        with e lt In_gather show ?thesis
          by (intro exI [of _ None] exI [of _ "if Suc n = length cs then [Step p] else []"])
            (simp add: done_callback_def gather_done_callback_def)
      next
        case Blocked
        with e lt In_gather show ?thesis
          by (intro exI [of _ None] exI [of _ "if Suc n = length cs then [Step p] else []"])
            (simp add: done_callback_def gather_done_callback_def)
      qed
    qed
    then obtain exc' q' where
      t': "tasks (done_callback p c ?w) = (tasks w)[p := In_gather ms cs (Suc n) exc']"
      and r': "ready (done_callback p c ?w) = hs @ q'" and q': "set q' \<subseteq> {Step p}"
      and e1: "exc' = None \<longrightarrow> exc = None \<and> \<not> is_raised (tasks w ! c)"
      and e2: "exc' \<noteq> None \<longrightarrow> exc \<noteq> None \<or> q' = [Step p]"
      by blast
    have "ainv ((tasks w)[p := In_gather ms cs (Suc n) exc']) hs"
      using a In_gather by (intro ainv_update [where h = "Done_callback p c"]) auto
    then have "ainv ((tasks w)[p := In_gather ms cs (Suc n) exc']) (hs @ q')" by (rule ainv_append)
    moreover have "ginv ((tasks w)[p := In_gather ms cs (Suc n) exc']) (hs @ q')"
    proof (rule ginv_callback [OF g lt(1) In_gather e1])
      show "exc' \<noteq> None \<longrightarrow> Step p \<in> set (hs @ q')"
        using e2 ginvD(3) [OF g lt(1) In_gather] by auto
      show "\<forall>h\<in>set q'. \<exists>x. h = Step x" using q' by auto
    qed
    moreover have "uinv ((tasks w)[p := In_gather ms cs (Suc n) exc']) (hs @ q')"
      using u q' by (intro uinv_update [where h = "Done_callback p c"]) simp_all
    ultimately show ?thesis using t' r' by (simp add: wait_inv_def)
  next
    case (In_asyncio_wait cs woken)
    show ?thesis
    proof (cases woken)
      case True
      with lt In_asyncio_wait have "done_callback p c ?w = ?w"
        by (simp add: done_callback_def wait_done_callback_def)
      with base In_asyncio_wait True show ?thesis by simp
    next
      case False
      with lt In_asyncio_wait
      have eq: "tasks (done_callback p c ?w) = (tasks w)[p := In_asyncio_wait cs True]"
        "ready (done_callback p c ?w) = hs @ [Step p]"
        by (simp_all add: done_callback_def wait_done_callback_def)
      have "ainv ((tasks w)[p := In_asyncio_wait cs True]) (hs @ [Step p])"
        using a by (rule ainv_callback)
      moreover have "ginv ((tasks w)[p := In_asyncio_wait cs True]) (hs @ [Step p])"
        using g In_asyncio_wait by (intro ginv_pop_callback) simp_all
      moreover have "uinv ((tasks w)[p := In_asyncio_wait cs True]) (hs @ [Step p])"
        using u by (intro uinv_update [where h = "Done_callback p c"]) simp_all
      ultimately show ?thesis using eq by (simp add: wait_inv_def)
    qed
  qed (use base lt in \<open>simp_all add: done_callback_def\<close>)
qed

lemma wait_inv_act:
  fixes w :: "'f world"
  assumes wi: "world_inv w" and si: "sched_inv w" and wa: "wait_inv w"
  shows "wait_inv (act w a)"
proof (cases a)
  case (Create_task cl)
  have f: "finv (tasks w) (done_callbacks w)" using si by (simp add: sched_inv_def)
  have "ainv (tasks w @ [Created cl]) (ready w)"
    using wa f by (intro ainv_append_tasks) (simp_all add: wait_inv_def)
  then have "ainv (tasks w @ [Created cl]) (ready w @ [Step (length (tasks w))])"
    by (rule ainv_append)
  moreover have "ginv (tasks w @ [Created cl]) (ready w)"
    using wa f by (intro ginv_append_tasks) (simp_all add: wait_inv_def)
  then have "ginv (tasks w @ [Created cl]) (ready w @ [Step (length (tasks w))])"
    by (rule ginv_append_steps) simp
  moreover have "uinv (tasks w @ [Created cl]) (ready w @ [Step (length (tasks w))])"
    using wa by (intro uinv_append_tasks) (simp_all add: wait_inv_def)
  ultimately show ?thesis using Create_task by (simp add: wait_inv_def)
next
  case Loop
  show ?thesis
  proof (cases "ready w")
    case Nil
    with Loop wa show ?thesis by simp
  next
    case (Cons h hs)
    show ?thesis
    proof (cases h)
      case (Step t)
      have "world_inv (w\<lparr>ready := hs\<rparr>)" using wi by simp
      moreover have "sched_inv_at t (w\<lparr>ready := hs\<rparr>)"
        using si Cons Step by (intro sched_inv_at_pop) simp_all
      moreover have "wait_inv_at t (w\<lparr>ready := hs\<rparr>)"
        using wa Cons Step by (intro wait_inv_at_pop) simp_all
      ultimately have "wait_inv (step t (w\<lparr>ready := hs\<rparr>))" by (rule wait_inv_step)
      with Loop Cons Step show ?thesis by simp
    next
      case (Done_callback p c)
      with wait_inv_done_callback [OF si wa, of p c hs] Loop Cons show ?thesis by simp
    qed
  qed
qed

lemma wait_inv_exec:
  "world_inv w \<Longrightarrow> sched_inv w \<Longrightarrow> wait_inv w \<Longrightarrow> wait_inv (exec acts w)"
  by (induction acts arbitrary: w) (simp_all add: wait_inv_act sched_inv_act world_inv_act)

lemma wait_inv_world0: "wait_inv world0"
  by (simp add: wait_inv_def world0_def ainv_def ginv_def uinv_def)

section \<open>Waiting for all\<close>

lemma lt_tasks_exec: "world_inv w \<Longrightarrow> x < length (tasks w) \<Longrightarrow> x < length (tasks (exec acts w))"
  by (induction acts arbitrary: w) (simp_all add: lt_tasks_act world_inv_act)

lemma reachable_inv:
  "world_inv (exec acts0 world0) \<and> sched_inv (exec acts0 world0) \<and> wait_inv (exec acts0 world0)"
  by (simp add: world_inv_exec world_inv_world0 sched_inv_exec sched_inv_world0
      wait_inv_exec wait_inv_world0)

text \<open>The first action after which a property of the state of task \<open>p\<close> is lost.\<close>

lemma first_change:
  assumes "P (tasks w ! p)" "\<not> P (tasks (exec acts w) ! p)"
  shows "\<exists>pre a post. acts = pre @ a # post \<and> P (tasks (exec pre w) ! p) \<and>
           \<not> P (tasks (act (exec pre w) a) ! p)"
  using assms(2)
proof (induction acts rule: rev_induct)
  case Nil
  with assms(1) show ?case by simp
next
  case (snoc a xs)
  show ?case
  proof (cases "P (tasks (exec xs w) ! p)")
    case True
    with snoc.prems have "xs @ [a] = xs @ a # [] \<and> P (tasks (exec xs w) ! p) \<and>
        \<not> P (tasks (act (exec xs w) a) ! p)"
      by (simp add: exec_append)
    then show ?thesis by blast
  next
    case False
    from snoc.IH [OF this] obtain pre b post where
      "xs = pre @ b # post" "P (tasks (exec pre w) ! p)" "\<not> P (tasks (act (exec pre w) b) ! p)"
      by blast
    then have "xs @ [a] = pre @ b # (post @ [a]) \<and> P (tasks (exec pre w) ! p) \<and>
        \<not> P (tasks (act (exec pre w) b) ! p)"
      by simp
    then show ?thesis by blast
  qed
qed

text \<open>A task that has not started changes by its own first step only.\<close>

lemma act_created:
  fixes w :: "'f world"
  assumes wi: "world_inv w" and p: "p < length (tasks w)" "tasks w ! p = Created cl"
  shows "tasks (act w a) ! p = Created cl
       \<or> (a = Loop \<and> (\<exists>hs. ready w = Step p # hs \<and> act w a = step p (w\<lparr>ready := hs\<rparr>)))"
proof (cases a)
  case (Create_task c)
  with p show ?thesis by (simp add: nth_append)
next
  case Loop
  show ?thesis
  proof (cases "ready w")
    case Nil
    with Loop p show ?thesis by simp
  next
    case (Cons h hs)
    have wi': "world_inv (w\<lparr>ready := hs\<rparr>)" using wi by simp
    show ?thesis
    proof (cases h)
      case (Step t)
      show ?thesis
      proof (cases "t = p")
        case True
        with Loop Cons Step show ?thesis by simp
      next
        case False
        from step_other [OF wi', of p t] p False
        have "tasks (step t (w\<lparr>ready := hs\<rparr>)) ! p = Created cl" by auto
        with Loop Cons Step show ?thesis by simp
      qed
    next
      case (Done_callback p' c)
      have "tasks (done_callback p' c (w\<lparr>ready := hs\<rparr>)) ! p = Created cl"
      proof (cases "p' = p")
        case True
        with p show ?thesis by (simp add: done_callback_def)
      next
        case False
        then show ?thesis using p by (simp add: done_callback_other)
      qed
      with Loop Cons Done_callback show ?thesis by simp
    qed
  qed
qed

text \<open>What one action does to a task suspended in \<^verbatim>\<open>gather\<close>.\<close>

lemma act_gather:
  fixes w :: "'f world"
  assumes wi: "world_inv w" and p: "p < length (tasks w)" "tasks w ! p = In_gather ms cs n exc"
  shows "tasks (act w a) ! p = In_gather ms cs n exc
       \<or> (a = Loop \<and> (\<exists>c hs exc'. ready w = Done_callback p c # hs \<and>
             tasks (act w a) ! p = In_gather ms cs (Suc n) exc' \<and>
             (exc' = exc \<or> (exc = None \<and> tasks w ! c = Raised (the exc') \<and> exc' \<noteq> None))))
       \<or> (a = Loop \<and> (\<exists>hs. ready w = Step p # hs) \<and>
             ((exc = None \<and> n = length cs \<and> tasks (act w a) ! p = Returned (RList ms))
              \<or> (\<exists>e. exc = Some e \<and> tasks (act w a) ! p = Raised e)))"
proof (cases a)
  case (Create_task c)
  with p show ?thesis by (simp add: nth_append)
next
  case Loop
  show ?thesis
  proof (cases "ready w")
    case Nil
    with Loop p show ?thesis by simp
  next
    case (Cons h hs)
    have wi': "world_inv (w\<lparr>ready := hs\<rparr>)" using wi by simp
    show ?thesis
    proof (cases h)
      case (Step t)
      show ?thesis
      proof (cases "t = p")
        case True
        have "act w a = await_all_messages_wakeup p ms cs n exc (w\<lparr>ready := hs\<rparr>)"
          using Loop Cons Step True p by (simp add: step_def)
        then show ?thesis using Loop Cons Step True p
          by (auto simp: await_all_messages_wakeup_def split: option.splits)
      next
        case False
        from step_other [OF wi', of p t] p False
        have "tasks (step t (w\<lparr>ready := hs\<rparr>)) ! p = In_gather ms cs n exc" by auto
        with Loop Cons Step show ?thesis by simp
      qed
    next
      case (Done_callback p' c)
      show ?thesis
      proof (cases "p' = p")
        case False
        then have "tasks (done_callback p' c (w\<lparr>ready := hs\<rparr>)) ! p = In_gather ms cs n exc"
          using p by (simp add: done_callback_other)
        with Loop Cons Done_callback show ?thesis by simp
      next
        case True
        show ?thesis
        proof (cases "c < length (tasks w)")
          case False
          with Loop Cons Done_callback p show ?thesis by (simp add: done_callback_def)
        next
          case c: True
          have eq: "act w a = gather_done_callback p c ms cs n exc (w\<lparr>ready := hs\<rparr>)"
            using Loop Cons Done_callback True p c by (simp add: done_callback_def)
          have "\<exists>exc'. tasks (act w a) ! p = In_gather ms cs (Suc n) exc' \<and>
             (exc' = exc \<or> (exc = None \<and> tasks w ! c = Raised (the exc') \<and> exc' \<noteq> None))"
            unfolding eq using p
            by (cases "tasks w ! c") (auto simp: gather_done_callback_def)
          with Loop Cons Done_callback True show ?thesis by blast
        qed
      qed
    qed
  qed
qed

lemma gather_exec:
  fixes w :: "'f world"
  assumes "world_inv w" "p < length (tasks w)" "tasks w ! p = In_gather ms cs n exc"
  shows "(\<exists>n' exc'. tasks (exec acts w) ! p = In_gather ms cs n' exc') \<or> is_final (tasks (exec acts w) ! p)"
proof (induction acts rule: rev_induct)
  case Nil
  with assms show ?case by simp
next
  case (snoc a xs)
  have wi: "world_inv (exec xs w)" using assms(1) by (rule world_inv_exec)
  have lt: "p < length (tasks (exec xs w))" using assms(1,2) by (rule lt_tasks_exec)
  from snoc.IH show ?case
  proof
    assume "\<exists>n' exc'. tasks (exec xs w) ! p = In_gather ms cs n' exc'"
    then obtain n' exc' where "tasks (exec xs w) ! p = In_gather ms cs n' exc'" by blast
    from act_gather [OF wi lt this, of a] show ?thesis
      by (auto simp: exec_append)
  next
    assume "is_final (tasks (exec xs w) ! p)"
    with act_final [OF wi lt this, of a] show ?thesis by (simp add: exec_append)
  qed
qed

text \<open>When every callback of a \<^verbatim>\<open>gather\<close> has run and none brought an exception, every
  child has returned.\<close>

lemma gather_complete:
  assumes g: "ginv ts q" and p: "p < length ts" "ts ! p = In_gather ms cs (length cs) None"
    and c: "c \<in> set cs"
  shows "\<exists>r. ts ! c = Returned r"
proof -
  note old = ginvD [OF g p]
  have le: "length (filter (\<lambda>c. is_done (ts ! c)) cs) \<le> length cs" by (rule length_filter_le)
  with old(2) have "length (filter (is_cb p) q) = 0" by linarith
  then have none: "filter (is_cb p) q = []" by simp
  have d: "is_done (ts ! c)"
  proof (rule ccontr)
    assume "\<not> is_done (ts ! c)"
    with c have "length (filter (\<lambda>c. is_done (ts ! c)) cs) < length cs"
      by (rule length_filter_less)
    with old(2) show False by linarith
  qed
  have "\<not> is_raised (ts ! c)"
  proof
    assume "is_raised (ts ! c)"
    from old(4) [OF refl c this] have "Done_callback p c \<in> set (filter (is_cb p) q)" by simp
    with none show False by simp
  qed
  with d show ?thesis by (cases "ts ! c") simp_all
qed

text \<open>
  C4.  In any world the loop can reach from the initial one, let task \<open>p\<close> be a call of
  \<^verbatim>\<open>await_all_messages\<close> on the names \<open>ms\<close> that has not started.  If the call has
  returned after the actions \<open>acts\<close>, it has returned the names it was given, and every
  name \<open>m\<close> of \<open>ms\<close> was notified after the call began and before it resolved: at some
  moment of \<open>acts\<close> at which the call was suspended in \<^verbatim>\<open>gather\<close>, the handle the loop
  ran was a decoder dispatching a message of type \<open>m\<close>.
\<close>

theorem C4_all_wait_complete:
  fixes w :: "'f world"
  assumes "w = exec acts0 world0"
    and "p < length (tasks w)" "tasks w ! p = Created (Await_all_messages ms)"
    and "tasks (exec acts w) ! p = Returned r"
  shows "r = RList ms \<and>
         (\<forall>m \<in> set ms. \<exists>pre post cs n e. acts = pre @ Loop # post \<and>
              tasks (exec pre w) ! p = In_gather ms cs n e \<and> dispatches m (exec pre w))"
proof -
  have wi: "world_inv w" and si: "sched_inv w" and wa: "wait_inv w"
    unfolding assms(1) using reachable_inv [of acts0] by simp_all
  let ?P = "\<lambda>c :: 'f coro. c = Created (Await_all_messages ms)"
  have "\<not> ?P (tasks (exec acts w) ! p)" using assms(4) by simp
  from first_change [of ?P, OF assms(3) this] obtain a1 a post1 where
    a0: "acts = a1 @ a # post1" "tasks (exec a1 w) ! p = Created (Await_all_messages ms)"
    "tasks (act (exec a1 w) a) ! p \<noteq> Created (Await_all_messages ms)"
    by blast
  define w1 where "w1 = exec a1 w"
  note a = a0 [folded w1_def]
  have wi1: "world_inv w1" unfolding w1_def using wi by (rule world_inv_exec)
  have si1: "sched_inv w1" unfolding w1_def using wi si by (rule sched_inv_exec)
  have wa1: "wait_inv w1" unfolding w1_def using wi si wa by (rule wait_inv_exec)
  have lt1: "p < length (tasks w1)" unfolding w1_def using wi assms(2) by (rule lt_tasks_exec)
  from act_created [OF wi1 lt1 a(2), of a] a(3) obtain hs where
    l: "a = Loop" "ready w1 = Step p # hs" "act w1 a = step p (w1\<lparr>ready := hs\<rparr>)"
    by blast
  define ws where "ws = act w1 Loop"
  have ws: "ws = await_all_messages p ms (w1\<lparr>ready := hs\<rparr>)"
    unfolding ws_def using l lt1 a(2) by (simp add: step_def)
  have wis: "world_inv ws" unfolding ws_def using wi1 by (rule world_inv_act)
  have sis: "sched_inv ws" unfolding ws_def using wi1 si1 by (rule sched_inv_act)
  have was: "wait_inv ws" unfolding ws_def using wi1 si1 wa1 by (rule wait_inv_act)
  have lts: "p < length (tasks ws)" unfolding ws_def using wi1 lt1 by (rule lt_tasks_act)
  have fin: "tasks (exec post1 ws) ! p = Returned r"
    unfolding ws_def w1_def using assms(4) a(1) l(1) by (simp add: exec_append)
  show ?thesis
  proof (cases "ms = []")
    case True
    then have "tasks ws ! p = Returned (RList ms)"
      unfolding ws using lt1 by (simp add: await_all_messages_def)
    with final_exec [OF wis lts, of post1] fin True show ?thesis by simp
  next
    case False
    let ?L = "length (tasks w1)"
    let ?cs = "[?L ..< ?L + length ms]"
    have tws: "tasks ws = (tasks w1)[p := In_gather ms ?cs 0 None] @ map (\<lambda>m. Created (Await_message m)) ms"
      unfolding ws using False by (simp add: await_all_messages_def spawn_children_def children_of_def Let_def)
    have ps: "tasks ws ! p = In_gather ms ?cs 0 None" unfolding tws using lt1 by (simp add: nth_append)
    let ?Q = "\<lambda>c :: 'f coro. \<exists>n e. c = In_gather ms ?cs n e"
    have "?Q (tasks ws ! p)" using ps by simp
    moreover have "\<not> ?Q (tasks (exec post1 ws) ! p)" using fin by simp
    ultimately obtain b1 b post2 where
      b: "post1 = b1 @ b # post2" "?Q (tasks (exec b1 ws) ! p)"
      "\<not> ?Q (tasks (act (exec b1 ws) b) ! p)"
      using first_change [of ?Q ws p post1] by blast
    define w2 where "w2 = exec b1 ws"
    from b(2) obtain n e where p2: "tasks w2 ! p = In_gather ms ?cs n e" unfolding w2_def by blast
    have wi2: "world_inv w2" unfolding w2_def using wis by (rule world_inv_exec)
    have wa2: "wait_inv w2" unfolding w2_def using wis sis was by (rule wait_inv_exec)
    have lt2: "p < length (tasks w2)" unfolding w2_def using wis lts by (rule lt_tasks_exec)
    have lt3: "p < length (tasks (act w2 b))" using wi2 lt2 by (rule lt_tasks_act)
    have fin2: "tasks (exec post2 (act w2 b)) ! p = Returned r"
      unfolding w2_def using fin b(1) by (simp add: exec_append)
    from act_gather [OF wi2 lt2 p2, of b] b(3) [folded w2_def]
    have "(e = None \<and> n = length ?cs \<and> tasks (act w2 b) ! p = Returned (RList ms))
        \<or> (\<exists>x. tasks (act w2 b) ! p = Raised x)"
      by auto
    then have res: "e = None \<and> n = length ?cs \<and> r = RList ms"
    proof
      assume h: "e = None \<and> n = length ?cs \<and> tasks (act w2 b) ! p = Returned (RList ms)"
      then have "is_final (tasks (act w2 b) ! p)" by simp
      from final_exec [OF world_inv_act [OF wi2] lt3 this, of post2] fin2 h show ?thesis by simp
    next
      assume "\<exists>x. tasks (act w2 b) ! p = Raised x"
      then obtain x where x: "tasks (act w2 b) ! p = Raised x" by blast
      then have "is_final (tasks (act w2 b) ! p)" by simp
      from final_exec [OF world_inv_act [OF wi2] lt3 this, of post2] fin2 x show ?thesis by simp
    qed
    with p2 have p2': "tasks w2 ! p = In_gather ms ?cs (length ?cs) None" by simp
    have g2: "ginv (tasks w2) (ready w2)" using wa2 by (simp add: wait_inv_def)
    have "\<exists>pre post cs n e. acts = pre @ Loop # post \<and>
              tasks (exec pre w) ! p = In_gather ms cs n e \<and> dispatches m (exec pre w)"
      if "m \<in> set ms" for m
    proof -
      from that obtain i where i: "i < length ms" "ms ! i = m" by (auto simp: in_set_conv_nth)
      let ?c = "?L + i"
      have c: "?c \<in> set ?cs" using i(1) by simp
      from gather_complete [OF g2 lt2 p2' c] obtain r' where r': "tasks w2 ! ?c = Returned r'"
        by blast
      have cl: "?c < length (tasks ws)" unfolding tws using i(1) by simp
      have cc: "tasks ws ! ?c = Created (Await_message m)" unfolding tws using i by (simp add: nth_append)
      from created_returns [OF wis cl cc r' [unfolded w2_def]] obtain pre' post' where
        d: "b1 = pre' @ Loop # post'" "dispatches m (exec pre' ws)" by blast
      have "(\<exists>n' e'. tasks (exec pre' ws) ! p = In_gather ms ?cs n' e')"
      proof (rule ccontr)
        assume "\<not> ?thesis"
        with gather_exec [OF wis lts ps, of pre'] have f: "is_final (tasks (exec pre' ws) ! p)"
          by blast
        have "tasks (exec (Loop # post') (exec pre' ws)) ! p = tasks (exec pre' ws) ! p"
          using wis lts f by (intro final_exec world_inv_exec lt_tasks_exec)
        then have "tasks w2 ! p = tasks (exec pre' ws) ! p"
          unfolding w2_def d(1) by (simp add: exec_append)
        with f p2 show False by simp
      qed
      then obtain n' e' where g: "tasks (exec pre' ws) ! p = In_gather ms ?cs n' e'" by blast
      have e1: "exec (a1 @ Loop # pre') w = exec pre' ws"
        unfolding ws_def w1_def by (simp add: exec_append)
      have "acts = (a1 @ Loop # pre') @ Loop # (post' @ b # post2)"
        using a(1) l(1) b(1) d(1) by simp
      with g d(2) e1 show ?thesis by metis
    qed
    with res show ?thesis by blast
  qed
qed

theorem C4_all_wait_complete_witness:
  "(\<exists>pre post cs n e.
      [Loop, Loop, Loop,
       Create_task (Protocol_x_decoder (Inr (JObj [(''type'', JStr ''a''), (''payload'', JObj [])]))),
       Create_task (Protocol_x_decoder (Inr (JObj [(''type'', JStr ''b''), (''payload'', JObj [])]))),
       Loop, Loop, Loop, Loop, Loop, Loop, Loop] = pre @ Loop # post
      \<and> tasks (exec pre (exec [Create_task (Await_all_messages [''a'', ''b''])] (world0 :: unit world))) ! 0
            = In_gather [''a'', ''b''] cs n e
      \<and> dispatches ''a'' (exec pre (exec [Create_task (Await_all_messages [''a'', ''b''])] (world0 :: unit world))))
   \<and> (\<exists>pre post cs n e.
      [Loop, Loop, Loop,
       Create_task (Protocol_x_decoder (Inr (JObj [(''type'', JStr ''a''), (''payload'', JObj [])]))),
       Create_task (Protocol_x_decoder (Inr (JObj [(''type'', JStr ''b''), (''payload'', JObj [])]))),
       Loop, Loop, Loop, Loop, Loop, Loop, Loop] = pre @ Loop # post
      \<and> tasks (exec pre (exec [Create_task (Await_all_messages [''a'', ''b''])] (world0 :: unit world))) ! 0
            = In_gather [''a'', ''b''] cs n e
      \<and> dispatches ''b'' (exec pre (exec [Create_task (Await_all_messages [''a'', ''b''])] (world0 :: unit world))))"
proof -
  let ?w = "exec [Create_task (Await_all_messages [''a'', ''b''])] (world0 :: unit world)"
  let ?acts = "[Loop, Loop, Loop,
       Create_task (Protocol_x_decoder (Inr (JObj [(''type'', JStr ''a''), (''payload'', JObj [])]))),
       Create_task (Protocol_x_decoder (Inr (JObj [(''type'', JStr ''b''), (''payload'', JObj [])]))),
       Loop, Loop, Loop, Loop, Loop, Loop, Loop] :: unit action list"
  have h: "0 < length (tasks ?w)" "tasks ?w ! 0 = Created (Await_all_messages [''a'', ''b''])"
    "tasks (exec ?acts ?w) ! 0 = Returned (RList [''a'', ''b''])"
    by (simp_all add: run_simps)
  have s: "''a'' \<in> set [''a'', ''b'']" "''b'' \<in> set [''a'', ''b'']" by simp_all
  from C4_all_wait_complete [OF refl h] s show ?thesis by blast
qed

section \<open>The sub-waits of a composite wait\<close>

lemma awaits_act:
  fixes w :: "'f world"
  assumes wi: "world_inv w" and x: "x < length (tasks w)" and a: "awaits m (tasks w ! x)"
  shows "awaits m (tasks (act w a) ! x)"
proof -
  from a consider
    (created) "tasks w ! x = Created (Await_message m)"
    | (pending) "m \<in> {''a'', ''b'', ''c''}" "tasks w ! x = In_wait m False"
    | (woken) "m \<in> {''a'', ''b'', ''c''}" "tasks w ! x = In_wait m True"
    | (final) "is_final (tasks w ! x)"
    unfolding awaits_def by auto
  then show ?thesis
  proof cases
    case created
    from act_created [OF wi x created, of a] show ?thesis
    proof (elim disjE conjE exE)
      assume "tasks (act w a) ! x = Created (Await_message m)"
      then show ?thesis by (simp add: awaits_def)
    next
      fix hs assume h: "ready w = Step x # hs" "act w a = step x (w\<lparr>ready := hs\<rparr>)"
      have "world_inv (w\<lparr>ready := hs\<rparr>)" using wi by simp
      from step_await_message [OF this, of x m] x created
      have "(m \<notin> {''a'', ''b'', ''c''} \<and> tasks (step x (w\<lparr>ready := hs\<rparr>)) ! x = Raised (KeyError (m @ ''_event'')))
          \<or> (m \<in> {''a'', ''b'', ''c''} \<and> tasks (step x (w\<lparr>ready := hs\<rparr>)) ! x = In_wait m False)"
        by auto
      then show ?thesis unfolding h(2) awaits_def by blast
    qed
  next
    case pending
    from act_pending [OF wi x pending(2), of a] pending(1) show ?thesis
      unfolding awaits_def by blast
  next
    case woken
    from act_woken [OF wi x woken(2), of a] woken(1) show ?thesis
      unfolding awaits_def by blast
  next
    case final
    from act_final [OF wi x final, of a] a show ?thesis by simp
  qed
qed

lemma awaits_exec:
  fixes w :: "'f world"
  shows "world_inv w \<Longrightarrow> x < length (tasks w) \<Longrightarrow> awaits m (tasks w ! x) \<Longrightarrow>
     awaits m (tasks (exec acts w) ! x)"
  by (induction acts arbitrary: w) (simp_all add: awaits_act world_inv_act lt_tasks_act)

lemma awaits_unknown:
  "awaits m c \<Longrightarrow> m \<notin> {''a'', ''b'', ''c''} \<Longrightarrow>
     c = Created (Await_message m) \<or> c = Raised (KeyError (m @ ''_event''))"
  unfolding awaits_def by blast

lemma awaits_raised:
  "awaits m (Raised e) \<Longrightarrow> m \<notin> {''a'', ''b'', ''c''} \<and> e = KeyError (m @ ''_event'')"
  unfolding awaits_def by auto

lemma awaits_returned: "awaits m (Returned r) \<Longrightarrow> m \<in> {''a'', ''b'', ''c''} \<and> r = RStr m"
  unfolding awaits_def by auto

text \<open>What one action does to a task suspended in \<^verbatim>\<open>asyncio.wait\<close>.\<close>

lemma act_any_pending:
  fixes w :: "'f world"
  assumes wi: "world_inv w" and p: "p < length (tasks w)" "tasks w ! p = In_asyncio_wait cs False"
  shows "tasks (act w a) ! p = In_asyncio_wait cs False
       \<or> (a = Loop \<and> (\<exists>c hs. ready w = Done_callback p c # hs \<and>
             tasks (act w a) = (tasks w)[p := In_asyncio_wait cs True] \<and>
             ready (act w a) = hs @ [Step p]))"
proof (cases a)
  case (Create_task c)
  with p show ?thesis by (simp add: nth_append)
next
  case Loop
  show ?thesis
  proof (cases "ready w")
    case Nil
    with Loop p show ?thesis by simp
  next
    case (Cons h hs)
    have wi': "world_inv (w\<lparr>ready := hs\<rparr>)" using wi by simp
    show ?thesis
    proof (cases h)
      case (Step t)
      show ?thesis
      proof (cases "t = p")
        case True
        with Loop Cons Step p show ?thesis by (simp add: step_def)
      next
        case False
        from step_other [OF wi', of p t] p False
        have "tasks (step t (w\<lparr>ready := hs\<rparr>)) ! p = In_asyncio_wait cs False" by auto
        with Loop Cons Step show ?thesis by simp
      qed
    next
      case (Done_callback p' c)
      show ?thesis
      proof (cases "p' = p")
        case False
        then have "tasks (done_callback p' c (w\<lparr>ready := hs\<rparr>)) ! p = In_asyncio_wait cs False"
          using p by (simp add: done_callback_other)
        with Loop Cons Done_callback show ?thesis by simp
      next
        case True
        show ?thesis
        proof (cases "c < length (tasks w)")
          case False
          with Loop Cons Done_callback p show ?thesis by (simp add: done_callback_def)
        next
          case c: True
          with Loop Cons Done_callback True p show ?thesis
            by (simp add: done_callback_def wait_done_callback_def)
        qed
      qed
    qed
  qed
qed

lemma act_any_woken:
  fixes w :: "'f world"
  assumes wi: "world_inv w" and p: "p < length (tasks w)" "tasks w ! p = In_asyncio_wait cs True"
  shows "tasks (act w a) ! p = In_asyncio_wait cs True
       \<or> (a = Loop \<and> (\<exists>hs. ready w = Step p # hs) \<and>
            tasks (act w a) ! p =
              (case task_results (map (\<lambda>c. tasks w ! c) (filter (\<lambda>c. is_done (tasks w ! c)) cs)) of
                 Inl e \<Rightarrow> Raised e | Inr names \<Rightarrow> Returned (RList names)))"
proof (cases a)
  case (Create_task c)
  with p show ?thesis by (simp add: nth_append)
next
  case Loop
  show ?thesis
  proof (cases "ready w")
    case Nil
    with Loop p show ?thesis by simp
  next
    case (Cons h hs)
    have wi': "world_inv (w\<lparr>ready := hs\<rparr>)" using wi by simp
    show ?thesis
    proof (cases h)
      case (Step t)
      show ?thesis
      proof (cases "t = p")
        case True
        have "act w a = await_any_messages_wakeup p cs (w\<lparr>ready := hs\<rparr>)"
          using Loop Cons Step True p by (simp add: step_def)
        then show ?thesis using Loop Cons Step True p
          by (auto simp: await_any_messages_wakeup_def Let_def split: sum.splits)
      next
        case False
        from step_other [OF wi', of p t] p False
        have "tasks (step t (w\<lparr>ready := hs\<rparr>)) ! p = In_asyncio_wait cs True" by auto
        with Loop Cons Step show ?thesis by simp
      qed
    next
      case (Done_callback p' c)
      show ?thesis
      proof (cases "p' = p")
        case False
        then have "tasks (done_callback p' c (w\<lparr>ready := hs\<rparr>)) ! p = In_asyncio_wait cs True"
          using p by (simp add: done_callback_other)
        with Loop Cons Done_callback show ?thesis by simp
      next
        case True
        with Loop Cons Done_callback p show ?thesis
          by (simp add: done_callback_def wait_done_callback_def)
      qed
    qed
  qed
qed

lemma task_results_Inl: "task_results xs = Inl e \<Longrightarrow> Raised e \<in> set xs"
  by (induction xs rule: task_results.induct) (auto split: sum.splits)

lemma task_results_raised: "Raised e \<in> set xs \<Longrightarrow> \<exists>e'. task_results xs = Inl e'"
  by (induction xs rule: task_results.induct) (auto split: sum.splits)

section \<open>A composite wait on a name the dict does not have\<close>

lemma sub_waits_exec:
  fixes w :: "'f world"
  assumes "world_inv w" "sub_waits ms cs (tasks w)"
  shows "sub_waits ms cs (tasks (exec acts w))"
  using assms unfolding sub_waits_def by (auto intro: awaits_exec lt_tasks_exec)

lemma sub_waits_act:
  fixes w :: "'f world"
  assumes "world_inv w" "sub_waits ms cs (tasks w)"
  shows "sub_waits ms cs (tasks (act w a))"
  using sub_waits_exec [OF assms, of "[a]"] by simp

lemma sub_waits_nth:
  assumes "sub_waits ms cs ts" "c \<in> set cs"
  shows "\<exists>i<length ms. cs ! i = c \<and> c < length ts \<and> awaits (ms ! i) (ts ! c)"
proof -
  from assms(2) obtain i where "i < length cs" "cs ! i = c" by (auto simp: in_set_conv_nth)
  with assms(1) show ?thesis unfolding sub_waits_def by auto
qed

lemma sub_waits_raised:
  assumes "sub_waits ms cs ts" "c \<in> set cs" "ts ! c = Raised e"
  shows "unknown_topic ms e"
proof -
  from sub_waits_nth [OF assms(1,2)] obtain i where
    i: "i < length ms" "awaits (ms ! i) (ts ! c)" by blast
  from awaits_raised [OF i(2) [unfolded assms(3)]] i(1) show ?thesis
    unfolding unknown_topic_def by (intro exI [of _ "ms ! i"]) simp
qed

lemma sub_waits_unknown:
  assumes "sub_waits ms cs ts" "i < length ms" "ms ! i \<notin> {''a'', ''b'', ''c''}"
  shows "cs ! i \<in> set cs \<and> cs ! i < length ts \<and>
         (ts ! (cs ! i) = Created (Await_message (ms ! i))
          \<or> ts ! (cs ! i) = Raised (KeyError (ms ! i @ ''_event'')))"
  using assms awaits_unknown [of "ms ! i" "ts ! (cs ! i)"] unfolding sub_waits_def by auto

lemma sub_waits_spawn:
  fixes ts :: "'f coro list"
  assumes "p < length ts"
  shows "sub_waits ms [length ts ..< length ts + length ms]
           (ts[p := c] @ map (\<lambda>m. Created (Await_message m)) ms)"
  unfolding sub_waits_def by (auto simp: nth_append awaits_def)

text \<open>
  A \<^verbatim>\<open>gather\<close> over a name the dict does not have: it stays suspended, holding no
  exception or the \<^verbatim>\<open>KeyError\<close> of such a name, or it has raised that error.
\<close>

lemma all_unknown_trace:
  fixes w :: "'f world"
  assumes wi: "world_inv w" and si: "sched_inv w" and wa: "wait_inv w"
    and p: "p < length (tasks w)" "tasks w ! p = In_gather ms cs n exc"
    and k: "sub_waits ms cs (tasks w)"
    and e: "\<forall>e. exc = Some e \<longrightarrow> unknown_topic ms e"
    and m: "i < length ms" "ms ! i \<notin> {''a'', ''b'', ''c''}"
  shows "(\<exists>n' exc'. tasks (exec acts w) ! p = In_gather ms cs n' exc' \<and>
            (\<forall>e. exc' = Some e \<longrightarrow> unknown_topic ms e))
       \<or> (\<exists>e. tasks (exec acts w) ! p = Raised e \<and> unknown_topic ms e)"
proof (induction acts rule: rev_induct)
  case Nil
  with p e show ?case by simp
next
  case (snoc a xs)
  define v where "v = exec xs w"
  have wiv: "world_inv v" unfolding v_def using wi by (rule world_inv_exec)
  have siv: "sched_inv v" unfolding v_def using wi si by (rule sched_inv_exec)
  have wav: "wait_inv v" unfolding v_def using wi si wa by (rule wait_inv_exec)
  have ltv: "p < length (tasks v)" unfolding v_def using wi p(1) by (rule lt_tasks_exec)
  have kv: "sub_waits ms cs (tasks v)" unfolding v_def using wi k by (rule sub_waits_exec)
  have ex: "exec (xs @ [a]) w = act v a" unfolding v_def by (simp add: exec_append)
  from snoc.IH [folded v_def]
  have "(\<exists>n' exc'. tasks (act v a) ! p = In_gather ms cs n' exc' \<and>
            (\<forall>e. exc' = Some e \<longrightarrow> unknown_topic ms e))
       \<or> (\<exists>e. tasks (act v a) ! p = Raised e \<and> unknown_topic ms e)"
  proof (elim disjE exE conjE)
    fix e' assume r: "tasks v ! p = Raised e'" "unknown_topic ms e'"
    then have "is_final (tasks v ! p)" by simp
    from act_final [OF wiv ltv this, of a] r show ?thesis by simp
  next
    fix n' exc' assume g: "tasks v ! p = In_gather ms cs n' exc'"
      and ok: "\<forall>e. exc' = Some e \<longrightarrow> unknown_topic ms e"
    from act_gather [OF wiv ltv g, of a] show ?thesis
    proof (elim disjE conjE exE)
      assume "tasks (act v a) ! p = In_gather ms cs n' exc'"
      with ok show ?thesis by blast
    next
      fix c hs exc'' assume r: "ready v = Done_callback p c # hs"
        and t: "tasks (act v a) ! p = In_gather ms cs (Suc n') exc''"
        and "exc'' = exc'"
      with ok show ?thesis by blast
    next
      fix c hs exc'' assume r: "ready v = Done_callback p c # hs"
        and t: "tasks (act v a) ! p = In_gather ms cs (Suc n') exc''"
        and c: "tasks v ! c = Raised (the exc'')" "exc'' \<noteq> None"
      have "qinv (tasks v) (ready v)" using siv by (simp add: sched_inv_def)
      from qinvD_callback [OF this, of p c] r g have "c \<in> set cs" by simp
      from sub_waits_raised [OF kv this c(1)] c(2) t show ?thesis by auto
    next
      assume "exc' = None" "n' = length cs"
      with g have g': "tasks v ! p = In_gather ms cs (length cs) None" by simp
      have gi: "ginv (tasks v) (ready v)" using wav by (simp add: wait_inv_def)
      from sub_waits_unknown [OF kv m] have c: "cs ! i \<in> set cs"
        and s: "tasks v ! (cs ! i) = Created (Await_message (ms ! i))
          \<or> tasks v ! (cs ! i) = Raised (KeyError (ms ! i @ ''_event''))" by simp_all
      from gather_complete [OF gi ltv g' c] s have False by auto
      then show ?thesis ..
    next
      fix e' assume "exc' = Some e'" "tasks (act v a) ! p = Raised e'"
      with ok show ?thesis by blast
    qed
  qed
  then show ?case unfolding ex .
qed

lemma all_unknown_quiet:
  fixes w :: "'f world"
  assumes si: "sched_inv w" and wa: "wait_inv w"
    and p: "p < length (tasks w)" "tasks w ! p = In_gather ms cs n exc"
    and k: "sub_waits ms cs (tasks w)"
    and m: "i < length ms" "ms ! i \<notin> {''a'', ''b'', ''c''}"
  shows "ready w \<noteq> []"
proof (cases exc)
  case (Some e)
  have "ginv (tasks w) (ready w)" using wa by (simp add: wait_inv_def)
  from ginvD(3) [OF this p] Some show ?thesis by auto
next
  case None
  have gi: "ginv (tasks w) (ready w)" using wa by (simp add: wait_inv_def)
  have q: "qinv (tasks w) (ready w)" using si by (simp add: sched_inv_def)
  from sub_waits_unknown [OF k m] have c: "cs ! i \<in> set cs" "cs ! i < length (tasks w)"
    and s: "tasks w ! (cs ! i) = Created (Await_message (ms ! i))
      \<or> tasks w ! (cs ! i) = Raised (KeyError (ms ! i @ ''_event''))" by simp_all
  from s show ?thesis
  proof
    assume "tasks w ! (cs ! i) = Created (Await_message (ms ! i))"
    from qinvD_created [OF q c(2) this] show ?thesis by auto
  next
    assume "tasks w ! (cs ! i) = Raised (KeyError (ms ! i @ ''_event''))"
    then have "is_raised (tasks w ! (cs ! i))" by simp
    from ginvD(4) [OF gi p None c(1) this] show ?thesis by auto
  qed
qed

lemma fails_first_act:
  fixes v :: "'f world"
  assumes wi: "world_inv v" and si: "sched_inv v"
    and p: "p < length (tasks v)"
    and k: "sub_waits ms cs (tasks v)"
    and m: "i < length ms" "ms ! i \<notin> {''a'', ''b'', ''c''}"
    and f: "fails_first p cs ms i v"
  shows "fails_first p cs ms i (act v a)"
proof -
  let ?cx = "cs ! i"
  let ?m = "ms ! i"
  from sub_waits_unknown [OF k m] have cx: "?cx \<in> set cs" "?cx < length (tasks v)" by simp_all
  have q: "qinv (tasks v) (ready v)" using si by (simp add: sched_inv_def)
  from f consider
    (raised) e where "tasks v ! p = Raised e" "unknown_topic ms e"
    | (failed) b where "tasks v ! p = In_asyncio_wait cs b"
        "tasks v ! ?cx = Raised (KeyError (?m @ ''_event''))"
    | (queued) pre post where "tasks v ! p = In_asyncio_wait cs False"
        "tasks v ! ?cx = Created (Await_message ?m)"
        "ready v = pre @ Step ?cx # post" "\<forall>c. Done_callback p c \<notin> set pre"
    unfolding fails_first_def by blast
  then show ?thesis
  proof cases
    case raised
    then have "is_final (tasks v ! p)" by simp
    from act_final [OF wi p this, of a] raised show ?thesis by (simp add: fails_first_def)
  next
    case failed
    then have "is_final (tasks v ! ?cx)" by simp
    from act_final [OF wi cx(2) this, of a] failed(2)
    have c': "tasks (act v a) ! ?cx = Raised (KeyError (?m @ ''_event''))" by simp
    show ?thesis
    proof (cases b)
      case False
      with failed have pf: "tasks v ! p = In_asyncio_wait cs False" by simp
      from act_any_pending [OF wi p pf, of a] p
      have "\<exists>b. tasks (act v a) ! p = In_asyncio_wait cs b" by auto
      with c' show ?thesis unfolding fails_first_def by blast
    next
      case True
      with failed have pt: "tasks v ! p = In_asyncio_wait cs True" by simp
      let ?xs = "map (\<lambda>c. tasks v ! c) (filter (\<lambda>c. is_done (tasks v ! c)) cs)"
      from act_any_woken [OF wi p pt, of a] show ?thesis
      proof (elim disjE conjE)
        assume "tasks (act v a) ! p = In_asyncio_wait cs True"
        with c' show ?thesis unfolding fails_first_def by blast
      next
        assume r: "tasks (act v a) ! p =
            (case task_results ?xs of Inl e \<Rightarrow> Raised e | Inr names \<Rightarrow> Returned (RList names))"
        have "Raised (KeyError (?m @ ''_event'')) \<in> set ?xs"
          using cx(1) failed(2) by (auto simp: image_iff intro!: bexI [of _ ?cx])
        from task_results_raised [OF this] obtain e' where e': "task_results ?xs = Inl e'" by blast
        from task_results_Inl [OF e'] obtain c where "c \<in> set cs" "tasks v ! c = Raised e'" by auto
        from sub_waits_raised [OF k this] have "unknown_topic ms e'" .
        with r e' show ?thesis unfolding fails_first_def by simp
      qed
    qed
  next
    case queued
    have ne: "?cx \<noteq> p" using queued(1,2) by auto
    show ?thesis
    proof (cases a)
      case (Create_task cl)
      have "ready (act v a) = pre @ Step ?cx # (post @ [Step (length (tasks v))])"
        using Create_task queued(3) by simp
      moreover have "tasks (act v a) ! p = In_asyncio_wait cs False"
        "tasks (act v a) ! ?cx = Created (Await_message ?m)"
        using Create_task queued(1,2) p cx(2) by (simp_all add: nth_append)
      ultimately show ?thesis using queued(4) unfolding fails_first_def by blast
    next
      case Loop
      show ?thesis
      proof (cases pre)
        case Nil
        with queued(3) Loop have eq: "act v a = step ?cx (v\<lparr>ready := post\<rparr>)" by simp
        have "world_inv (v\<lparr>ready := post\<rparr>)" using wi by simp
        from step_await_message [OF this, of ?cx ?m] cx(2) queued(2) m(2)
        have "step ?cx (v\<lparr>ready := post\<rparr>)
            = finish ?cx (Raised (KeyError (?m @ ''_event''))) (v\<lparr>ready := post\<rparr>)"
          by auto
        with eq have t: "tasks (act v a) = (tasks v)[?cx := Raised (KeyError (?m @ ''_event''))]"
          by simp
        have "tasks (act v a) ! p = In_asyncio_wait cs False"
          "tasks (act v a) ! ?cx = Raised (KeyError (?m @ ''_event''))"
          unfolding t using ne queued(1) cx(2) by simp_all
        then show ?thesis unfolding fails_first_def by blast
      next
        case (Cons h pre')
        with queued(3) have r: "ready v = h # (pre' @ Step ?cx # post)" by simp
        have h: "h \<in> set pre" using Cons by simp
        have c1: "count_list (ready v) (Step ?cx) = 1"
          using qinvD_created [OF q cx(2) queued(2)] .
        have "h \<noteq> Step ?cx"
        proof
          assume "h = Step ?cx"
          with r have "count_list (ready v) (Step ?cx) \<ge> 2" by simp
          with c1 show False by simp
        qed
        with act_created [OF wi cx(2) queued(2), of a] r
        have c': "tasks (act v a) ! ?cx = Created (Await_message ?m)" by auto
        have "\<forall>c. h \<noteq> Done_callback p c" using h queued(4) by auto
        with act_any_pending [OF wi p queued(1), of a] r
        have p': "tasks (act v a) ! p = In_asyncio_wait cs False" by auto
        from ready_act_Loop [OF wi r] obtain q' where
          "ready (act v Loop) = (pre' @ Step ?cx # post) @ q'" by blast
        then have "ready (act v a) = pre' @ Step ?cx # (post @ q')" using Loop by simp
        moreover have "\<forall>c. Done_callback p c \<notin> set pre'" using queued(4) Cons by simp
        ultimately show ?thesis using c' p' unfolding fails_first_def by blast
      qed
    qed
  qed
qed

lemma fails_first_exec:
  fixes w :: "'f world"
  assumes wi: "world_inv w" and si: "sched_inv w"
    and p: "p < length (tasks w)"
    and k: "sub_waits ms cs (tasks w)"
    and m: "i < length ms" "ms ! i \<notin> {''a'', ''b'', ''c''}"
    and f: "fails_first p cs ms i w"
  shows "fails_first p cs ms i (exec acts w)"
proof (induction acts rule: rev_induct)
  case Nil
  with f show ?case by simp
next
  case (snoc a xs)
  have "fails_first p cs ms i (act (exec xs w) a)"
  proof (rule fails_first_act)
    show "world_inv (exec xs w)" using wi by (rule world_inv_exec)
    show "sched_inv (exec xs w)" using wi si by (rule sched_inv_exec)
    show "p < length (tasks (exec xs w))" using wi p by (rule lt_tasks_exec)
    show "sub_waits ms cs (tasks (exec xs w))" using wi k by (rule sub_waits_exec)
  qed (use m snoc.IH in simp_all)
  then show ?case by (simp add: exec_append)
qed

lemma fails_first_quiet:
  fixes v :: "'f world"
  assumes wa: "wait_inv v" and p: "p < length (tasks v)"
    and k: "sub_waits ms cs (tasks v)"
    and m: "i < length ms" "ms ! i \<notin> {''a'', ''b'', ''c''}"
    and f: "fails_first p cs ms i v" and r: "ready v = []"
  shows "\<exists>e. tasks v ! p = Raised e \<and> unknown_topic ms e"
proof (rule ccontr)
  assume n: "\<not> ?thesis"
  have a: "ainv (tasks v) (ready v)" using wa by (simp add: wait_inv_def)
  from sub_waits_unknown [OF k m] have cx: "cs ! i \<in> set cs" by simp
  from f n r obtain b where b: "tasks v ! p = In_asyncio_wait cs b"
    and c: "tasks v ! (cs ! i) = Raised (KeyError (ms ! i @ ''_event''))"
    unfolding fails_first_def by auto
  show False
  proof (cases b)
    case True
    with b have "tasks v ! p = In_asyncio_wait cs True" by simp
    from ainvD_woken [OF a p this] r show False by simp
  next
    case False
    with b have pf: "tasks v ! p = In_asyncio_wait cs False" by simp
    have "is_done (tasks v ! (cs ! i))" using c by simp
    from ainvD_done [OF a p pf cx this] r show False by simp
  qed
qed

lemma created_queued:
  fixes v :: "'f world"
  assumes "sched_inv v" "p < length (tasks v)" "tasks v ! p = Created cl"
  shows "ready v \<noteq> []"
proof -
  have "qinv (tasks v) (ready v)" using assms(1) by (simp add: sched_inv_def)
  from qinvD_created [OF this assms(2,3)] show ?thesis by auto
qed

text \<open>
  A composite wait that has not started, on names one of which the dict does not have,
  never returns; it raises nothing but the \<^verbatim>\<open>KeyError\<close> of such a name; and it has
  raised when the loop has nothing left to run.
\<close>

lemma any_unknown:
  fixes w :: "'f world"
  assumes wi: "world_inv w" and si: "sched_inv w" and wa: "wait_inv w"
    and p: "p < length (tasks w)" "tasks w ! p = Created (Await_any_messages ms)"
    and m: "m \<in> set ms" "m \<notin> {''a'', ''b'', ''c''}"
  shows "(\<forall>r. tasks (exec acts w) ! p \<noteq> Returned r)
       \<and> (\<forall>e. tasks (exec acts w) ! p = Raised e \<longrightarrow> unknown_topic ms e)
       \<and> (ready (exec acts w) = [] \<longrightarrow> (\<exists>e. tasks (exec acts w) ! p = Raised e))"
proof (cases "tasks (exec acts w) ! p = Created (Await_any_messages ms)")
  case True
  have "sched_inv (exec acts w)" using wi si by (rule sched_inv_exec)
  moreover have "p < length (tasks (exec acts w))" using wi p(1) by (rule lt_tasks_exec)
  ultimately have "ready (exec acts w) \<noteq> []" using True by (rule created_queued)
  with True show ?thesis by simp
next
  case False
  let ?P = "\<lambda>c :: 'f coro. c = Created (Await_any_messages ms)"
  from first_change [of ?P, OF p(2) False] obtain a1 a post1 where
    a0: "acts = a1 @ a # post1" "tasks (exec a1 w) ! p = Created (Await_any_messages ms)"
    "tasks (act (exec a1 w) a) ! p \<noteq> Created (Await_any_messages ms)"
    by blast
  define w1 where "w1 = exec a1 w"
  note a = a0 [folded w1_def]
  have wi1: "world_inv w1" unfolding w1_def using wi by (rule world_inv_exec)
  have si1: "sched_inv w1" unfolding w1_def using wi si by (rule sched_inv_exec)
  have wa1: "wait_inv w1" unfolding w1_def using wi si wa by (rule wait_inv_exec)
  have lt1: "p < length (tasks w1)" unfolding w1_def using wi p(1) by (rule lt_tasks_exec)
  from act_created [OF wi1 lt1 a(2), of a] a(3) obtain hs where
    l: "a = Loop" "ready w1 = Step p # hs" "act w1 a = step p (w1\<lparr>ready := hs\<rparr>)"
    by blast
  define ws where "ws = act w1 Loop"
  let ?L = "length (tasks w1)"
  let ?cs = "[?L ..< ?L + length ms]"
  have ne: "ms \<noteq> []" using m(1) by auto
  have ws: "ws = spawn_children p ms (In_asyncio_wait ?cs False) (w1\<lparr>ready := hs\<rparr>)"
    unfolding ws_def using l lt1 a(2) ne
    by (simp add: step_def await_any_messages_def children_of_def)
  have tws: "tasks ws = (tasks w1)[p := In_asyncio_wait ?cs False] @ map (\<lambda>m. Created (Await_message m)) ms"
    and rws: "ready ws = hs @ map Step ?cs"
    unfolding ws by (simp_all add: spawn_children_def Let_def)
  have wis: "world_inv ws" unfolding ws_def using wi1 by (rule world_inv_act)
  have sis: "sched_inv ws" unfolding ws_def using wi1 si1 by (rule sched_inv_act)
  have was: "wait_inv ws" unfolding ws_def using wi1 si1 wa1 by (rule wait_inv_act)
  have lts: "p < length (tasks ws)" unfolding ws_def using wi1 lt1 by (rule lt_tasks_act)
  have ex: "exec acts w = exec post1 ws"
    unfolding ws_def w1_def a0(1) using l(1) by (simp add: exec_append)
  have k: "sub_waits ms ?cs (tasks ws)" unfolding tws using lt1 by (rule sub_waits_spawn)
  from m(1) obtain i where i: "i < length ms" "ms ! i = m" by (auto simp: in_set_conv_nth)
  have u: "ms ! i \<notin> {''a'', ''b'', ''c''}" using i(2) m(2) by simp
  have ps: "tasks ws ! p = In_asyncio_wait ?cs False" unfolding tws using lt1 by (simp add: nth_append)
  have cxs: "tasks ws ! (?cs ! i) = Created (Await_message (ms ! i))"
    unfolding tws using i(1) by (simp add: nth_append)
  have "Step (?cs ! i) \<in> set (ready ws)" unfolding rws using i(1) by simp
  then obtain pre post where sp: "ready ws = pre @ Step (?cs ! i) # post"
    by (auto dest: split_list)
  have nocb: "Done_callback p c \<notin> set (ready ws)" for c
  proof
    assume "Done_callback p c \<in> set (ready ws)"
    then have "Done_callback p c \<in> set (ready w1)" unfolding rws l(2) by auto
    moreover have "qinv (tasks w1) (ready w1)" using si1 by (simp add: sched_inv_def)
    ultimately show False using qinvD_callback [of "tasks w1" "ready w1" p c] a(2) by simp
  qed
  then have "\<forall>c. Done_callback p c \<notin> set pre" unfolding sp by simp
  with ps cxs sp have "fails_first p ?cs ms i ws" unfolding fails_first_def by blast
  from fails_first_exec [OF wis sis lts k i(1) u this, of post1]
  have ff: "fails_first p ?cs ms i (exec post1 ws)" .
  have 1: "\<forall>r. tasks (exec post1 ws) ! p \<noteq> Returned r"
    using ff unfolding fails_first_def by auto
  have 2: "\<forall>e. tasks (exec post1 ws) ! p = Raised e \<longrightarrow> unknown_topic ms e"
    using ff unfolding fails_first_def by auto
  have 3: "ready (exec post1 ws) = [] \<longrightarrow> (\<exists>e. tasks (exec post1 ws) ! p = Raised e)"
  proof
    assume r: "ready (exec post1 ws) = []"
    have "\<exists>e. tasks (exec post1 ws) ! p = Raised e \<and> unknown_topic ms e"
    proof (rule fails_first_quiet [OF _ _ _ i(1) u ff r])
      show "wait_inv (exec post1 ws)" using wis sis was by (rule wait_inv_exec)
      show "p < length (tasks (exec post1 ws))" using wis lts by (rule lt_tasks_exec)
      show "sub_waits ms ?cs (tasks (exec post1 ws))" using wis k by (rule sub_waits_exec)
    qed
    then show "\<exists>e. tasks (exec post1 ws) ! p = Raised e" by blast
  qed
  from 1 2 3 show ?thesis unfolding ex by blast
qed

lemma all_unknown:
  fixes w :: "'f world"
  assumes wi: "world_inv w" and si: "sched_inv w" and wa: "wait_inv w"
    and p: "p < length (tasks w)" "tasks w ! p = Created (Await_all_messages ms)"
    and m: "m \<in> set ms" "m \<notin> {''a'', ''b'', ''c''}"
  shows "(\<forall>r. tasks (exec acts w) ! p \<noteq> Returned r)
       \<and> (\<forall>e. tasks (exec acts w) ! p = Raised e \<longrightarrow> unknown_topic ms e)
       \<and> (ready (exec acts w) = [] \<longrightarrow> (\<exists>e. tasks (exec acts w) ! p = Raised e))"
proof (cases "tasks (exec acts w) ! p = Created (Await_all_messages ms)")
  case True
  have "sched_inv (exec acts w)" using wi si by (rule sched_inv_exec)
  moreover have "p < length (tasks (exec acts w))" using wi p(1) by (rule lt_tasks_exec)
  ultimately have "ready (exec acts w) \<noteq> []" using True by (rule created_queued)
  with True show ?thesis by simp
next
  case False
  let ?P = "\<lambda>c :: 'f coro. c = Created (Await_all_messages ms)"
  from first_change [of ?P, OF p(2) False] obtain a1 a post1 where
    a0: "acts = a1 @ a # post1" "tasks (exec a1 w) ! p = Created (Await_all_messages ms)"
    "tasks (act (exec a1 w) a) ! p \<noteq> Created (Await_all_messages ms)"
    by blast
  define w1 where "w1 = exec a1 w"
  note a = a0 [folded w1_def]
  have wi1: "world_inv w1" unfolding w1_def using wi by (rule world_inv_exec)
  have si1: "sched_inv w1" unfolding w1_def using wi si by (rule sched_inv_exec)
  have wa1: "wait_inv w1" unfolding w1_def using wi si wa by (rule wait_inv_exec)
  have lt1: "p < length (tasks w1)" unfolding w1_def using wi p(1) by (rule lt_tasks_exec)
  from act_created [OF wi1 lt1 a(2), of a] a(3) obtain hs where
    l: "a = Loop" "ready w1 = Step p # hs" "act w1 a = step p (w1\<lparr>ready := hs\<rparr>)"
    by blast
  define ws where "ws = act w1 Loop"
  let ?L = "length (tasks w1)"
  let ?cs = "[?L ..< ?L + length ms]"
  have ne: "ms \<noteq> []" using m(1) by auto
  have ws: "ws = spawn_children p ms (In_gather ms ?cs 0 None) (w1\<lparr>ready := hs\<rparr>)"
    unfolding ws_def using l lt1 a(2) ne
    by (simp add: step_def await_all_messages_def children_of_def)
  have tws: "tasks ws = (tasks w1)[p := In_gather ms ?cs 0 None] @ map (\<lambda>m. Created (Await_message m)) ms"
    unfolding ws by (simp add: spawn_children_def Let_def)
  have wis: "world_inv ws" unfolding ws_def using wi1 by (rule world_inv_act)
  have sis: "sched_inv ws" unfolding ws_def using wi1 si1 by (rule sched_inv_act)
  have was: "wait_inv ws" unfolding ws_def using wi1 si1 wa1 by (rule wait_inv_act)
  have lts: "p < length (tasks ws)" unfolding ws_def using wi1 lt1 by (rule lt_tasks_act)
  have ex: "exec acts w = exec post1 ws"
    unfolding ws_def w1_def a0(1) using l(1) by (simp add: exec_append)
  have k: "sub_waits ms ?cs (tasks ws)" unfolding tws using lt1 by (rule sub_waits_spawn)
  from m(1) obtain i where i: "i < length ms" "ms ! i = m" by (auto simp: in_set_conv_nth)
  have u: "ms ! i \<notin> {''a'', ''b'', ''c''}" using i(2) m(2) by simp
  have ps: "tasks ws ! p = In_gather ms ?cs 0 None" unfolding tws using lt1 by (simp add: nth_append)
  have e0: "\<forall>e. (None :: 'f error option) = Some e \<longrightarrow> unknown_topic ms e" by simp
  from all_unknown_trace [OF wis sis was lts ps k e0 i(1) u, of post1]
  have tr: "(\<exists>n' exc'. tasks (exec post1 ws) ! p = In_gather ms ?cs n' exc')
       \<or> (\<exists>e. tasks (exec post1 ws) ! p = Raised e \<and> unknown_topic ms e)"
    by blast
  have 1: "\<forall>r. tasks (exec post1 ws) ! p \<noteq> Returned r" using tr by auto
  have 2: "\<forall>e. tasks (exec post1 ws) ! p = Raised e \<longrightarrow> unknown_topic ms e" using tr by auto
  have 3: "ready (exec post1 ws) = [] \<longrightarrow> (\<exists>e. tasks (exec post1 ws) ! p = Raised e)"
  proof
    assume r: "ready (exec post1 ws) = []"
    from tr show "\<exists>e. tasks (exec post1 ws) ! p = Raised e"
    proof
      assume "\<exists>n' exc'. tasks (exec post1 ws) ! p = In_gather ms ?cs n' exc'"
      then obtain n' exc' where g: "tasks (exec post1 ws) ! p = In_gather ms ?cs n' exc'" by blast
      have "ready (exec post1 ws) \<noteq> []"
      proof (rule all_unknown_quiet [OF _ _ _ g _ i(1) u])
        show "sched_inv (exec post1 ws)" using wis sis by (rule sched_inv_exec)
        show "wait_inv (exec post1 ws)" using wis sis was by (rule wait_inv_exec)
        show "p < length (tasks (exec post1 ws))" using wis lts by (rule lt_tasks_exec)
        show "sub_waits ms ?cs (tasks (exec post1 ws))" using wis k by (rule sub_waits_exec)
      qed
      with r show ?thesis by simp
    qed blast
  qed
  from 1 2 3 show ?thesis unfolding ex by blast
qed

section \<open>Unknown topic\<close>

text \<open>
  C7, as the specification states it, fails for the composite waits: they do suspend.
  \<^verbatim>\<open>await_any_messages('x')\<close>, for a name \<^verbatim>\<open>'x'\<close> the dict does not have, does not look the
  name up itself: its first step hands \<^verbatim>\<open>await_message('x')\<close> to \<^verbatim>\<open>asyncio.wait\<close> as a
  task and suspends.  A decoder created after the call runs to its end while the call is
  suspended, and the call raises the \<^verbatim>\<open>KeyError\<close> three steps of the loop later.
\<close>

theorem C7_counterexample:
  "tasks (exec [Create_task (Await_any_messages [''x'']),
                Create_task (Protocol_x_decoder
                  (Inr (JObj [(''type'', JStr ''a''), (''payload'', JObj [(''1'', JInt 1)])]))),
                Loop, Loop] (world0 :: unit world))
     = [In_asyncio_wait [2] False, Returned RNone, Created (Await_message ''x'')]
   \<and> tasks (exec [Create_task (Await_any_messages [''x'']),
                Create_task (Protocol_x_decoder
                  (Inr (JObj [(''type'', JStr ''a''), (''payload'', JObj [(''1'', JInt 1)])]))),
                Loop, Loop, Loop, Loop] (world0 :: unit world)) ! 0
     = In_asyncio_wait [2] True
   \<and> tasks (exec [Create_task (Await_any_messages [''x'']),
                Create_task (Protocol_x_decoder
                  (Inr (JObj [(''type'', JStr ''a''), (''payload'', JObj [(''1'', JInt 1)])]))),
                Loop, Loop, Loop, Loop, Loop] (world0 :: unit world)) ! 0
     = Raised (KeyError ''x_event'')"
  by (simp add: run_simps)

text \<open>
  C7, amended.  In any world the loop can reach from the initial one, let \<open>m\<close> be a name
  the dict does not have.  A call of \<^verbatim>\<open>await_message(m)\<close> that has not started is never
  suspended: whatever the loop does, it has not started yet or it has raised the
  \<^verbatim>\<open>KeyError\<close> of the lookup, and it raises it in its first step.  A call of
  \<^verbatim>\<open>await_any_messages\<close> or \<^verbatim>\<open>await_all_messages\<close> on names \<open>ms\<close> that include \<open>m\<close>
  never returns a result, whatever is dispatched meanwhile; the only exception it raises is
  the \<^verbatim>\<open>KeyError\<close> of a name of \<open>ms\<close> that the dict does not have; and it needs no
  notification and no timer to fail: whenever the loop has no handle left to run, the call
  has raised.
\<close>

theorem C7_unknown_topic_fails:
  fixes w :: "'f world"
  assumes "w = exec acts0 world0" and "p < length (tasks w)" and "m \<notin> {''a'', ''b'', ''c''}"
  shows "(tasks w ! p = Created (Await_message m) \<longrightarrow>
            (tasks (exec acts w) ! p = Created (Await_message m)
               \<or> tasks (exec acts w) ! p = Raised (KeyError (m @ ''_event'')))
          \<and> (\<forall>hs. ready w = Step p # hs \<longrightarrow>
                tasks (act w Loop) ! p = Raised (KeyError (m @ ''_event''))))
       \<and> (m \<in> set ms \<longrightarrow>
            tasks w ! p = Created (Await_any_messages ms)
              \<or> tasks w ! p = Created (Await_all_messages ms) \<longrightarrow>
            (\<forall>r. tasks (exec acts w) ! p \<noteq> Returned r)
          \<and> (\<forall>e. tasks (exec acts w) ! p = Raised e \<longrightarrow> unknown_topic ms e)
          \<and> (ready (exec acts w) = [] \<longrightarrow> (\<exists>e. tasks (exec acts w) ! p = Raised e)))"
proof (intro conjI impI allI)
  have wi: "world_inv w" unfolding assms(1) using reachable_inv [of acts0] by simp
  {
    assume c: "tasks w ! p = Created (Await_message m)"
    then have "awaits m (tasks w ! p)" by (simp add: awaits_def)
    from awaits_exec [OF wi assms(2) this, of acts]
    show "tasks (exec acts w) ! p = Created (Await_message m)
        \<or> tasks (exec acts w) ! p = Raised (KeyError (m @ ''_event''))"
      using assms(3) by (rule awaits_unknown)
  }
  {
    fix hs
    assume c: "tasks w ! p = Created (Await_message m)" and r: "ready w = Step p # hs"
    have "world_inv (w\<lparr>ready := hs\<rparr>)" using wi by simp
    from step_await_message [OF this, of p m] assms(2,3) c
    have "step p (w\<lparr>ready := hs\<rparr>) = finish p (Raised (KeyError (m @ ''_event''))) (w\<lparr>ready := hs\<rparr>)"
      by auto
    with r assms(2) show "tasks (act w Loop) ! p = Raised (KeyError (m @ ''_event''))" by simp
  }
next
  have inv: "world_inv w" "sched_inv w" "wait_inv w"
    unfolding assms(1) using reachable_inv [of acts0] by simp_all
  assume m: "m \<in> set ms"
    and c: "tasks w ! p = Created (Await_any_messages ms) \<or> tasks w ! p = Created (Await_all_messages ms)"
  have all: "(\<forall>r. tasks (exec acts w) ! p \<noteq> Returned r)
       \<and> (\<forall>e. tasks (exec acts w) ! p = Raised e \<longrightarrow> unknown_topic ms e)
       \<and> (ready (exec acts w) = [] \<longrightarrow> (\<exists>e. tasks (exec acts w) ! p = Raised e))"
    using c any_unknown [OF inv assms(2) _ m assms(3), of acts]
      all_unknown [OF inv assms(2) _ m assms(3), of acts] by blast
  {
    fix r show "tasks (exec acts w) ! p \<noteq> Returned r" using all by blast
  }
  {
    fix e assume "tasks (exec acts w) ! p = Raised e"
    with all show "unknown_topic ms e" by blast
  }
  {
    assume "ready (exec acts w) = []"
    with all show "\<exists>e. tasks (exec acts w) ! p = Raised e" by blast
  }
qed

theorem C7_unknown_topic_fails_witness:
  "tasks (act (exec [Create_task (Await_message ''x''),
                     Create_task (Await_any_messages [''a'', ''x''])] (world0 :: unit world)) Loop) ! 0
     = Raised (KeyError ''x_event'')
   \<and> (\<exists>e. tasks (exec [Loop, Loop, Loop, Loop, Loop, Loop]
              (exec [Create_task (Await_message ''x''),
                     Create_task (Await_any_messages [''a'', ''x''])] (world0 :: unit world))) ! 1
            = Raised e \<and> unknown_topic [''a'', ''x''] e)"
proof -
  let ?w = "exec [Create_task (Await_message ''x''),
                  Create_task (Await_any_messages [''a'', ''x''])] (world0 :: unit world)"
  let ?acts = "[Loop, Loop, Loop, Loop, Loop, Loop] :: unit action list"
  have x: "''x'' \<notin> {''a'', ''b'', ''c''}" by simp
  have h0: "0 < length (tasks ?w)" "tasks ?w ! 0 = Created (Await_message ''x'')"
    "ready ?w = Step 0 # [Step 1]"
    by (simp_all add: run_simps)
  have h1: "1 < length (tasks ?w)" "''x'' \<in> set [''a'', ''x'']"
    "tasks ?w ! 1 = Created (Await_any_messages [''a'', ''x''])"
    "ready (exec ?acts ?w) = []"
    by (simp_all add: run_simps)
  from C7_unknown_topic_fails [OF refl h0(1) x, of ?acts "[]"] h0(2,3)
  have 1: "tasks (act ?w Loop) ! 0 = Raised (KeyError (''x'' @ ''_event''))" by blast
  from C7_unknown_topic_fails [OF refl h1(1) x, of ?acts "[''a'', ''x'']"] h1(2,3,4)
  have 2: "\<exists>e. tasks (exec ?acts ?w) ! 1 = Raised e \<and> unknown_topic [''a'', ''x''] e" by blast
  from 1 2 show ?thesis by simp
qed

section \<open>Waiting for any: what the call returns\<close>

lemma notified_simps [simp]:
  "notified m (In_wait m' f) = (m' = m \<and> f)" "notified m (Returned r) = (r = RStr m)"
  "\<not> notified m (Created cl)" "\<not> notified m (Raised e)" "\<not> notified m Blocked"
  "\<not> notified m (In_gather ms cs n e2)" "\<not> notified m (In_asyncio_wait cs b)"
  by (auto simp: notified_def)

lemma notified_act:
  fixes w :: "'f world"
  assumes "world_inv w" "x < length (tasks w)" "notified m (tasks w ! x)"
  shows "notified m (tasks (act w a) ! x)"
proof (cases "tasks w ! x = In_wait m True")
  case True
  from act_woken [OF assms(1,2) True, of a] show ?thesis by auto
next
  case False
  with assms(3) have r: "tasks w ! x = Returned (RStr m)" by (simp add: notified_def)
  then have "is_final (tasks w ! x)" by simp
  from act_final [OF assms(1,2) this, of a] r show ?thesis by simp
qed

lemma notified_exec:
  fixes w :: "'f world"
  shows "world_inv w \<Longrightarrow> x < length (tasks w) \<Longrightarrow> notified m (tasks w ! x) \<Longrightarrow>
     notified m (tasks (exec acts w) ! x)"
  by (induction acts arbitrary: w) (simp_all add: notified_act world_inv_act lt_tasks_act)

text \<open>A dispatch of \<open>m\<close> sets the future of every task registered for \<open>m\<close>.\<close>

lemma dispatch_wakes:
  fixes w :: "'f world"
  assumes wi: "world_inv w" and x: "x < length (tasks w)" "tasks w ! x = In_wait m False"
    and d: "dispatches m w"
  shows "tasks (act w Loop) ! x = In_wait m True"
proof -
  from d obtain t hs cl where r: "ready w = Step t # hs" and t: "t < length (tasks w)"
    "tasks w ! t = Created cl" "dispatch_type cl = Some m"
    unfolding dispatches_def by (auto split: list.splits handle.splits coro.splits)
  from t(3) obtain message where cl: "cl = Protocol_x_decoder message"
    by (cases cl) simp_all
  let ?w = "w\<lparr>ready := hs\<rparr>"
  have wi': "world_inv ?w" using wi by simp
  from winvD_registered [OF wi [unfolded world_inv_def] x]
  obtain c where c: "state w (m @ ''_event'') = Some (Cond c)" "x \<in> set (waiters c)" by blast
  from step_decoder [OF wi', of t message] t cl c(1)
  obtain P where st: "step t ?w = finish t (Returned RNone)
              ((foldl set_result ?w (waiters c))\<lparr>state := (state w)(m \<mapsto> Val P)\<rparr>)"
    by auto
  have ne: "x \<noteq> t" using x(2) t(2) by auto
  have "tasks (step t ?w) ! x = In_wait m True"
    unfolding st using ne x c(2) by (simp add: tasks_foldl_set_result wake_def)
  with r show ?thesis by simp
qed

text \<open>A sub-wait that has been notified was registered when its topic was dispatched.\<close>

lemma created_notified:
  fixes w :: "'f world"
  assumes wi: "world_inv w" and x: "x < length (tasks w)" "tasks w ! x = Created (Await_message m)"
    and n: "notified m (tasks (exec acts w) ! x)"
  shows "\<exists>pre post. acts = pre @ Loop # post \<and> tasks (exec pre w) ! x = In_wait m False \<and>
           dispatches m (exec pre w)"
proof -
  let ?P = "\<lambda>c :: 'f coro. c = Created (Await_message m) \<or> c = In_wait m False"
  have "?P (tasks w ! x)" using x(2) by simp
  moreover have "\<not> ?P (tasks (exec acts w) ! x)" using n by (auto simp: notified_def)
  ultimately obtain pre a post where
    a: "acts = pre @ a # post" "?P (tasks (exec pre w) ! x)"
    "\<not> ?P (tasks (act (exec pre w) a) ! x)"
    using first_change [of ?P w x acts] by blast
  define v where "v = exec pre w"
  have wiv: "world_inv v" unfolding v_def using wi by (rule world_inv_exec)
  have ltv: "x < length (tasks v)" unfolding v_def using wi x(1) by (rule lt_tasks_exec)
  have ex: "exec acts w = exec post (act v a)" unfolding v_def a(1) by (simp add: exec_append)
  from a(2) [folded v_def] show ?thesis
  proof
    assume c: "tasks v ! x = Created (Await_message m)"
    from act_created_await_message [OF wiv ltv c, of a] a(3) [folded v_def]
    have r: "tasks (act v a) ! x = Raised (KeyError (m @ ''_event''))" by auto
    then have "is_final (tasks (act v a) ! x)" by simp
    from final_exec [OF world_inv_act [OF wiv] lt_tasks_act [OF wiv ltv] this, of post] r n
    show ?thesis unfolding ex by simp
  next
    assume c: "tasks v ! x = In_wait m False"
    from act_pending [OF wiv ltv c, of a] a(3) [folded v_def]
    have "a = Loop" "dispatches m v" by auto
    with a(1) c show ?thesis unfolding v_def by blast
  qed
qed

text \<open>A task suspended in \<^verbatim>\<open>asyncio.wait\<close> goes from pending to woken to finished.\<close>

lemma any_woken_exec:
  fixes w :: "'f world"
  assumes "world_inv w" "p < length (tasks w)" "tasks w ! p = In_asyncio_wait cs True"
  shows "tasks (exec acts w) ! p = In_asyncio_wait cs True \<or> is_final (tasks (exec acts w) ! p)"
proof (induction acts rule: rev_induct)
  case Nil
  with assms show ?case by simp
next
  case (snoc a xs)
  have wi: "world_inv (exec xs w)" using assms(1) by (rule world_inv_exec)
  have lt: "p < length (tasks (exec xs w))" using assms(1,2) by (rule lt_tasks_exec)
  from snoc.IH show ?case
  proof
    assume "tasks (exec xs w) ! p = In_asyncio_wait cs True"
    from act_any_woken [OF wi lt this, of a] show ?thesis
      by (auto simp: exec_append split: sum.splits)
  next
    assume "is_final (tasks (exec xs w) ! p)"
    with act_final [OF wi lt this, of a] show ?thesis by (simp add: exec_append)
  qed
qed

lemma any_pending_exec:
  fixes w :: "'f world"
  assumes "world_inv w" "p < length (tasks w)" "tasks w ! p = In_asyncio_wait cs False"
  shows "tasks (exec acts w) ! p = In_asyncio_wait cs False
       \<or> tasks (exec acts w) ! p = In_asyncio_wait cs True
       \<or> is_final (tasks (exec acts w) ! p)"
proof (induction acts rule: rev_induct)
  case Nil
  with assms show ?case by simp
next
  case (snoc a xs)
  have wi: "world_inv (exec xs w)" using assms(1) by (rule world_inv_exec)
  have lt: "p < length (tasks (exec xs w))" using assms(1,2) by (rule lt_tasks_exec)
  from snoc.IH show ?case
  proof (elim disjE)
    assume "tasks (exec xs w) ! p = In_asyncio_wait cs True"
    from act_any_woken [OF wi lt this, of a] show ?thesis
      by (auto simp: exec_append split: sum.splits)
  next
    assume "tasks (exec xs w) ! p = In_asyncio_wait cs False"
    from act_any_pending [OF wi lt this, of a] lt show ?thesis
      by (auto simp: exec_append)
  next
    assume "is_final (tasks (exec xs w) ! p)"
    with act_final [OF wi lt this, of a] show ?thesis by (simp add: exec_append)
  qed
qed

text \<open>If the call is still pending later, it was pending all along.\<close>

lemma any_pending_before:
  fixes w :: "'f world"
  assumes wi: "world_inv w" and p: "p < length (tasks w)" "tasks w ! p = In_asyncio_wait cs False"
    and l: "tasks (exec (xs @ ys) w) ! p = In_asyncio_wait cs False"
  shows "tasks (exec xs w) ! p = In_asyncio_wait cs False"
proof (rule ccontr)
  assume n: "tasks (exec xs w) ! p \<noteq> In_asyncio_wait cs False"
  have wi': "world_inv (exec xs w)" using wi by (rule world_inv_exec)
  have lt': "p < length (tasks (exec xs w))" using wi p(1) by (rule lt_tasks_exec)
  from any_pending_exec [OF wi p, of xs] n
  have "tasks (exec xs w) ! p = In_asyncio_wait cs True \<or> is_final (tasks (exec xs w) ! p)"
    by blast
  then have "tasks (exec ys (exec xs w)) ! p = In_asyncio_wait cs True
      \<or> is_final (tasks (exec ys (exec xs w)) ! p)"
  proof
    assume "tasks (exec xs w) ! p = In_asyncio_wait cs True"
    from any_woken_exec [OF wi' lt' this, of ys] show ?thesis .
  next
    assume f: "is_final (tasks (exec xs w) ! p)"
    from final_exec [OF wi' lt' f, of ys] f show ?thesis by simp
  qed
  with l show False by (auto simp: exec_append)
qed

lemma task_results_zip:
  assumes "length cs = length ms"
    and "\<forall>(c, m) \<in> set (zip cs ms).
           (N c m \<longrightarrow> f c = Returned (RStr m)) \<and> (\<not> N c m \<longrightarrow> \<not> is_done (f c))"
  shows "task_results (map f (filter (\<lambda>c. is_done (f c)) cs))
       = Inr (map snd (filter (\<lambda>(c, m). N c m) (zip cs ms)))"
  using assms
proof (induction cs ms rule: list_induct2)
  case Nil
  then show ?case by simp
next
  case (Cons c cs m ms)
  then have IH: "task_results (map f (filter (\<lambda>c. is_done (f c)) cs))
       = Inr (map snd (filter (\<lambda>(c, m). N c m) (zip cs ms)))"
    by simp
  from Cons.prems have h: "(N c m \<longrightarrow> f c = Returned (RStr m)) \<and> (\<not> N c m \<longrightarrow> \<not> is_done (f c))"
    by simp
  show ?case
  proof (cases "N c m")
    case True
    with h IH show ?thesis by simp
  next
    case False
    with h IH show ?thesis by simp
  qed
qed

lemma in_time_act:
  fixes v :: "'f world"
  assumes wi: "world_inv v" and wa: "wait_inv v"
    and p: "p < length (tasks v)" and c: "c < length (tasks v)" "c \<noteq> p"
    and pt: "tasks v ! p = In_asyncio_wait cs True"
    and pt': "tasks (act v a) ! p = In_asyncio_wait cs True"
    and t: "in_time p c m n v"
  shows "in_time p c m n (act v a)"
proof -
  from t obtain pre post where r: "ready v = pre @ Step p # post" and np: "Step p \<notin> set pre"
    and s: "if n then tasks v ! c = Returned (RStr m) \<or> (tasks v ! c = In_wait m True \<and> Step c \<in> set pre)
         else tasks v ! c = Created (Await_message m) \<or> tasks v ! c = In_wait m False
              \<or> (tasks v ! c = In_wait m True \<and> Step c \<notin> set pre) \<or> is_raised (tasks v ! c)"
    unfolding in_time_def by blast
  show ?thesis
  proof (cases a)
    case (Create_task cl)
    have "ready (act v a) = pre @ Step p # (post @ [Step (length (tasks v))])"
      using Create_task r by simp
    moreover have "tasks (act v a) ! c = tasks v ! c" using Create_task c(1) by (simp add: nth_append)
    ultimately show ?thesis using np s unfolding in_time_def by metis
  next
    case Loop
    show ?thesis
    proof (cases pre)
      case Nil
      with r have "act v Loop = step p (v\<lparr>ready := post\<rparr>)" by simp
      then have "is_final (tasks (act v Loop) ! p)" using p pt
        by (simp add: step_def await_any_messages_wakeup_def Let_def split: sum.splits)
      with pt' Loop show ?thesis by simp
    next
      case (Cons h pre')
      with r have r': "ready v = h # (pre' @ Step p # post)" by simp
      from ready_act_Loop [OF wi r'] obtain q' where
        "ready (act v Loop) = (pre' @ Step p # post) @ q'" by blast
      then have rn: "ready (act v a) = pre' @ Step p # (post @ q')" using Loop by simp
      have np': "Step p \<notin> set pre'" using np Cons by simp
      have sub: "set pre' \<subseteq> set pre" using Cons by auto
      show ?thesis
      proof (cases n)
        case True
        with s have "tasks v ! c = Returned (RStr m) \<or> (tasks v ! c = In_wait m True \<and> Step c \<in> set pre)"
          by simp
        then have "tasks (act v a) ! c = Returned (RStr m)
            \<or> (tasks (act v a) ! c = In_wait m True \<and> Step c \<in> set pre')"
        proof (elim disjE conjE)
          assume f: "tasks v ! c = Returned (RStr m)"
          then have "is_final (tasks v ! c)" by simp
          from act_final [OF wi c(1) this, of a] f show ?thesis by simp
        next
          assume f: "tasks v ! c = In_wait m True" and q: "Step c \<in> set pre"
          show ?thesis
          proof (cases "h = Step c")
            case True
            with r' Loop have eq: "act v a = step c (v\<lparr>ready := pre' @ Step p # post\<rparr>)" by simp
            have "world_inv (v\<lparr>ready := pre' @ Step p # post\<rparr>)" using wi by simp
            from step_wakeup [OF this, of c m] c(1) f
            have "tasks (step c (v\<lparr>ready := pre' @ Step p # post\<rparr>)) ! c = Returned (RStr m)"
              by auto
            with eq show ?thesis by simp
          next
            case False
            with act_woken [OF wi c(1) f, of a] r'
            have "tasks (act v a) ! c = In_wait m True" by auto
            moreover have "Step c \<in> set pre'" using q Cons False by auto
            ultimately show ?thesis by simp
          qed
        qed
        with rn np' True show ?thesis unfolding in_time_def by auto
      next
        case False
        with s have "tasks v ! c = Created (Await_message m) \<or> tasks v ! c = In_wait m False
              \<or> (tasks v ! c = In_wait m True \<and> Step c \<notin> set pre) \<or> is_raised (tasks v ! c)"
          by simp
        then have "tasks (act v a) ! c = Created (Await_message m) \<or> tasks (act v a) ! c = In_wait m False
              \<or> (tasks (act v a) ! c = In_wait m True \<and> Step c \<notin> set pre')
              \<or> is_raised (tasks (act v a) ! c)"
        proof (elim disjE conjE)
          assume "tasks v ! c = Created (Await_message m)"
          from act_created_await_message [OF wi c(1) this, of a] show ?thesis by auto
        next
          assume f: "tasks v ! c = In_wait m False"
          have "uinv (tasks v) (ready v)" using wa by (simp add: wait_inv_def)
          from uinvD [OF this c(1) f] have "Step c \<notin> set pre'" unfolding r' by simp
          with act_pending [OF wi c(1) f, of a] show ?thesis by auto
        next
          assume f: "tasks v ! c = In_wait m True" and q: "Step c \<notin> set pre"
          then have "h \<noteq> Step c" using Cons by auto
          with act_woken [OF wi c(1) f, of a] r'
          have "tasks (act v a) ! c = In_wait m True" by auto
          moreover have "Step c \<notin> set pre'" using q sub by auto
          ultimately show ?thesis by simp
        next
          assume f: "is_raised (tasks v ! c)"
          then have "is_final (tasks v ! c)" by (auto dest: is_raised_done is_done_final)
          from act_final [OF wi c(1) this, of a] f show ?thesis by simp
        qed
        with rn np' False show ?thesis unfolding in_time_def by auto
      qed
    qed
  qed
qed

lemma in_time_exec:
  fixes v :: "'f world"
  assumes wi: "world_inv v" and si: "sched_inv v" and wa: "wait_inv v"
    and p: "p < length (tasks v)" and c: "c < length (tasks v)" "c \<noteq> p"
    and pt: "tasks v ! p = In_asyncio_wait cs True"
    and t: "in_time p c m n v"
  shows "tasks (exec xs v) ! p = In_asyncio_wait cs True \<Longrightarrow> in_time p c m n (exec xs v)"
proof (induction xs rule: rev_induct)
  case Nil
  with t show ?case by simp
next
  case (snoc a xs)
  define u where "u = exec xs v"
  have wiu: "world_inv u" unfolding u_def using wi by (rule world_inv_exec)
  have wau: "wait_inv u" unfolding u_def using wi si wa by (rule wait_inv_exec)
  have ltp: "p < length (tasks u)" unfolding u_def using wi p by (rule lt_tasks_exec)
  have ltc: "c < length (tasks u)" unfolding u_def using wi c(1) by (rule lt_tasks_exec)
  have nx: "tasks (act u a) ! p = In_asyncio_wait cs True"
    using snoc.prems unfolding u_def by (simp add: exec_append)
  have pu: "tasks u ! p = In_asyncio_wait cs True"
  proof (rule ccontr)
    assume "tasks u ! p \<noteq> In_asyncio_wait cs True"
    with any_woken_exec [OF wi p pt, of xs] have f: "is_final (tasks u ! p)"
      unfolding u_def by blast
    from act_final [OF wiu ltp f, of a] nx have "tasks u ! p = In_asyncio_wait cs True" by simp
    with f show False by simp
  qed
  from snoc.IH [folded u_def, OF pu] have "in_time p c m n u" .
  from in_time_act [OF wiu wau ltp ltc c(2) pu nx this]
  show ?case unfolding u_def by (simp add: exec_append)
qed

lemma in_time_head:
  assumes "in_time p c m n v" "ready v = Step p # hs"
  shows "if n then tasks v ! c = Returned (RStr m) else tasks v ! c \<noteq> Returned (RStr m)"
proof -
  from assms(1) obtain pre post where r: "ready v = pre @ Step p # post" and np: "Step p \<notin> set pre"
    and s: "if n then tasks v ! c = Returned (RStr m) \<or> (tasks v ! c = In_wait m True \<and> Step c \<in> set pre)
         else tasks v ! c = Created (Await_message m) \<or> tasks v ! c = In_wait m False
              \<or> (tasks v ! c = In_wait m True \<and> Step c \<notin> set pre) \<or> is_raised (tasks v ! c)"
    unfolding in_time_def by blast
  have "pre = []"
  proof (cases pre)
    case (Cons h pre')
    with r assms(2) have "h = Step p" by simp
    with np Cons show ?thesis by simp
  qed simp
  with s show ?thesis by (cases n) auto
qed

lemma awaits_not_notified:
  "awaits m c \<Longrightarrow> \<not> notified m c \<Longrightarrow>
     c = Created (Await_message m) \<or> c = In_wait m False \<or> is_raised c"
  unfolding awaits_def notified_def by auto

lemma awaits_done:
  "awaits m c \<Longrightarrow> is_done c \<Longrightarrow> c = Returned (RStr m) \<or> is_raised c"
  unfolding awaits_def by auto

lemma notified_names_mem:
  assumes "length cs = length ms" "i < length ms" "notified (ms ! i) (ts ! (cs ! i))"
  shows "ms ! i \<in> set (notified_names cs ms ts)"
proof -
  have "(cs ! i, ms ! i) \<in> set (zip cs ms)" using assms(1,2) by (auto simp: in_set_zip)
  with assms(3) have "(cs ! i, ms ! i) \<in> set (filter (\<lambda>(c, m). notified m (ts ! c)) (zip cs ms))"
    by simp
  then have "snd (cs ! i, ms ! i) \<in> set (notified_names cs ms ts)"
    unfolding notified_names_def by (simp only: set_map) (rule imageI)
  then show ?thesis by simp
qed

lemma notified_names_elim:
  assumes "m \<in> set (notified_names cs ms ts)"
  shows "\<exists>i. i < length ms \<and> i < length cs \<and> ms ! i = m \<and> notified m (ts ! (cs ! i))"
proof -
  from assms obtain c where "(c, m) \<in> set (zip cs ms)" "notified m (ts ! c)"
    unfolding notified_names_def by auto
  then show ?thesis by (auto simp: in_set_zip)
qed

text \<open>The world in which a call of \<^verbatim>\<open>await_any_messages\<close> has just been woken, and what
  it returns from there.\<close>

lemma any_result:
  fixes v :: "'f world"
  assumes wi: "world_inv v" and si: "sched_inv v" and wa: "wait_inv v"
    and p: "p < length (tasks v)" "tasks v ! p = In_asyncio_wait cs True"
    and r: "ready v = hs @ [Step p]" "Step p \<notin> set hs"
    and k: "sub_waits ms cs (tasks v)" "\<forall>c \<in> set cs. c \<noteq> p"
    and fin: "tasks (exec xs v) ! p = Returned res"
  shows "res = RList (notified_names cs ms (tasks v))
       \<and> (\<forall>c \<in> set cs. is_done (tasks v ! c) \<longrightarrow> \<not> is_raised (tasks v ! c))"
proof -
  let ?P = "\<lambda>c :: 'f coro. c = In_asyncio_wait cs True"
  have "\<not> ?P (tasks (exec xs v) ! p)" using fin by simp
  from first_change [of ?P, OF p(2) this] obtain c1 c post3 where
    c0: "xs = c1 @ c # post3" "tasks (exec c1 v) ! p = In_asyncio_wait cs True"
    "tasks (act (exec c1 v) c) ! p \<noteq> In_asyncio_wait cs True"
    by blast
  define v2 where "v2 = exec c1 v"
  note c = c0 [folded v2_def]
  have wi2: "world_inv v2" unfolding v2_def using wi by (rule world_inv_exec)
  have lt2: "p < length (tasks v2)" unfolding v2_def using wi p(1) by (rule lt_tasks_exec)
  have k2: "sub_waits ms cs (tasks v2)" unfolding v2_def using wi k(1) by (rule sub_waits_exec)
  let ?xs2 = "map (\<lambda>c. tasks v2 ! c) (filter (\<lambda>c. is_done (tasks v2 ! c)) cs)"
  from act_any_woken [OF wi2 lt2 c(2), of c] c(3) obtain hs2 where
    h2: "ready v2 = Step p # hs2"
    and t2: "tasks (act v2 c) ! p =
      (case task_results ?xs2 of Inl e \<Rightarrow> Raised e | Inr names \<Rightarrow> Returned (RList names))"
    by blast
  have "is_final (tasks (act v2 c) ! p)" unfolding t2 by (simp split: sum.splits)
  from final_exec [OF world_inv_act [OF wi2] lt_tasks_act [OF wi2 lt2] this, of post3]
  have "tasks (exec xs v) ! p = tasks (act v2 c) ! p"
    unfolding c0(1) v2_def by (simp add: exec_append)
  with fin t2 have res: "task_results ?xs2 = Inr (case res of RList names \<Rightarrow> names | _ \<Rightarrow> [])"
    "\<exists>names. res = RList names"
    by (auto split: sum.splits)
  have noraise: "\<not> is_raised (tasks v2 ! x)" if "x \<in> set cs" for x
  proof
    assume "is_raised (tasks v2 ! x)"
    then obtain e where e: "tasks v2 ! x = Raised e" by (cases "tasks v2 ! x") simp_all
    then have "Raised e \<in> set ?xs2" using that by (auto simp: image_iff intro!: bexI [of _ x])
    from task_results_raised [OF this] res(1) show False by auto
  qed
  have each: "(notified (ms ! i) (tasks v ! (cs ! i)) \<longrightarrow> tasks v2 ! (cs ! i) = Returned (RStr (ms ! i)))
      \<and> (\<not> notified (ms ! i) (tasks v ! (cs ! i)) \<longrightarrow> \<not> is_done (tasks v2 ! (cs ! i)))"
    if i: "i < length ms" for i
  proof -
    let ?c = "cs ! i" and ?m = "ms ! i"
    define n where "n = notified ?m (tasks v ! ?c)"
    from k(1) i have lc: "length cs = length ms" "?c < length (tasks v)" "awaits ?m (tasks v ! ?c)"
      unfolding sub_waits_def by simp_all
    have cin: "?c \<in> set cs" using lc(1) i by simp
    with k(2) have ne: "?c \<noteq> p" by blast
    have "in_time p ?c ?m n v"
    proof (cases n)
      case True
      then have "tasks v ! ?c = In_wait ?m True \<or> tasks v ! ?c = Returned (RStr ?m)"
        unfolding n_def notified_def .
      then have "tasks v ! ?c = Returned (RStr ?m) \<or> (tasks v ! ?c = In_wait ?m True \<and> Step ?c \<in> set hs)"
      proof
        assume f: "tasks v ! ?c = In_wait ?m True"
        have "qinv (tasks v) (ready v)" using si by (simp add: sched_inv_def)
        from qinvD_woken [OF this lc(2) f] ne have "Step ?c \<in> set hs" unfolding r(1) by simp
        with f show ?thesis by simp
      qed simp
      with True r have "ready v = hs @ Step p # [] \<and> Step p \<notin> set hs \<and>
        (if n then tasks v ! ?c = Returned (RStr ?m) \<or> (tasks v ! ?c = In_wait ?m True \<and> Step ?c \<in> set hs)
         else tasks v ! ?c = Created (Await_message ?m) \<or> tasks v ! ?c = In_wait ?m False
              \<or> (tasks v ! ?c = In_wait ?m True \<and> Step ?c \<notin> set hs) \<or> is_raised (tasks v ! ?c))"
        by simp
      then show ?thesis unfolding in_time_def by blast
    next
      case False
      then have "\<not> notified ?m (tasks v ! ?c)" unfolding n_def .
      from awaits_not_notified [OF lc(3) this] False r
      have "ready v = hs @ Step p # [] \<and> Step p \<notin> set hs \<and>
        (if n then tasks v ! ?c = Returned (RStr ?m) \<or> (tasks v ! ?c = In_wait ?m True \<and> Step ?c \<in> set hs)
         else tasks v ! ?c = Created (Await_message ?m) \<or> tasks v ! ?c = In_wait ?m False
              \<or> (tasks v ! ?c = In_wait ?m True \<and> Step ?c \<notin> set hs) \<or> is_raised (tasks v ! ?c))"
        by auto
      then show ?thesis unfolding in_time_def by blast
    qed
    from in_time_exec [OF wi si wa p(1) lc(2) ne p(2) this, of c1] c(2)
    have "in_time p ?c ?m n v2" unfolding v2_def by simp
    from in_time_head [OF this h2]
    have hd: "if n then tasks v2 ! ?c = Returned (RStr ?m) else tasks v2 ! ?c \<noteq> Returned (RStr ?m)" .
    from k2 i have a2: "awaits ?m (tasks v2 ! ?c)" unfolding sub_waits_def by simp
    show ?thesis
    proof (cases n)
      case True
      with hd show ?thesis unfolding n_def by simp
    next
      case False
      with hd have "tasks v2 ! ?c \<noteq> Returned (RStr ?m)" by simp
      with awaits_done [OF a2] noraise [OF cin] have "\<not> is_done (tasks v2 ! ?c)" by blast
      with False show ?thesis unfolding n_def by simp
    qed
  qed
  have len: "length cs = length ms" using k(1) unfolding sub_waits_def by simp
  have "task_results ?xs2 = Inr (map snd (filter (\<lambda>(c, m). notified m (tasks v ! c)) (zip cs ms)))"
  proof (rule task_results_zip [OF len])
    show "\<forall>(c, m) \<in> set (zip cs ms).
        (notified m (tasks v ! c) \<longrightarrow> tasks v2 ! c = Returned (RStr m))
        \<and> (\<not> notified m (tasks v ! c) \<longrightarrow> \<not> is_done (tasks v2 ! c))"
      using each by (auto simp: in_set_zip)
  qed
  with res have 1: "res = RList (notified_names cs ms (tasks v))"
    unfolding notified_names_def by auto
  have 2: "\<forall>x \<in> set cs. is_done (tasks v ! x) \<longrightarrow> \<not> is_raised (tasks v ! x)"
  proof (intro ballI impI notI)
    fix x assume x: "x \<in> set cs" and "is_done (tasks v ! x)" and ra: "is_raised (tasks v ! x)"
    from sub_waits_nth [OF k(1) x] have lx: "x < length (tasks v)" by blast
    from ra have "is_final (tasks v ! x)" by (auto dest: is_raised_done is_done_final)
    from final_exec [OF wi lx this, of c1] ra have "is_raised (tasks v2 ! x)" unfolding v2_def by simp
    with noraise [OF x] show False ..
  qed
  from 1 2 show ?thesis by blast
qed

section \<open>Waiting for any: the call returns\<close>

text \<open>The loop is first-in first-out: a queued handle is run once the handles before it
  have been.\<close>

lemma queued_runs:
  fixes w :: "'f world"
  shows "world_inv w \<Longrightarrow> i < length (ready w) \<Longrightarrow> ready w ! i = h \<Longrightarrow>
     i < count_list acts Loop \<Longrightarrow>
     \<exists>pre post hs. acts = pre @ Loop # post \<and> ready (exec pre w) = h # hs"
proof (induction acts arbitrary: w i)
  case Nil
  then show ?case by simp
next
  case (Cons a acts)
  have wi': "world_inv (act w a)" using Cons.prems(1) by (rule world_inv_act)
  show ?case
  proof (cases a)
    case (Create_task cl)
    with Cons.prems have "i < length (ready (act w a))" "ready (act w a) ! i = h"
      "i < count_list acts Loop"
      by (simp_all add: nth_append)
    from Cons.IH [OF wi' this] obtain pre post hs where
      "acts = pre @ Loop # post" "ready (exec pre (act w a)) = h # hs" by blast
    then have "a # acts = (a # pre) @ Loop # post \<and> ready (exec (a # pre) w) = h # hs" by simp
    then show ?thesis by blast
  next
    case Loop
    from Cons.prems(2) obtain h0 hs0 where hs: "ready w = h0 # hs0" by (cases "ready w") auto
    show ?thesis
    proof (cases i)
      case 0
      with Cons.prems(3) hs have "ready (exec [] w) = h # hs0" by simp
      moreover have "a # acts = [] @ Loop # acts" using Loop by simp
      ultimately show ?thesis by blast
    next
      case (Suc j)
      from ready_act_Loop [OF Cons.prems(1) hs] obtain q where q: "ready (act w a) = hs0 @ q"
        using Loop by auto
      with Cons.prems hs Suc Loop have "j < length (ready (act w a))" "ready (act w a) ! j = h"
        "j < count_list acts Loop"
        by (simp_all add: nth_append)
      from Cons.IH [OF wi' this] obtain pre post hs where
        "acts = pre @ Loop # post" "ready (exec pre (act w a)) = h # hs" by blast
      then have "a # acts = (a # pre) @ Loop # post \<and> ready (exec (a # pre) w) = h # hs" by simp
      then show ?thesis by blast
    qed
  qed
qed

lemma member_runs:
  fixes w :: "'f world"
  assumes "world_inv w" "h \<in> set (ready w)" "length (ready w) \<le> count_list acts Loop"
  shows "\<exists>pre post hs. acts = pre @ Loop # post \<and> ready (exec pre w) = h # hs"
proof -
  from assms(2) obtain i where "i < length (ready w)" "ready w ! i = h"
    by (auto simp: in_set_conv_nth)
  moreover from this(1) assms(3) have "i < count_list acts Loop" by simp
  ultimately show ?thesis using assms(1) by (rule queued_runs [rotated])
qed

lemma sub_waits_known:
  assumes "sub_waits ms cs ts" "set ms \<subseteq> {''a'', ''b'', ''c''}" "c \<in> set cs"
  shows "\<not> is_raised (ts ! c)"
proof
  assume r: "is_raised (ts ! c)"
  then obtain e where e: "ts ! c = Raised e" by (cases "ts ! c") simp_all
  from sub_waits_raised [OF assms(1,3) e] assms(2) show False
    unfolding unknown_topic_def by auto
qed

lemma task_results_known:
  fixes ts :: "'f coro list"
  assumes "sub_waits ms cs ts" "set ms \<subseteq> {''a'', ''b'', ''c''}"
  shows "\<exists>names. task_results (map (\<lambda>c. ts ! c) (filter (\<lambda>c. is_done (ts ! c)) cs)) = Inr names"
proof (cases "task_results (map (\<lambda>c. ts ! c) (filter (\<lambda>c. is_done (ts ! c)) cs))")
  case (Inl e)
  from task_results_Inl [OF this] obtain c where "c \<in> set cs" "ts ! c = Raised e" by auto
  with sub_waits_known [OF assms this(1)] show ?thesis by simp
next
  case (Inr names)
  then show ?thesis by blast
qed

text \<open>The step of a woken \<^verbatim>\<open>asyncio.wait\<close> over names of the dict returns.\<close>

lemma any_step_returns:
  fixes v :: "'f world"
  assumes p: "p < length (tasks v)" "tasks v ! p = In_asyncio_wait cs True"
    and r: "ready v = Step p # hs"
    and k: "sub_waits ms cs (tasks v)" "set ms \<subseteq> {''a'', ''b'', ''c''}"
  shows "\<exists>names. tasks (act v Loop) ! p = Returned (RList names)"
proof -
  from task_results_known [OF k] obtain names where
    n: "task_results (map (\<lambda>c. tasks v ! c) (filter (\<lambda>c. is_done (tasks v ! c)) cs)) = Inr names"
    by blast
  have "act v Loop = await_any_messages_wakeup p cs (v\<lparr>ready := hs\<rparr>)"
    using r p by (simp add: step_def)
  then have "tasks (act v Loop) ! p = Returned (RList names)"
    using n p(1) by (simp add: await_any_messages_wakeup_def Let_def)
  then show ?thesis by blast
qed

text \<open>The done-callback of a pending \<^verbatim>\<open>asyncio.wait\<close> sets its waiter.\<close>

lemma callback_sets:
  fixes v :: "'f world"
  assumes "p < length (tasks v)" "tasks v ! p = In_asyncio_wait cs False"
    and "ready v = Done_callback p c # hs" "c < length (tasks v)"
  shows "tasks (act v Loop) ! p = In_asyncio_wait cs True"
  using assms by (simp add: done_callback_def wait_done_callback_def)

lemma act_any_woken_known:
  fixes v :: "'f world"
  assumes wi: "world_inv v" and p: "p < length (tasks v)" "tasks v ! p = In_asyncio_wait cs True"
    and k: "sub_waits ms cs (tasks v)" "set ms \<subseteq> {''a'', ''b'', ''c''}"
  shows "tasks (act v a) ! p = In_asyncio_wait cs True
       \<or> (\<exists>names. tasks (act v a) ! p = Returned (RList names))"
proof -
  from task_results_known [OF k] obtain names where
    n: "task_results (map (\<lambda>c. tasks v ! c) (filter (\<lambda>c. is_done (tasks v ! c)) cs)) = Inr names"
    by blast
  from act_any_woken [OF wi p, of a] n show ?thesis by auto
qed

lemma any_woken_known_exec:
  fixes v :: "'f world"
  assumes wi: "world_inv v" and p: "p < length (tasks v)" "tasks v ! p = In_asyncio_wait cs True"
    and k: "sub_waits ms cs (tasks v)" "set ms \<subseteq> {''a'', ''b'', ''c''}"
  shows "tasks (exec xs v) ! p = In_asyncio_wait cs True
       \<or> (\<exists>names. tasks (exec xs v) ! p = Returned (RList names))"
proof (induction xs rule: rev_induct)
  case Nil
  with p show ?case by simp
next
  case (snoc a xs)
  have wi': "world_inv (exec xs v)" using wi by (rule world_inv_exec)
  have lt': "p < length (tasks (exec xs v))" using wi p(1) by (rule lt_tasks_exec)
  have k': "sub_waits ms cs (tasks (exec xs v))" using wi k(1) by (rule sub_waits_exec)
  from snoc.IH show ?case
  proof (elim disjE exE)
    assume "tasks (exec xs v) ! p = In_asyncio_wait cs True"
    from act_any_woken_known [OF wi' lt' this k' k(2), of a] show ?thesis
      by (simp add: exec_append)
  next
    fix names assume r: "tasks (exec xs v) ! p = Returned (RList names)"
    then have "is_final (tasks (exec xs v) ! p)" by simp
    from act_final [OF wi' lt' this, of a] r show ?thesis by (simp add: exec_append)
  qed
qed

lemma any_pending_known_exec:
  fixes v :: "'f world"
  assumes wi: "world_inv v" and p: "p < length (tasks v)" "tasks v ! p = In_asyncio_wait cs False"
    and k: "sub_waits ms cs (tasks v)" "set ms \<subseteq> {''a'', ''b'', ''c''}"
  shows "tasks (exec xs v) ! p = In_asyncio_wait cs False
       \<or> tasks (exec xs v) ! p = In_asyncio_wait cs True
       \<or> (\<exists>names. tasks (exec xs v) ! p = Returned (RList names))"
proof (induction xs rule: rev_induct)
  case Nil
  with p show ?case by simp
next
  case (snoc a xs)
  have wi': "world_inv (exec xs v)" using wi by (rule world_inv_exec)
  have lt': "p < length (tasks (exec xs v))" using wi p(1) by (rule lt_tasks_exec)
  have k': "sub_waits ms cs (tasks (exec xs v))" using wi k(1) by (rule sub_waits_exec)
  from snoc.IH show ?case
  proof (elim disjE exE)
    assume "tasks (exec xs v) ! p = In_asyncio_wait cs False"
    from act_any_pending [OF wi' lt' this, of a] lt' show ?thesis
      by (auto simp: exec_append)
  next
    assume "tasks (exec xs v) ! p = In_asyncio_wait cs True"
    from act_any_woken_known [OF wi' lt' this k' k(2), of a] show ?thesis
      by (simp add: exec_append)
  next
    fix names assume r: "tasks (exec xs v) ! p = Returned (RList names)"
    then have "is_final (tasks (exec xs v) ! p)" by simp
    from act_final [OF wi' lt' this, of a] r show ?thesis by (simp add: exec_append)
  qed
qed

text \<open>
  Once a sub-wait has finished, the call that is suspended in \<^verbatim>\<open>asyncio.wait\<close> is woken
  when the loop has run the handles it holds; once the call is woken, it has returned when
  the loop has run the handles it holds then.
\<close>

lemma callback_round:
  fixes v :: "'f world"
  assumes wi: "world_inv v" and si: "sched_inv v" and wa: "wait_inv v"
    and p: "p < length (tasks v)"
    and k: "sub_waits ms cs (tasks v)" "set ms \<subseteq> {''a'', ''b'', ''c''}"
    and c: "c \<in> set cs" "is_done (tasks v ! c)"
    and st: "tasks v ! p = In_asyncio_wait cs False \<or> tasks v ! p = In_asyncio_wait cs True
             \<or> (\<exists>names. tasks v ! p = Returned (RList names))"
    and n: "length (ready v) \<le> count_list acts Loop"
  shows "tasks (exec acts v) ! p = In_asyncio_wait cs True
       \<or> (\<exists>names. tasks (exec acts v) ! p = Returned (RList names))"
  using st
proof (elim disjE exE)
  assume pf: "tasks v ! p = In_asyncio_wait cs False"
  have "ainv (tasks v) (ready v)" using wa by (simp add: wait_inv_def)
  from ainvD_done [OF this p pf c] have "Done_callback p c \<in> set (ready v)" .
  from member_runs [OF wi this n] obtain pre post hs where
    a: "acts = pre @ Loop # post" "ready (exec pre v) = Done_callback p c # hs" by blast
  define u where "u = exec pre v"
  have wiu: "world_inv u" unfolding u_def using wi by (rule world_inv_exec)
  have ltu: "p < length (tasks u)" unfolding u_def using wi p by (rule lt_tasks_exec)
  have ku: "sub_waits ms cs (tasks u)" unfolding u_def using wi k(1) by (rule sub_waits_exec)
  from sub_waits_nth [OF ku c(1)] have cu: "c < length (tasks u)" by blast
  have ex: "exec acts v = exec post (act u Loop)" unfolding a(1) u_def by (simp add: exec_append)
  have wiu': "world_inv (act u Loop)" using wiu by (rule world_inv_act)
  have ltu': "p < length (tasks (act u Loop))" using wiu ltu by (rule lt_tasks_act)
  have ku': "sub_waits ms cs (tasks (act u Loop))" using wiu ku by (rule sub_waits_act)
  from any_pending_known_exec [OF wi p pf k, of pre, folded u_def] show ?thesis
  proof (elim disjE exE)
    assume "tasks u ! p = In_asyncio_wait cs False"
    from callback_sets [OF ltu this a(2) [folded u_def] cu]
    have "tasks (act u Loop) ! p = In_asyncio_wait cs True" .
    from any_woken_known_exec [OF wiu' ltu' this ku' k(2), of post] show ?thesis unfolding ex .
  next
    assume "tasks u ! p = In_asyncio_wait cs True"
    from any_woken_known_exec [OF wiu ltu this ku k(2), of "Loop # post"] show ?thesis
      unfolding ex by simp
  next
    fix names assume r: "tasks u ! p = Returned (RList names)"
    then have "is_final (tasks u ! p)" by simp
    from final_exec [OF wiu ltu this, of "Loop # post"] r show ?thesis unfolding ex by simp
  qed
next
  assume "tasks v ! p = In_asyncio_wait cs True"
  from any_woken_known_exec [OF wi p this k, of acts] show ?thesis .
next
  fix names assume r: "tasks v ! p = Returned (RList names)"
  then have "is_final (tasks v ! p)" by simp
  from final_exec [OF wi p this, of acts] r show ?thesis by simp
qed

lemma resume_round:
  fixes v :: "'f world"
  assumes wi: "world_inv v" and wa: "wait_inv v"
    and p: "p < length (tasks v)"
    and k: "sub_waits ms cs (tasks v)" "set ms \<subseteq> {''a'', ''b'', ''c''}"
    and st: "tasks v ! p = In_asyncio_wait cs True
             \<or> (\<exists>names. tasks v ! p = Returned (RList names))"
    and n: "length (ready v) \<le> count_list acts Loop"
  shows "\<exists>names. tasks (exec acts v) ! p = Returned (RList names)"
  using st
proof (elim disjE exE)
  assume pt: "tasks v ! p = In_asyncio_wait cs True"
  have "ainv (tasks v) (ready v)" using wa by (simp add: wait_inv_def)
  from ainvD_woken [OF this p pt] have "Step p \<in> set (ready v)" .
  from member_runs [OF wi this n] obtain pre post hs where
    a: "acts = pre @ Loop # post" "ready (exec pre v) = Step p # hs" by blast
  define u where "u = exec pre v"
  have wiu: "world_inv u" unfolding u_def using wi by (rule world_inv_exec)
  have ltu: "p < length (tasks u)" unfolding u_def using wi p by (rule lt_tasks_exec)
  have ku: "sub_waits ms cs (tasks u)" unfolding u_def using wi k(1) by (rule sub_waits_exec)
  have ex: "exec acts v = exec post (act u Loop)" unfolding a(1) u_def by (simp add: exec_append)
  have wiu': "world_inv (act u Loop)" using wiu by (rule world_inv_act)
  have ltu': "p < length (tasks (act u Loop))" using wiu ltu by (rule lt_tasks_act)
  have "\<exists>names. tasks (act u Loop) ! p = Returned (RList names)"
    using any_woken_known_exec [OF wi p pt k, of pre, folded u_def]
  proof (elim disjE exE)
    assume "tasks u ! p = In_asyncio_wait cs True"
    from any_step_returns [OF ltu this a(2) [folded u_def] ku k(2)] show ?thesis .
  next
    fix names assume r: "tasks u ! p = Returned (RList names)"
    then have "is_final (tasks u ! p)" by simp
    from act_final [OF wiu ltu this, of Loop] r show ?thesis by simp
  qed
  then obtain names where r: "tasks (act u Loop) ! p = Returned (RList names)" by blast
  then have "is_final (tasks (act u Loop) ! p)" by simp
  from final_exec [OF wiu' ltu' this, of post] r show ?thesis unfolding ex by simp
next
  fix names assume r: "tasks v ! p = Returned (RList names)"
  then have "is_final (tasks v ! p)" by simp
  from final_exec [OF wi p this, of acts] r show ?thesis by simp
qed

text \<open>
  A pending \<^verbatim>\<open>asyncio.wait\<close> that returns: the step at which the first done-callback
  sets its waiter, and what it returns from there.
\<close>

lemma any_exact:
  fixes ws :: "'f world"
  assumes wis: "world_inv ws" and sis: "sched_inv ws" and was: "wait_inv ws"
    and lts: "p < length (tasks ws)" and ps: "tasks ws ! p = In_asyncio_wait cs False"
    and ks: "sub_waits ms cs (tasks ws)"
    and fin: "tasks (exec post1 ws) ! p = Returned r"
  shows "\<exists>b1 post2 c0 hs. post1 = b1 @ Loop # post2 \<and>
           tasks (exec b1 ws) ! p = In_asyncio_wait cs False \<and>
           ready (exec b1 ws) = Done_callback p c0 # hs \<and>
           tasks (act (exec b1 ws) Loop) ! p = In_asyncio_wait cs True \<and>
           r = RList (notified_names cs ms (tasks (act (exec b1 ws) Loop))) \<and>
           notified_names cs ms (tasks (act (exec b1 ws) Loop)) \<noteq> []"
proof -
  have nep: "\<forall>c \<in> set cs. c \<noteq> p"
  proof
    fix c assume "c \<in> set cs"
    then have "c \<in> set (children (tasks ws ! p))" using ps by simp
    moreover have "finv (tasks ws) (done_callbacks ws)" using sis by (simp add: sched_inv_def)
    ultimately show "c \<noteq> p" using finvD_child [of "tasks ws" "done_callbacks ws" p c] lts by simp
  qed
  let ?Q = "\<lambda>c :: 'f coro. c = In_asyncio_wait cs False"
  have "\<not> ?Q (tasks (exec post1 ws) ! p)" using fin by simp
  from first_change [of ?Q, OF ps this] obtain b1 b post2 where
    b0: "post1 = b1 @ b # post2" "tasks (exec b1 ws) ! p = In_asyncio_wait cs False"
    "tasks (act (exec b1 ws) b) ! p \<noteq> In_asyncio_wait cs False"
    by blast
  define v1 where "v1 = exec b1 ws"
  note b = b0 [folded v1_def]
  have wiv: "world_inv v1" unfolding v1_def using wis by (rule world_inv_exec)
  have siv: "sched_inv v1" unfolding v1_def using wis sis by (rule sched_inv_exec)
  have wav: "wait_inv v1" unfolding v1_def using wis sis was by (rule wait_inv_exec)
  have ltv: "p < length (tasks v1)" unfolding v1_def using wis lts by (rule lt_tasks_exec)
  have kv: "sub_waits ms cs (tasks v1)" unfolding v1_def using wis ks by (rule sub_waits_exec)
  from act_any_pending [OF wiv ltv b(2), of b] b(3) obtain c0 hs where
    bl: "b = Loop" and rv: "ready v1 = Done_callback p c0 # hs"
    and tv: "tasks (act v1 b) = (tasks v1)[p := In_asyncio_wait cs True]"
    and rv': "ready (act v1 b) = hs @ [Step p]"
    by blast
  define v where "v = act v1 Loop"
  have tv': "tasks v = (tasks v1)[p := In_asyncio_wait cs True]" and rdy: "ready v = hs @ [Step p]"
    unfolding v_def using tv rv' bl by simp_all
  have wi': "world_inv v" unfolding v_def using wiv by (rule world_inv_act)
  have si': "sched_inv v" unfolding v_def using wiv siv by (rule sched_inv_act)
  have wa': "wait_inv v" unfolding v_def using wiv siv wav by (rule wait_inv_act)
  have lt': "p < length (tasks v)" unfolding v_def using wiv ltv by (rule lt_tasks_act)
  have k': "sub_waits ms cs (tasks v)" unfolding v_def using wiv kv by (rule sub_waits_act)
  have p': "tasks v ! p = In_asyncio_wait cs True" unfolding tv' using ltv by simp
  have qv: "qinv (tasks v1) (ready v1)" using siv by (simp add: sched_inv_def)
  have nostep: "Step p \<notin> set hs"
    using qinvD_unwoken [OF qv ltv b(2)] unfolding rv by simp
  have fin': "tasks (exec post2 v) ! p = Returned r"
    unfolding v_def v1_def using fin b0(1) bl by (simp add: exec_append)
  from any_result [OF wi' si' wa' lt' p' rdy nostep k' nep fin']
  have res: "r = RList (notified_names cs ms (tasks v))"
    and nor: "\<forall>c \<in> set cs. is_done (tasks v ! c) \<longrightarrow> \<not> is_raised (tasks v ! c)"
    by simp_all
  have len: "length cs = length ms" using ks unfolding sub_waits_def by simp
  have nonempty: "notified_names cs ms (tasks v) \<noteq> []"
  proof -
    from qinvD_callback [OF qv, of p c0] rv b(2) have c0: "c0 \<in> set cs" "is_done (tasks v1 ! c0)"
      by simp_all
    from c0(1) nep have "c0 \<noteq> p" by blast
    with c0(2) have d: "is_done (tasks v ! c0)" unfolding tv' by simp
    from sub_waits_nth [OF k' c0(1)] obtain i where
      i: "i < length ms" "cs ! i = c0" "awaits (ms ! i) (tasks v ! c0)" by blast
    from awaits_done [OF i(3) d] nor c0(1) d have "tasks v ! c0 = Returned (RStr (ms ! i))" by blast
    then have "notified (ms ! i) (tasks v ! (cs ! i))" unfolding i(2) by simp
    from notified_names_mem [OF len i(1) this] show ?thesis by auto
  qed
  have "post1 = b1 @ Loop # post2 \<and>
           tasks (exec b1 ws) ! p = In_asyncio_wait cs False \<and>
           ready (exec b1 ws) = Done_callback p c0 # hs \<and>
           tasks (act (exec b1 ws) Loop) ! p = In_asyncio_wait cs True \<and>
           r = RList (notified_names cs ms (tasks (act (exec b1 ws) Loop))) \<and>
           notified_names cs ms (tasks (act (exec b1 ws) Loop)) \<noteq> []"
    using b0(1) bl b(2) rv p' res nonempty unfolding v_def v1_def by simp
  then show ?thesis by blast
qed

text \<open>
  A dispatch of a name whose sub-wait is registered makes the pending call return, and return
  that name: after three rounds of the loop, each as long as the queue at its start.
\<close>

lemma any_liveness:
  fixes v :: "'f world"
  assumes wi: "world_inv v" and si: "sched_inv v" and wa: "wait_inv v"
    and p: "p < length (tasks v)" "tasks v ! p = In_asyncio_wait cs False"
    and k: "sub_waits ms cs (tasks v)" "set ms \<subseteq> {''a'', ''b'', ''c''}"
    and i: "i < length ms" "tasks v ! (cs ! i) = In_wait (ms ! i) False"
    and d: "dispatches (ms ! i) v"
    and n: "length (ready (act v Loop)) \<le> count_list acts1 Loop"
      "length (ready (exec acts1 (act v Loop))) \<le> count_list acts2 Loop"
      "length (ready (exec acts2 (exec acts1 (act v Loop)))) \<le> count_list acts3 Loop"
  shows "\<exists>names. tasks (exec acts3 (exec acts2 (exec acts1 (act v Loop)))) ! p = Returned (RList names)
           \<and> ms ! i \<in> set names"
proof -
  let ?c = "cs ! i" and ?m = "ms ! i"
  from k(1) i(1) have len: "length cs = length ms" and lc: "?c < length (tasks v)"
    unfolding sub_waits_def by simp_all
  have cin: "?c \<in> set cs" using len i(1) by simp
  define v1 where "v1 = act v Loop"
  have wi1: "world_inv v1" unfolding v1_def using wi by (rule world_inv_act)
  have si1: "sched_inv v1" unfolding v1_def using wi si by (rule sched_inv_act)
  have wa1: "wait_inv v1" unfolding v1_def using wi si wa by (rule wait_inv_act)
  have lt1: "p < length (tasks v1)" unfolding v1_def using wi p(1) by (rule lt_tasks_act)
  have lc1: "?c < length (tasks v1)" unfolding v1_def using wi lc by (rule lt_tasks_act)
  have k1: "sub_waits ms cs (tasks v1)" unfolding v1_def using wi k(1) by (rule sub_waits_act)
  have c1: "tasks v1 ! ?c = In_wait ?m True"
    unfolding v1_def using wi lc i(2) d by (rule dispatch_wakes)
  have p1: "tasks v1 ! p = In_asyncio_wait cs False"
  proof -
    from d obtain t hs where "ready v = Step t # hs"
      unfolding dispatches_def by (auto split: list.splits handle.splits)
    with act_any_pending [OF wi p, of Loop] show ?thesis unfolding v1_def by auto
  qed
  define v2 where "v2 = exec acts1 v1"
  have wi2: "world_inv v2" unfolding v2_def using wi1 by (rule world_inv_exec)
  have si2: "sched_inv v2" unfolding v2_def using wi1 si1 by (rule sched_inv_exec)
  have wa2: "wait_inv v2" unfolding v2_def using wi1 si1 wa1 by (rule wait_inv_exec)
  have lt2: "p < length (tasks v2)" unfolding v2_def using wi1 lt1 by (rule lt_tasks_exec)
  have k2: "sub_waits ms cs (tasks v2)" unfolding v2_def using wi1 k1 by (rule sub_waits_exec)
  have "qinv (tasks v1) (ready v1)" using si1 by (simp add: sched_inv_def)
  from qinvD_woken [OF this lc1 c1] obtain j where
    j: "j < length (ready v1)" "ready v1 ! j = Step ?c" by (auto simp: in_set_conv_nth)
  from j(1) n(1) have "j < count_list acts1 Loop" unfolding v1_def by simp
  from woken_runs [OF wi1 lc1 c1 j this] have c2: "tasks v2 ! ?c = Returned (RStr ?m)"
    unfolding v2_def .
  then have d2: "is_done (tasks v2 ! ?c)" by simp
  define v3 where "v3 = exec acts2 v2"
  have wi3: "world_inv v3" unfolding v3_def using wi2 by (rule world_inv_exec)
  have wa3: "wait_inv v3" unfolding v3_def using wi2 si2 wa2 by (rule wait_inv_exec)
  have lt3: "p < length (tasks v3)" unfolding v3_def using wi2 lt2 by (rule lt_tasks_exec)
  have k3: "sub_waits ms cs (tasks v3)" unfolding v3_def using wi2 k2 by (rule sub_waits_exec)
  have st2: "tasks v2 ! p = In_asyncio_wait cs False \<or> tasks v2 ! p = In_asyncio_wait cs True
             \<or> (\<exists>names. tasks v2 ! p = Returned (RList names))"
    unfolding v2_def using wi1 lt1 p1 k1 k(2) by (rule any_pending_known_exec)
  have st3: "tasks v3 ! p = In_asyncio_wait cs True
       \<or> (\<exists>names. tasks v3 ! p = Returned (RList names))"
    unfolding v3_def
    using wi2 si2 wa2 lt2 k2 k(2) cin d2 st2 n(2) [folded v1_def v2_def] by (rule callback_round)
  from resume_round [OF wi3 wa3 lt3 k3 k(2) st3 n(3) [folded v1_def v2_def v3_def]]
  obtain names where r: "tasks (exec acts3 v3) ! p = Returned (RList names)" by blast
  have "exec acts3 v3 = exec (acts1 @ acts2 @ acts3) v1"
    unfolding v3_def v2_def by (simp add: exec_append)
  with r have "tasks (exec (acts1 @ acts2 @ acts3) v1) ! p = Returned (RList names)" by simp
  from any_exact [OF wi1 si1 wa1 lt1 p1 k1 this] obtain b1 post2 where
    e: "acts1 @ acts2 @ acts3 = b1 @ Loop # post2"
    "RList names = RList (notified_names cs ms (tasks (act (exec b1 v1) Loop)))"
    by blast
  have "notified ?m (tasks v1 ! ?c)" using c1 by simp
  from notified_exec [OF wi1 lc1 this, of "b1 @ [Loop]"]
  have "notified ?m (tasks (act (exec b1 v1) Loop) ! ?c)" by (simp add: exec_append)
  from notified_names_mem [OF len i(1) this] e(2) have "?m \<in> set names" by simp
  with r show ?thesis unfolding v3_def v2_def v1_def by blast
qed

text \<open>The first step of a call of \<^verbatim>\<open>await_any_messages\<close>, once the call has left its
  initial state: it raised for no name at all, or it created its sub-waits and suspended.\<close>

lemma any_entry:
  fixes w :: "'f world"
  assumes wi: "world_inv w"
    and p: "p < length (tasks w)" "tasks w ! p = Created (Await_any_messages ms)"
    and n: "tasks (exec acts w) ! p \<noteq> Created (Await_any_messages ms)"
  shows "\<exists>a1 post1. acts = a1 @ Loop # post1 \<and>
           (ms = [] \<and> tasks (act (exec a1 w) Loop) ! p = Raised ValueError_empty_set
            \<or> (\<exists>cs. tasks (act (exec a1 w) Loop) ! p = In_asyncio_wait cs False \<and>
                  sub_waits ms cs (tasks (act (exec a1 w) Loop)) \<and>
                  (\<forall>i<length ms. tasks (act (exec a1 w) Loop) ! (cs ! i) = Created (Await_message (ms ! i)))))"
proof -
  let ?P = "\<lambda>c :: 'f coro. c = Created (Await_any_messages ms)"
  from first_change [of ?P, OF p(2) n] obtain a1 a post1 where
    a0: "acts = a1 @ a # post1" "tasks (exec a1 w) ! p = Created (Await_any_messages ms)"
    "tasks (act (exec a1 w) a) ! p \<noteq> Created (Await_any_messages ms)"
    by blast
  define w1 where "w1 = exec a1 w"
  note a = a0 [folded w1_def]
  have wi1: "world_inv w1" unfolding w1_def using wi by (rule world_inv_exec)
  have lt1: "p < length (tasks w1)" unfolding w1_def using wi p(1) by (rule lt_tasks_exec)
  from act_created [OF wi1 lt1 a(2), of a] a(3) obtain hs0 where
    l: "a = Loop" "ready w1 = Step p # hs0" "act w1 a = step p (w1\<lparr>ready := hs0\<rparr>)"
    by blast
  have st: "act w1 Loop = await_any_messages p ms (w1\<lparr>ready := hs0\<rparr>)"
    using l lt1 a(2) by (simp add: step_def)
  have "ms = [] \<and> tasks (act w1 Loop) ! p = Raised ValueError_empty_set
      \<or> (\<exists>cs. tasks (act w1 Loop) ! p = In_asyncio_wait cs False \<and>
            sub_waits ms cs (tasks (act w1 Loop)) \<and>
            (\<forall>i<length ms. tasks (act w1 Loop) ! (cs ! i) = Created (Await_message (ms ! i))))"
  proof (cases "ms = []")
    case True
    then show ?thesis unfolding st using lt1 by (simp add: await_any_messages_def)
  next
    case False
    let ?L = "length (tasks w1)"
    let ?cs = "[?L ..< ?L + length ms]"
    have tws: "tasks (act w1 Loop)
        = (tasks w1)[p := In_asyncio_wait ?cs False] @ map (\<lambda>m. Created (Await_message m)) ms"
      unfolding st using False by (simp add: await_any_messages_def children_of_def)
    have "tasks (act w1 Loop) ! p = In_asyncio_wait ?cs False"
      unfolding tws using lt1 by (simp add: nth_append)
    moreover have "sub_waits ms ?cs (tasks (act w1 Loop))"
      unfolding tws using lt1 by (rule sub_waits_spawn)
    moreover have "\<forall>i<length ms. tasks (act w1 Loop) ! (?cs ! i) = Created (Await_message (ms ! i))"
      unfolding tws by (simp add: nth_append)
    ultimately show ?thesis by blast
  qed
  with a0(1) l(1) show ?thesis unfolding w1_def by blast
qed

section \<open>Waiting for any: inclusiveness\<close>

text \<open>
  C3, as the specification states it, fails in two ways.  First, the sub-waits register one
  step of the loop after the call began, and a notification before that is missed: wait for
  \<^verbatim>\<open>'a'\<close> or \<^verbatim>\<open>'b'\<close> with a message of type \<^verbatim>\<open>'a'\<close> already queued; the call has begun
  and is suspended when \<^verbatim>\<open>'a'\<close> is dispatched, yet it stays suspended when the loop has
  nothing left to run, and after a later message of type \<^verbatim>\<open>'b'\<close> it returns
  \<^verbatim>\<open>['b']\<close> alone.  Second, what is returned is fixed when the first done-callback sets
  the waiter, not when the call resumes: \<^verbatim>\<open>'b'\<close>, dispatched to its registered sub-wait
  after that callback and before the call resumes, is not returned.
\<close>

theorem C3_counterexample:
  "tasks (exec [Create_task (Await_any_messages [''a'', ''b'']),
                Create_task (Protocol_x_decoder (Inr (JObj [(''type'', JStr ''a''), (''payload'', JObj [])]))),
                Loop] (world0 :: unit world)) ! 0 = In_asyncio_wait [2, 3] False
   \<and> dispatches ''a''
        (exec [Create_task (Await_any_messages [''a'', ''b'']),
               Create_task (Protocol_x_decoder (Inr (JObj [(''type'', JStr ''a''), (''payload'', JObj [])]))),
               Loop] (world0 :: unit world))
   \<and> tasks (exec [Create_task (Await_any_messages [''a'', ''b'']),
                Create_task (Protocol_x_decoder (Inr (JObj [(''type'', JStr ''a''), (''payload'', JObj [])]))),
                Loop, Loop, Loop, Loop] (world0 :: unit world))
       = [In_asyncio_wait [2, 3] False, Returned RNone, In_wait ''a'' False, In_wait ''b'' False]
   \<and> ready (exec [Create_task (Await_any_messages [''a'', ''b'']),
                Create_task (Protocol_x_decoder (Inr (JObj [(''type'', JStr ''a''), (''payload'', JObj [])]))),
                Loop, Loop, Loop, Loop] (world0 :: unit world)) = []
   \<and> tasks (exec [Create_task (Await_any_messages [''a'', ''b'']),
                Create_task (Protocol_x_decoder (Inr (JObj [(''type'', JStr ''a''), (''payload'', JObj [])]))),
                Loop, Loop, Loop, Loop,
                Create_task (Protocol_x_decoder (Inr (JObj [(''type'', JStr ''b''), (''payload'', JObj [])]))),
                Loop, Loop, Loop, Loop] (world0 :: unit world)) ! 0 = Returned (RList [''b''])
   \<and> tasks (exec [Create_task (Await_any_messages [''a'', ''b'']), Loop, Loop, Loop,
                Create_task (Protocol_x_decoder (Inr (JObj [(''type'', JStr ''a''), (''payload'', JObj [])]))),
                Loop, Loop,
                Create_task (Protocol_x_decoder (Inr (JObj [(''type'', JStr ''b''), (''payload'', JObj [])]))),
                Loop] (world0 :: unit world))
       = [In_asyncio_wait [1, 2] True, Returned (RStr ''a''), In_wait ''b'' False, Returned RNone,
          Created (Protocol_x_decoder (Inr (JObj [(''type'', JStr ''b''), (''payload'', JObj [])])))]
   \<and> dispatches ''b''
        (exec [Create_task (Await_any_messages [''a'', ''b'']), Loop, Loop, Loop,
               Create_task (Protocol_x_decoder (Inr (JObj [(''type'', JStr ''a''), (''payload'', JObj [])]))),
               Loop, Loop,
               Create_task (Protocol_x_decoder (Inr (JObj [(''type'', JStr ''b''), (''payload'', JObj [])]))),
               Loop] (world0 :: unit world))
   \<and> tasks (exec [Create_task (Await_any_messages [''a'', ''b'']), Loop, Loop, Loop,
                Create_task (Protocol_x_decoder (Inr (JObj [(''type'', JStr ''a''), (''payload'', JObj [])]))),
                Loop, Loop,
                Create_task (Protocol_x_decoder (Inr (JObj [(''type'', JStr ''b''), (''payload'', JObj [])]))),
                Loop, Loop] (world0 :: unit world))
       = [In_asyncio_wait [1, 2] True, Returned (RStr ''a''), In_wait ''b'' True, Returned RNone,
          Returned RNone]
   \<and> tasks (exec [Create_task (Await_any_messages [''a'', ''b'']), Loop, Loop, Loop,
                Create_task (Protocol_x_decoder (Inr (JObj [(''type'', JStr ''a''), (''payload'', JObj [])]))),
                Loop, Loop,
                Create_task (Protocol_x_decoder (Inr (JObj [(''type'', JStr ''b''), (''payload'', JObj [])]))),
                Loop, Loop, Loop] (world0 :: unit world)) ! 0 = Returned (RList [''a''])"
  by (simp add: run_simps)

text \<open>
  C3, amended.  In any world the loop can reach from the initial one, let task \<open>p\<close> be a
  call of \<^verbatim>\<open>await_any_messages\<close> on the names \<open>ms\<close> that has not started.  A notification
  counts for the call while the sub-wait of its name is registered, and what the call returns
  is fixed at its first observed wakeup, the step at which the loop runs the first
  done-callback of a sub-wait and sets the waiter of \<^verbatim>\<open>asyncio.wait\<close>.

  \<^item> If the call has returned \<open>r\<close> after \<open>acts\<close>, then until that step it was suspended,
    and \<open>r\<close> lists, as a set, exactly the names whose sub-wait has been notified at that
    step: at least one; each of them dispatched before that step, while the call was
    suspended and the sub-wait registered; and every name dispatched before that step while
    its sub-wait was registered is among them, whether or not another was dispatched first.
  \<^item> The call does return: when the names are names of the dict, the call is suspended,
    the sub-wait of a name is registered and the loop dispatches that name, then after three
    rounds of the loop, each at least as long as the queue at its start (the sub-wait, its
    callback, the call), the call has returned, that name included.
\<close>

theorem C3_any_wait_registered:
  fixes w :: "'f world"
  assumes "w = exec acts0 world0"
    and "p < length (tasks w)" "tasks w ! p = Created (Await_any_messages ms)"
  shows "(tasks (exec acts w) ! p = Returned r \<longrightarrow>
          (\<exists>pre post cs names.
             acts = pre @ Loop # post \<and> length cs = length ms
           \<and> tasks (exec pre w) ! p = In_asyncio_wait cs False
           \<and> tasks (act (exec pre w) Loop) ! p = In_asyncio_wait cs True
           \<and> r = RList names \<and> names \<noteq> []
           \<and> set names = set (notified_names cs ms (tasks (act (exec pre w) Loop)))
           \<and> (\<forall>m \<in> set names.
                \<exists>pre' mid i. pre = pre' @ Loop # mid \<and> dispatches m (exec pre' w) \<and>
                   tasks (exec pre' w) ! p = In_asyncio_wait cs False \<and>
                   i < length ms \<and> ms ! i = m \<and>
                   tasks (exec pre' w) ! (cs ! i) = In_wait m False)
           \<and> (\<forall>i pre' mid. i < length ms \<and> pre = pre' @ Loop # mid \<and>
                   cs ! i < length (tasks (exec pre' w)) \<and>
                   tasks (exec pre' w) ! (cs ! i) = In_wait (ms ! i) False \<and>
                   dispatches (ms ! i) (exec pre' w) \<longrightarrow>
                   ms ! i \<in> set names)))
       \<and> (set ms \<subseteq> {''a'', ''b'', ''c''} \<longrightarrow>
          (\<forall>cs i acts1 acts2 acts3.
             tasks (exec acts w) ! p = In_asyncio_wait cs False \<and> i < length ms \<and>
             tasks (exec acts w) ! (cs ! i) = In_wait (ms ! i) False \<and>
             dispatches (ms ! i) (exec acts w) \<and>
             length (ready (act (exec acts w) Loop)) \<le> count_list acts1 Loop \<and>
             length (ready (exec acts1 (act (exec acts w) Loop))) \<le> count_list acts2 Loop \<and>
             length (ready (exec acts2 (exec acts1 (act (exec acts w) Loop)))) \<le> count_list acts3 Loop
             \<longrightarrow>
             (\<exists>names. tasks (exec acts3 (exec acts2 (exec acts1 (act (exec acts w) Loop)))) ! p
                        = Returned (RList names) \<and> ms ! i \<in> set names)))"
proof (intro conjI impI allI)
  have wi: "world_inv w" and si: "sched_inv w" and wa: "wait_inv w"
    unfolding assms(1) using reachable_inv [of acts0] by simp_all
  assume fin0: "tasks (exec acts w) ! p = Returned r"
  then have "tasks (exec acts w) ! p \<noteq> Created (Await_any_messages ms)" by simp
  from any_entry [OF wi assms(2,3) this] obtain a1 post1 where
    a: "acts = a1 @ Loop # post1"
    and e: "ms = [] \<and> tasks (act (exec a1 w) Loop) ! p = Raised ValueError_empty_set
            \<or> (\<exists>cs. tasks (act (exec a1 w) Loop) ! p = In_asyncio_wait cs False \<and>
                  sub_waits ms cs (tasks (act (exec a1 w) Loop)) \<and>
                  (\<forall>i<length ms. tasks (act (exec a1 w) Loop) ! (cs ! i) = Created (Await_message (ms ! i))))"
    by blast
  define ws where "ws = act (exec a1 w) Loop"
  have ew: "exec (a1 @ [Loop]) w = ws" unfolding ws_def by (simp add: exec_append)
  have wis: "world_inv ws" unfolding ew [symmetric] using wi by (rule world_inv_exec)
  have sis: "sched_inv ws" unfolding ew [symmetric] using wi si by (rule sched_inv_exec)
  have was: "wait_inv ws" unfolding ew [symmetric] using wi si wa by (rule wait_inv_exec)
  have lts: "p < length (tasks ws)" unfolding ew [symmetric] using wi assms(2) by (rule lt_tasks_exec)
  have fin: "tasks (exec post1 ws) ! p = Returned r"
    unfolding ws_def using fin0 a by (simp add: exec_append)
  have "\<not> (ms = [] \<and> tasks ws ! p = Raised ValueError_empty_set)"
  proof
    assume h: "ms = [] \<and> tasks ws ! p = Raised ValueError_empty_set"
    then have "is_final (tasks ws ! p)" by simp
    from final_exec [OF wis lts this, of post1] fin h show False by simp
  qed
  with e [folded ws_def] obtain cs where ps: "tasks ws ! p = In_asyncio_wait cs False"
    and ks: "sub_waits ms cs (tasks ws)"
    and cr: "\<forall>i<length ms. tasks ws ! (cs ! i) = Created (Await_message (ms ! i))"
    by blast
  have len: "length cs = length ms" using ks unfolding sub_waits_def by simp
  from any_exact [OF wis sis was lts ps ks fin] obtain b1 post2 c0 hs where
    b: "post1 = b1 @ Loop # post2"
    and pv1: "tasks (exec b1 ws) ! p = In_asyncio_wait cs False"
    and rv1: "ready (exec b1 ws) = Done_callback p c0 # hs"
    and pv: "tasks (act (exec b1 ws) Loop) ! p = In_asyncio_wait cs True"
    and res: "r = RList (notified_names cs ms (tasks (act (exec b1 ws) Loop)))"
    and nonempty: "notified_names cs ms (tasks (act (exec b1 ws) Loop)) \<noteq> []"
    by blast
  define v where "v = act (exec b1 ws) Loop"
  define pre where "pre = a1 @ Loop # b1"
  have ev1: "exec pre w = exec b1 ws" unfolding pre_def ws_def by (simp add: exec_append)
  have ev: "act (exec pre w) Loop = v" unfolding ev1 v_def ..
  have acts: "acts = pre @ Loop # post2" unfolding pre_def using a b by simp
  have sound: "\<exists>pre' mid i. pre = pre' @ Loop # mid \<and> dispatches m (exec pre' w) \<and>
                 tasks (exec pre' w) ! p = In_asyncio_wait cs False \<and>
                 i < length ms \<and> ms ! i = m \<and> tasks (exec pre' w) ! (cs ! i) = In_wait m False"
    if "m \<in> set (notified_names cs ms (tasks v))" for m
  proof -
    from notified_names_elim [OF that] obtain i where
      i: "i < length ms" "ms ! i = m" "notified m (tasks v ! (cs ! i))" by blast
    let ?c = "cs ! i"
    from ks i(1) have cl: "?c < length (tasks ws)" unfolding sub_waits_def by simp
    have cc: "tasks ws ! ?c = Created (Await_message m)" using cr i(1,2) by auto
    have "v = exec (b1 @ [Loop]) ws" unfolding v_def by (simp add: exec_append)
    with i(3) have "notified m (tasks (exec (b1 @ [Loop]) ws) ! ?c)" by simp
    from created_notified [OF wis cl cc this] obtain pre' post' where
      d: "b1 @ [Loop] = pre' @ Loop # post'" "tasks (exec pre' ws) ! ?c = In_wait m False"
      "dispatches m (exec pre' ws)" by blast
    have "post' \<noteq> []"
    proof
      assume "post' = []"
      with d(1) have "pre' = b1" by simp
      with d(3) rv1 show False by (simp add: dispatches_def)
    qed
    then obtain mid x where "post' = mid @ [x]" by (cases post' rule: rev_cases) auto
    with d(1) have b1: "b1 = pre' @ Loop # mid" by simp
    have "tasks (exec (pre' @ Loop # mid) ws) ! p = In_asyncio_wait cs False"
      using pv1 unfolding b1 .
    from any_pending_before [OF wis lts ps this]
    have pp: "tasks (exec pre' ws) ! p = In_asyncio_wait cs False" .
    have e1: "exec (a1 @ Loop # pre') w = exec pre' ws"
      unfolding ws_def by (simp add: exec_append)
    have "pre = (a1 @ Loop # pre') @ Loop # mid" unfolding pre_def b1 by simp
    with d(2,3) pp e1 i(1,2) show ?thesis by metis
  qed
  have complete: "ms ! i \<in> set (notified_names cs ms (tasks v))"
    if h: "i < length ms" "pre = pre' @ Loop # mid" "cs ! i < length (tasks (exec pre' w))"
      "tasks (exec pre' w) ! (cs ! i) = In_wait (ms ! i) False" "dispatches (ms ! i) (exec pre' w)"
    for i pre' mid
  proof -
    define u where "u = exec pre' w"
    have wiu: "world_inv u" unfolding u_def using wi by (rule world_inv_exec)
    from dispatch_wakes [OF wiu h(3,4) [folded u_def] h(5) [folded u_def]]
    have "notified (ms ! i) (tasks (act u Loop) ! (cs ! i))" by simp
    from notified_exec [OF world_inv_act [OF wiu] lt_tasks_act [OF wiu h(3) [folded u_def]] this,
        of "mid @ [Loop]"]
    have "notified (ms ! i) (tasks (exec (pre @ [Loop]) w) ! (cs ! i))"
      unfolding h(2) u_def by (simp add: exec_append)
    moreover have "exec (pre @ [Loop]) w = v" using ev by (simp add: exec_append)
    ultimately have "notified (ms ! i) (tasks v ! (cs ! i))" by simp
    from notified_names_mem [OF len h(1) this] show ?thesis .
  qed
  define names where "names = notified_names cs ms (tasks v)"
  have "acts = pre @ Loop # post2 \<and> length cs = length ms
       \<and> tasks (exec pre w) ! p = In_asyncio_wait cs False
       \<and> tasks (act (exec pre w) Loop) ! p = In_asyncio_wait cs True
       \<and> r = RList names \<and> names \<noteq> []
       \<and> set names = set (notified_names cs ms (tasks (act (exec pre w) Loop)))
       \<and> (\<forall>m \<in> set names.
            \<exists>pre' mid i. pre = pre' @ Loop # mid \<and> dispatches m (exec pre' w) \<and>
               tasks (exec pre' w) ! p = In_asyncio_wait cs False \<and>
               i < length ms \<and> ms ! i = m \<and>
               tasks (exec pre' w) ! (cs ! i) = In_wait m False)
       \<and> (\<forall>i pre' mid. i < length ms \<and> pre = pre' @ Loop # mid \<and>
               cs ! i < length (tasks (exec pre' w)) \<and>
               tasks (exec pre' w) ! (cs ! i) = In_wait (ms ! i) False \<and>
               dispatches (ms ! i) (exec pre' w) \<longrightarrow>
               ms ! i \<in> set names)"
    unfolding ev names_def unfolding ev1
    using acts len pv1 pv res nonempty sound complete unfolding v_def by blast
  then show "\<exists>pre post cs names.
             acts = pre @ Loop # post \<and> length cs = length ms
           \<and> tasks (exec pre w) ! p = In_asyncio_wait cs False
           \<and> tasks (act (exec pre w) Loop) ! p = In_asyncio_wait cs True
           \<and> r = RList names \<and> names \<noteq> []
           \<and> set names = set (notified_names cs ms (tasks (act (exec pre w) Loop)))
           \<and> (\<forall>m \<in> set names.
                \<exists>pre' mid i. pre = pre' @ Loop # mid \<and> dispatches m (exec pre' w) \<and>
                   tasks (exec pre' w) ! p = In_asyncio_wait cs False \<and>
                   i < length ms \<and> ms ! i = m \<and>
                   tasks (exec pre' w) ! (cs ! i) = In_wait m False)
           \<and> (\<forall>i pre' mid. i < length ms \<and> pre = pre' @ Loop # mid \<and>
                   cs ! i < length (tasks (exec pre' w)) \<and>
                   tasks (exec pre' w) ! (cs ! i) = In_wait (ms ! i) False \<and>
                   dispatches (ms ! i) (exec pre' w) \<longrightarrow>
                   ms ! i \<in> set names)"
    by blast
next
  fix cs i and acts1 acts2 acts3 :: "'f action list"
  have wi: "world_inv w" and si: "sched_inv w" and wa: "wait_inv w"
    unfolding assms(1) using reachable_inv [of acts0] by simp_all
  assume known: "set ms \<subseteq> {''a'', ''b'', ''c''}"
    and h: "tasks (exec acts w) ! p = In_asyncio_wait cs False \<and> i < length ms \<and>
             tasks (exec acts w) ! (cs ! i) = In_wait (ms ! i) False \<and>
             dispatches (ms ! i) (exec acts w) \<and>
             length (ready (act (exec acts w) Loop)) \<le> count_list acts1 Loop \<and>
             length (ready (exec acts1 (act (exec acts w) Loop))) \<le> count_list acts2 Loop \<and>
             length (ready (exec acts2 (exec acts1 (act (exec acts w) Loop)))) \<le> count_list acts3 Loop"
  define v where "v = exec acts w"
  have wiv: "world_inv v" unfolding v_def using wi by (rule world_inv_exec)
  have siv: "sched_inv v" unfolding v_def using wi si by (rule sched_inv_exec)
  have wav: "wait_inv v" unfolding v_def using wi si wa by (rule wait_inv_exec)
  have ltv: "p < length (tasks v)" unfolding v_def using wi assms(2) by (rule lt_tasks_exec)
  from h have pv: "tasks v ! p = In_asyncio_wait cs False" unfolding v_def by simp
  then have "tasks (exec acts w) ! p \<noteq> Created (Await_any_messages ms)" unfolding v_def by simp
  from any_entry [OF wi assms(2,3) this] obtain a1 post1 where
    a: "acts = a1 @ Loop # post1"
    and e: "ms = [] \<and> tasks (act (exec a1 w) Loop) ! p = Raised ValueError_empty_set
            \<or> (\<exists>cs. tasks (act (exec a1 w) Loop) ! p = In_asyncio_wait cs False \<and>
                  sub_waits ms cs (tasks (act (exec a1 w) Loop)) \<and>
                  (\<forall>i<length ms. tasks (act (exec a1 w) Loop) ! (cs ! i) = Created (Await_message (ms ! i))))"
    by blast
  define ws where "ws = act (exec a1 w) Loop"
  have ew: "exec (a1 @ [Loop]) w = ws" unfolding ws_def by (simp add: exec_append)
  have wis: "world_inv ws" unfolding ew [symmetric] using wi by (rule world_inv_exec)
  have lts: "p < length (tasks ws)" unfolding ew [symmetric] using wi assms(2) by (rule lt_tasks_exec)
  have vv: "v = exec post1 ws" unfolding v_def ws_def a by (simp add: exec_append)
  from h have "ms \<noteq> []" by auto
  with e [folded ws_def] obtain cs0 where ps: "tasks ws ! p = In_asyncio_wait cs0 False"
    and ks: "sub_waits ms cs0 (tasks ws)"
    by blast
  from any_pending_exec [OF wis lts ps, of post1] pv have "cs0 = cs" unfolding vv by auto
  with ks have kv: "sub_waits ms cs (tasks v)" unfolding vv using wis by (simp add: sub_waits_exec)
  from h have i: "i < length ms" "tasks v ! (cs ! i) = In_wait (ms ! i) False"
    and d: "dispatches (ms ! i) v"
    and n: "length (ready (act v Loop)) \<le> count_list acts1 Loop"
      "length (ready (exec acts1 (act v Loop))) \<le> count_list acts2 Loop"
      "length (ready (exec acts2 (exec acts1 (act v Loop)))) \<le> count_list acts3 Loop"
    unfolding v_def by simp_all
  from any_liveness [OF wiv siv wav ltv pv kv known i d n]
  show "\<exists>names. tasks (exec acts3 (exec acts2 (exec acts1 (act (exec acts w) Loop)))) ! p
                        = Returned (RList names) \<and> ms ! i \<in> set names"
    unfolding v_def .
qed

theorem C3_any_wait_registered_witness:
  "(\<exists>pre post cs names.
      [Loop, Loop, Loop,
       Create_task (Protocol_x_decoder (Inr (JObj [(''type'', JStr ''a''), (''payload'', JObj [])]))),
       Create_task (Protocol_x_decoder (Inr (JObj [(''type'', JStr ''b''), (''payload'', JObj [])]))),
       Loop, Loop, Loop, Loop, Loop, Loop, Loop] = pre @ Loop # post
    \<and> tasks (exec pre (exec [Create_task (Await_any_messages [''a'', ''b''])] (world0 :: unit world))) ! 0
         = In_asyncio_wait cs False
    \<and> RList [''a'', ''b''] = RList names
    \<and> set names = set (notified_names cs [''a'', ''b'']
         (tasks (act (exec pre (exec [Create_task (Await_any_messages [''a'', ''b''])]
            (world0 :: unit world))) Loop))))
   \<and> (\<exists>names.
        tasks (exec [Loop] (exec [Loop] (exec [Loop]
          (act (exec [Loop, Loop, Loop,
                      Create_task (Protocol_x_decoder
                        (Inr (JObj [(''type'', JStr ''a''), (''payload'', JObj [])])))]
                 (exec [Create_task (Await_any_messages [''a'', ''b''])] (world0 :: unit world)))
             Loop)))) ! 0
          = Returned (RList names)
      \<and> ''a'' \<in> set names)"
proof -
  let ?w = "exec [Create_task (Await_any_messages [''a'', ''b''])] (world0 :: unit world)"
  let ?tie = "[Loop, Loop, Loop,
       Create_task (Protocol_x_decoder (Inr (JObj [(''type'', JStr ''a''), (''payload'', JObj [])]))),
       Create_task (Protocol_x_decoder (Inr (JObj [(''type'', JStr ''b''), (''payload'', JObj [])]))),
       Loop, Loop, Loop, Loop, Loop, Loop, Loop] :: unit action list"
  let ?one = "[Loop, Loop, Loop,
       Create_task (Protocol_x_decoder (Inr (JObj [(''type'', JStr ''a''), (''payload'', JObj [])])))]
       :: unit action list"
  have h: "0 < length (tasks ?w)" "tasks ?w ! 0 = Created (Await_any_messages [''a'', ''b''])"
    by (simp_all add: run_simps)
  have r: "tasks (exec ?tie ?w) ! 0 = Returned (RList [''a'', ''b''])"
    by (simp add: run_simps)
  have known: "set [''a'', ''b''] \<subseteq> {''a'', ''b'', ''c''}" by simp
  have live: "tasks (exec ?one ?w) ! 0 = In_asyncio_wait [1, 2] False \<and> 0 < length [''a'', ''b''] \<and>
      tasks (exec ?one ?w) ! ([1, 2] ! 0) = In_wait ([''a'', ''b''] ! 0) False \<and>
      dispatches ([''a'', ''b''] ! 0) (exec ?one ?w) \<and>
      length (ready (act (exec ?one ?w) Loop)) \<le> count_list [Loop] (Loop :: unit action) \<and>
      length (ready (exec [Loop] (act (exec ?one ?w) Loop))) \<le> count_list [Loop] (Loop :: unit action) \<and>
      length (ready (exec [Loop] (exec [Loop] (act (exec ?one ?w) Loop))))
        \<le> count_list [Loop] (Loop :: unit action)"
    by (simp add: run_simps)
  from C3_any_wait_registered [OF refl h, of ?tie "RList [''a'', ''b'']", THEN conjunct1, rule_format, OF r]
  obtain pre post cs names where
    "?tie = pre @ Loop # post" "tasks (exec pre ?w) ! 0 = In_asyncio_wait cs False"
    "RList [''a'', ''b''] = RList names"
    "set names = set (notified_names cs [''a'', ''b''] (tasks (act (exec pre ?w) Loop)))"
    by blast
  then have 1: "\<exists>pre post cs names. ?tie = pre @ Loop # post
    \<and> tasks (exec pre ?w) ! 0 = In_asyncio_wait cs False
    \<and> RList [''a'', ''b''] = RList names
    \<and> set names = set (notified_names cs [''a'', ''b''] (tasks (act (exec pre ?w) Loop)))"
    by blast
  from C3_any_wait_registered [OF refl h, of ?one RNone, THEN conjunct2, rule_format, OF known live]
  have 2: "\<exists>names. tasks (exec [Loop] (exec [Loop] (exec [Loop] (act (exec ?one ?w) Loop)))) ! 0
      = Returned (RList names) \<and> ''a'' \<in> set names"
    by simp
  from 1 2 show ?thesis by blast
qed

end
